(* ===== verification/Go_Prelude.thy ===== *)
theory Go_Prelude
  imports Main "HOL-Library.Word" "HOL-Library.Finite_Map" "HOL-Library.Char_ord"
    "HOL-Library.List_Lexorder"
begin

text \<open>
  The machine-level vocabulary of the models: bytes and strings (a Go \<^verbatim>\<open>[]byte\<close> and a Go \<^verbatim>\<open>string\<close> are both
  a list of characters of eight bits), 64-bit integers as \<^typ>\<open>int\<close> with \<open>wrap64\<close> written where the code
  can overflow, big-endian words (\<^verbatim>\<open>encoding/binary\<close>), decimal numerals (\<^verbatim>\<open>fmt\<close>, \<^verbatim>\<open>strconv\<close>), and Go maps as
  finite maps with their sorted keys.  The collection \<open>codec_simps\<close> holds the encode/decode equations.
\<close>

unbundle bit_operations_syntax

type_synonym byte = char
type_synonym bytes = "byte list"

named_theorems codec_simps \<open>encode/decode equations\<close>

definition wrap64 :: "int \<Rightarrow> int" where
  "wrap64 x = sint (word_of_int x :: 64 word)"

definition int64_range :: "int \<Rightarrow> bool" where
  "int64_range x \<longleftrightarrow> - (2 ^ 63) \<le> x \<and> x < 2 ^ 63"

definition byte_of :: "'a::len word \<Rightarrow> byte" where
  "byte_of w = char_of (uint w)"

definition word_of_byte :: "byte \<Rightarrow> 'a::len word" where
  "word_of_byte c = of_char c"

fun be_bytes :: "nat \<Rightarrow> 'a::len word \<Rightarrow> bytes" where
  "be_bytes 0 w = []"
| "be_bytes (Suc k) w = be_bytes k (drop_bit 8 w) @ [byte_of w]"

definition be_word :: "bytes \<Rightarrow> 'a::len word" where
  "be_word b = foldl (\<lambda>v c. push_bit 8 v OR word_of_byte c) 0 b"

definition PutUint32 :: "32 word \<Rightarrow> bytes" where
  "PutUint32 v = be_bytes 4 v"

definition Uint32 :: "bytes \<Rightarrow> 32 word" where
  "Uint32 b = be_word (take 4 b)"

definition PutUint64 :: "64 word \<Rightarrow> bytes" where
  "PutUint64 v = be_bytes 8 v"

definition Uint64 :: "bytes \<Rightarrow> 64 word" where
  "Uint64 b = be_word (take 8 b)"

fun nat_dec :: "nat \<Rightarrow> string" where
  "nat_dec n = (if n < 10 then [char_of (48 + n)] else nat_dec (n div 10) @ [char_of (48 + n mod 10)])"

declare nat_dec.simps [simp del]

definition fmt_d :: "int \<Rightarrow> string" where
  "fmt_d x = (if x < 0 then CHR ''-'' # nat_dec (nat (- x)) else nat_dec (nat x))"

definition is_digit :: "char \<Rightarrow> bool" where
  "is_digit c \<longleftrightarrow> 48 \<le> (of_char c :: nat) \<and> (of_char c :: nat) \<le> 57"

definition digit_val :: "char \<Rightarrow> nat" where
  "digit_val c = of_char c - 48"

definition dec_val :: "string \<Rightarrow> nat" where
  "dec_val s = foldl (\<lambda>a c. 10 * a + digit_val c) 0 s"

definition ParseUint :: "string \<Rightarrow> nat option" where
  "ParseUint s = (if s \<noteq> [] \<and> list_all is_digit s then Some (dec_val s) else None)"

definition ParseInt :: "string \<Rightarrow> int option" where
  "ParseInt s = (case s of [] \<Rightarrow> None
     | c # cs \<Rightarrow>
         (case ParseUint (if c = CHR ''+'' \<or> c = CHR ''-'' then cs else s) of None \<Rightarrow> None
          | Some n \<Rightarrow>
              (let v = (if c = CHR ''-'' then - int n else int n)
               in if int64_range v then Some v else None)))"

definition map_get :: "'v \<Rightarrow> ('k, 'v) fmap \<Rightarrow> 'k \<Rightarrow> 'v" where
  "map_get d m k = (case fmlookup m k of None \<Rightarrow> d | Some v \<Rightarrow> v)"

definition sorted_keys :: "('k::linorder, 'v) fmap \<Rightarrow> 'k list" where
  "sorted_keys m = sorted_list_of_set (fmdom' m)"

lemma wrap64_id [simp]: "int64_range x \<Longrightarrow> wrap64 x = x"
  by (simp add: wrap64_def int64_range_def sint_sbintrunc' signed_take_bit_int_eq_self)

lemma int64_range_wrap64 [simp]: "int64_range (wrap64 x)"
  using sint_ge [of "word_of_int x :: 64 word"] sint_lt [of "word_of_int x :: 64 word"]
  by (simp add: wrap64_def int64_range_def)

lemma bit_word_of_byte: "bit (word_of_byte c :: 'a::len word) n \<longleftrightarrow> n < LENGTH('a) \<and> bit (of_char c :: int) n"
proof -
  have "(of_char c :: 'a word) = word_of_int (of_char c :: int)"
    by (metis of_int_of_char)
  then show ?thesis
    by (simp add: word_of_byte_def bit_simps)
qed

lemma bit_word_of_byte_of [codec_simps]:
  "bit (word_of_byte (byte_of (w :: 'b::len word)) :: 'a::len word) n \<longleftrightarrow> n < LENGTH('a) \<and> n < 8 \<and> bit w n"
proof -
  have "(of_char (char_of (uint w)) :: int) = take_bit 8 (uint w)"
    by (simp add: take_bit_eq_mod)
  then show ?thesis
    by (auto simp: bit_word_of_byte byte_of_def bit_simps)
qed

lemma length_be_bytes [simp]: "length (be_bytes k w) = k"
  by (induction k arbitrary: w) simp_all

lemma be_word_snoc: "be_word (b @ [c]) = push_bit 8 (be_word b) OR word_of_byte c"
  by (simp add: be_word_def)

lemma be_word_be_bytes: "be_word (be_bytes k (w :: 'a::len word)) = take_bit (8 * k) w"
proof (induction k arbitrary: w)
  case 0
  then show ?case by (simp add: be_word_def)
next
  case (Suc k)
  show ?case
    by (rule bit_word_eqI) (auto simp: be_word_snoc Suc codec_simps bit_simps)
qed

lemma length_PutUint32 [simp]: "length (PutUint32 v) = 4"
  by (simp add: PutUint32_def)

lemma length_PutUint64 [simp]: "length (PutUint64 v) = 8"
  by (simp add: PutUint64_def)

lemma Uint32_PutUint32 [simp]: "Uint32 (PutUint32 v @ bs) = v"
  by (simp add: Uint32_def PutUint32_def be_word_be_bytes take_bit_word_eq_self)

lemma Uint64_PutUint64 [simp]: "Uint64 (PutUint64 v @ bs) = v"
  by (simp add: Uint64_def PutUint64_def be_word_be_bytes take_bit_word_eq_self)

text \<open>Decimal numerals.\<close>

lemma nat_dec_neq_Nil [simp]: "nat_dec n \<noteq> []"
  by (subst nat_dec.simps) simp

lemma is_digit_char [simp]: "(n::nat) < 10 \<Longrightarrow> is_digit (char_of (48 + n))"
  by (simp add: is_digit_def)

lemma digit_val_char [simp]: "(n::nat) < 10 \<Longrightarrow> digit_val (char_of (48 + n)) = n"
  by (simp add: digit_val_def)

lemma all_digits_nat_dec [simp]: "list_all is_digit (nat_dec n)"
proof (induction n rule: nat_dec.induct)
  case (1 n)
  then show ?case
    by (cases "n < 10") (simp_all add: nat_dec.simps [of n])
qed

lemma dec_val_snoc: "dec_val (s @ [c]) = 10 * dec_val s + digit_val c"
  by (simp add: dec_val_def)

lemma dec_val_nat_dec [simp]: "dec_val (nat_dec n) = n"
proof (induction n rule: nat_dec.induct)
  case (1 n)
  show ?case
  proof (cases "n < 10")
    case True
    then show ?thesis by (simp add: nat_dec.simps [of n] dec_val_def)
  next
    case False
    with 1 show ?thesis by (simp add: nat_dec.simps [of n] dec_val_snoc)
  qed
qed

lemma ParseUint_nat_dec [simp]: "ParseUint (nat_dec n) = Some n"
  by (simp add: ParseUint_def)

lemma digit_not_sign: "is_digit c \<Longrightarrow> c \<noteq> CHR ''-'' \<and> c \<noteq> CHR ''+''"
  by (auto simp: is_digit_def)

lemma hd_nat_dec: "is_digit (hd (nat_dec n))"
  using all_digits_nat_dec [of n] by (cases "nat_dec n") auto

lemma ParseInt_fmt_d [simp]: "int64_range x \<Longrightarrow> ParseInt (fmt_d x) = Some x"
proof (cases "x < 0")
  case True
  moreover assume "int64_range x"
  ultimately show ?thesis
    by (simp add: ParseInt_def fmt_d_def)
next
  case False
  moreover assume "int64_range x"
  moreover obtain c cs where c: "nat_dec (nat x) = c # cs"
    by (cases "nat_dec (nat x)") auto
  moreover have "c \<noteq> CHR ''-'' \<and> c \<noteq> CHR ''+''"
    using hd_nat_dec [of "nat x"] c digit_not_sign by simp
  moreover have "ParseUint (c # cs) = Some (nat x)"
    using ParseUint_nat_dec [of "nat x"] c by simp
  ultimately show ?thesis
    by (simp add: ParseInt_def fmt_d_def)
qed

lemma fmt_d_inject: "fmt_d x = fmt_d y \<Longrightarrow> x = y"
proof -
  have *: "hd (nat_dec n) \<noteq> CHR ''-''" for n
    using hd_nat_dec [of n] by (auto dest: digit_not_sign)
  have **: "nat_dec m = nat_dec n \<Longrightarrow> m = n" for m n
    by (metis dec_val_nat_dec)
  assume "fmt_d x = fmt_d y"
  then show ?thesis
    using * [of "nat x"] * [of "nat y"]
    by (auto simp: fmt_d_def split: if_splits dest!: ** dest: arg_cong [where f = hd])
qed

text \<open>Sorted keys of a finite map.\<close>

lemma map_get_fmupd [simp]: "map_get d (fmupd k v m) k' = (if k = k' then v else map_get d m k')"
  by (simp add: map_get_def)

lemma map_get_fmempty [simp]: "map_get d fmempty k = d"
  by (simp add: map_get_def)

lemma map_get_Some: "fmlookup m k = Some v \<Longrightarrow> map_get d m k = v"
  by (simp add: map_get_def)

lemma map_get_None: "fmlookup m k = None \<Longrightarrow> map_get d m k = d"
  by (simp add: map_get_def)

lemma set_sorted_keys [simp]: "set (sorted_keys m) = fmdom' m"
  by (simp add: sorted_keys_def)

lemma sorted_sorted_keys [simp]: "sorted (sorted_keys m)"
  by (simp add: sorted_keys_def)

lemma distinct_sorted_keys [simp]: "distinct (sorted_keys m)"
  by (simp add: sorted_keys_def)

lemma sorted_keys_empty [simp]: "sorted_keys fmempty = []"
  by (simp add: sorted_keys_def)

lemma sorted_keys_fmupd:
  "sorted_keys (fmupd k v m) = (if k \<in> fmdom' m then sorted_keys m else insort k (sorted_keys m))"
  by (simp add: sorted_keys_def insert_absorb sorted_list_of_set_insert del: sorted_list_of_set_insert_remove)

lemma sorted_keys_snoc:
  assumes "\<And>k'. k' \<in> fmdom' m \<Longrightarrow> k' < k"
  shows "sorted_keys (fmupd k v m) = sorted_keys m @ [k]"
proof -
  from assms have "k \<notin> fmdom' m" by blast
  moreover have "sorted (sorted_keys m @ [k])"
    using assms by (auto simp: sorted_append less_imp_le)
  ultimately show ?thesis
    using sorted_insort_is_snoc [of "sorted_keys m" k] assms
    by (auto simp: sorted_keys_fmupd less_imp_le)
qed

lemma length_sorted_keys: "length (sorted_keys m) = card (fmdom' m)"
  by (simp add: sorted_keys_def)

lemma sorted_le_last: "sorted xs \<Longrightarrow> x \<in> set xs \<Longrightarrow> x \<le> last xs"
  by (induction xs) auto

lemma fmempty_iff: "m = fmempty \<longleftrightarrow> fmdom' m = {}"
  by (metis fmdom'_empty fmrestrict_set_dom fmrestrict_set_null)

lemma drop_take_cong:
  assumes "take n xs = take n ys" "i + k \<le> n"
  shows "take k (drop i xs) = take k (drop i ys)"
proof -
  have "take k (drop i zs) = drop i (take (i + k) zs)" for zs :: "'a list"
    by (simp add: drop_take)
  moreover have "take (i + k) xs = take (i + k) ys"
    using assms by (metis min.absorb1 take_take)
  ultimately show ?thesis by simp
qed

end
