(* ===== verification/Go_Time.thy ===== *)
theory Go_Time
  imports Go_Prelude
begin

text \<open>
  The part of Go's \<^verbatim>\<open>time\<close> package the program uses.  An instant is the number of nanoseconds
  since the zero \<^verbatim>\<open>time.Time\<close> (January 1, year 1, 00:00:00 UTC); a duration is a number of
  nanoseconds.  \<open>time_MarshalText\<close> is the RFC 3339 text with nanoseconds that
  \<^verbatim>\<open>Time.MarshalJSON\<close> puts between quotes, \<open>time_UnmarshalText\<close> the strict parser behind
  \<^verbatim>\<open>Time.UnmarshalJSON\<close>.
\<close>

section \<open>Instants and the calendar\<close>

type_synonym time = int

definition ns_per_day :: int where "ns_per_day = 86400000000000"

definition time_IsZero :: "time \<Rightarrow> bool" where "time_IsZero t \<longleftrightarrow> t = 0"

definition UnixNano :: "time \<Rightarrow> int" where
  "UnixNano t = wrap64 (t - 62135596800000000000)"

definition is_leap :: "int \<Rightarrow> bool" where
  "is_leap y \<longleftrightarrow> y mod 4 = 0 \<and> (y mod 100 \<noteq> 0 \<or> y mod 400 = 0)"

definition days_before_year :: "int \<Rightarrow> int" where
  "days_before_year y = 365 * (y - 1) + (y - 1) div 4 - (y - 1) div 100 + (y - 1) div 400"

definition days_before_month :: "bool \<Rightarrow> int \<Rightarrow> int" where
  "days_before_month leap m =
     [0, 31, 59, 90, 120, 151, 181, 212, 243, 273, 304, 334] ! nat (m - 1) + (if leap \<and> 2 < m then 1 else 0)"

definition days_in_month :: "bool \<Rightarrow> int \<Rightarrow> int" where
  "days_in_month leap m =
     [31, 28, 31, 30, 31, 30, 31, 31, 30, 31, 30, 31] ! nat (m - 1) + (if leap \<and> m = 2 then 1 else 0)"

text \<open>Year and day of the year of a day number (day 0 is January 1, year 1).\<close>

definition year_yday :: "int \<Rightarrow> int \<times> int" where
  "year_yday d =
     (let n400 = d div 146097; d1 = d mod 146097;
          n100 = min 3 (d1 div 36524); d2 = d1 - 36524 * n100;
          n4 = d2 div 1461; d3 = d2 mod 1461;
          n1 = min 3 (d3 div 365)
      in (400 * n400 + 100 * n100 + 4 * n4 + n1 + 1, d3 - 365 * n1))"

definition month_of_yday :: "bool \<Rightarrow> int \<Rightarrow> int" where
  "month_of_yday leap yday = int (length (filter (\<lambda>m. days_before_month leap m \<le> yday) [1, 2, 3, 4, 5, 6, 7, 8, 9, 10, 11, 12]))"

definition civil_of_days :: "int \<Rightarrow> int \<times> int \<times> int" where
  "civil_of_days d =
     (let (y, yday) = year_yday d; m = month_of_yday (is_leap y) yday
      in (y, m, yday - days_before_month (is_leap y) m + 1))"

definition days_of_civil :: "int \<Rightarrow> int \<Rightarrow> int \<Rightarrow> int" where
  "days_of_civil y m d = days_before_year y + days_before_month (is_leap y) m + d - 1"

definition time_Year :: "time \<Rightarrow> int" where
  "time_Year t = fst (civil_of_days (t div ns_per_day))"

section \<open>RFC 3339 text\<close>

fun pad_dec :: "nat \<Rightarrow> int \<Rightarrow> string" where
  "pad_dec 0 n = []"
| "pad_dec (Suc w) n = pad_dec w (n div 10) @ [char_of (48 + nat (n mod 10))]"

definition strip_zeros :: "string \<Rightarrow> string" where
  "strip_zeros s = rev (dropWhile (\<lambda>c. c = CHR ''0'') (rev s))"

definition frac_text :: "int \<Rightarrow> string" where
  "frac_text ns = (let s = strip_zeros (pad_dec 9 ns) in if s = [] then [] else CHR ''.'' # s)"

definition time_MarshalText :: "time \<Rightarrow> string option" where
  "time_MarshalText t =
     (let (y, m, d) = civil_of_days (t div ns_per_day); r = t mod ns_per_day;
          sec = r div 1000000000
      in if y < 0 \<or> 9999 < y then None
         else Some (pad_dec 4 y @ ''-'' @ pad_dec 2 m @ ''-'' @ pad_dec 2 d @ ''T'' @
                pad_dec 2 (sec div 3600) @ '':'' @ pad_dec 2 (sec div 60 mod 60) @ '':'' @
                pad_dec 2 (sec mod 60) @ frac_text (r mod 1000000000) @ ''Z''))"

definition parse_field :: "string \<Rightarrow> int \<Rightarrow> int \<Rightarrow> int option" where
  "parse_field s lo hi =
     (case ParseUint s of None \<Rightarrow> None
      | Some n \<Rightarrow> if lo \<le> int n \<and> int n \<le> hi then Some (int n) else None)"

definition parse_frac :: "string \<Rightarrow> int \<times> string" where
  "parse_frac s =
     (case s of
        c # c1 # cs \<Rightarrow>
          if c = CHR ''.'' \<and> is_digit c1
          then (let ds = take 9 (takeWhile is_digit (c1 # cs))
                in (int (dec_val ds) * 10 ^ (9 - length ds), dropWhile is_digit (c1 # cs)))
          else (0, s)
      | _ \<Rightarrow> (0, s))"

definition parse_zone :: "string \<Rightarrow> int option" where
  "parse_zone s =
     (if s = ''Z'' then Some 0
      else if length s \<noteq> 6 then None
      else case (parse_field (take 2 (drop 1 s)) 0 23, parse_field (take 2 (drop 4 s)) 0 59) of
        (Some hr, Some mm) \<Rightarrow>
          if (s ! 0 = CHR ''-'' \<or> s ! 0 = CHR ''+'') \<and> s ! 3 = CHR '':''
          then Some ((if s ! 0 = CHR ''-'' then - 1 else 1) * (hr * 60 + mm) * 60) else None
      | _ \<Rightarrow> None)"

definition time_UnmarshalText :: "string \<Rightarrow> time option" where
  "time_UnmarshalText s =
     (if length s < 19 then None
      else case (parse_field (take 4 s) 0 9999, parse_field (take 2 (drop 5 s)) 1 12) of
        (Some y, Some m) \<Rightarrow>
          (case (parse_field (take 2 (drop 8 s)) 1 (days_in_month (is_leap y) m),
                 parse_field (take 2 (drop 11 s)) 0 23,
                 parse_field (take 2 (drop 14 s)) 0 59, parse_field (take 2 (drop 17 s)) 0 59) of
             (Some d, Some hh, Some mi, Some se) \<Rightarrow>
               if s ! 4 = CHR ''-'' \<and> s ! 7 = CHR ''-'' \<and> s ! 10 = CHR ''T'' \<and> s ! 13 = CHR '':'' \<and> s ! 16 = CHR '':''
               then (let (ns, z) = parse_frac (drop 19 s)
                     in case parse_zone z of None \<Rightarrow> None
                        | Some off \<Rightarrow>
                            Some (days_of_civil y m d * ns_per_day +
                              (hh * 3600 + mi * 60 + se - off) * 1000000000 + ns))
               else None
           | _ \<Rightarrow> None)
      | _ \<Rightarrow> None)"

section \<open>The calendar round trip\<close>

lemma year_yday_split:
  fixes d :: int
  obtains a b c e v where "year_yday d = (400 * a + 100 * b + 4 * c + e + 1, v)"
    and "d = 146097 * a + 36524 * b + 1461 * c + 365 * e + v"
    and "0 \<le> b" "b \<le> 3" "0 \<le> c" "c \<le> 24" "0 \<le> e" "e \<le> 3" "0 \<le> v"
    and "v < 365 \<or> v = 365 \<and> e = 3 \<and> (c = 24 \<longrightarrow> b = 3)"
proof -
  define a where "a = d div 146097"
  define d1 where "d1 = d mod 146097"
  define b where "b = min 3 (d1 div 36524)"
  define d2 where "d2 = d1 - 36524 * b"
  define c where "c = d2 div 1461"
  define d3 where "d3 = d2 mod 1461"
  define e where "e = min 3 (d3 div 365)"
  define v where "v = d3 - 365 * e"
  have d: "d = 146097 * a + d1" and d1: "0 \<le> d1" "d1 < 146097"
    by (simp_all add: a_def d1_def)
  have b: "0 \<le> b" "b \<le> 3" and d2: "0 \<le> d2" "d2 < 36525" "b < 3 \<longrightarrow> d2 < 36524"
    using d1 by (auto simp: b_def d2_def min_def)
  have c: "0 \<le> c" "c \<le> 24" "d2 = 1461 * c + d3" "0 \<le> d3" "d3 < 1461"
    using d2 by (auto simp: c_def d3_def)
  have e: "0 \<le> e" "e \<le> 3" and v: "0 \<le> v" "v < 366" "e < 3 \<longrightarrow> v < 365"
    using c by (auto simp: e_def v_def min_def)
  have "year_yday d = (400 * a + 100 * b + 4 * c + e + 1, v)"
    unfolding year_yday_def Let_def a_def b_def c_def e_def v_def d1_def d2_def d3_def by (rule refl)
  moreover have "v < 365 \<or> v = 365 \<and> e = 3 \<and> (c = 24 \<longrightarrow> b = 3)"
  proof (cases "v < 365")
    case False
    with v e have "v = 365" "e = 3" by auto
    moreover have "b = 3" if "c = 24"
    proof (rule ccontr)
      assume "b \<noteq> 3"
      with b d2 have "d2 < 36524" by linarith
      with that c(3) \<open>e = 3\<close> \<open>v = 365\<close> show False by (simp add: v_def)
    qed
    ultimately show ?thesis by simp
  qed simp
  ultimately show ?thesis
    using d b c e v d2_def v_def by (intro that [of a b c e v]) linarith+
qed

lemma year_yday_props:
  assumes "year_yday d = (y, v)"
  shows "days_before_year y + v = d" and "0 \<le> v" and "v < (if is_leap y then 366 else 365)"
proof -
  obtain a b c e u where yu: "year_yday d = (400 * a + 100 * b + 4 * c + e + 1, u)"
    and d: "d = 146097 * a + 36524 * b + 1461 * c + 365 * e + u"
    and bounds: "0 \<le> b" "b \<le> 3" "0 \<le> c" "c \<le> 24" "0 \<le> e" "e \<le> 3" "0 \<le> u"
    and u: "u < 365 \<or> u = 365 \<and> e = 3 \<and> (c = 24 \<longrightarrow> b = 3)"
    by (rule year_yday_split)
  from yu assms have y: "y = 400 * a + 100 * b + 4 * c + e + 1" and uv: "u = v"
    by simp_all
  note d = d [unfolded uv] and bounds = bounds [unfolded uv] and v = u [unfolded uv]
  have "(y - 1) div 4 = 100 * a + 25 * b + c"
    by (rule int_div_pos_eq [where r = e]) (use y bounds in simp_all)
  moreover have "(y - 1) div 100 = 4 * a + b"
    by (rule int_div_pos_eq [where r = "4 * c + e"]) (use y bounds in simp_all)
  moreover have "(y - 1) div 400 = a"
    by (rule int_div_pos_eq [where r = "100 * b + 4 * c + e"]) (use y bounds in simp_all)
  ultimately show "days_before_year y + v = d"
    using y d by (simp add: days_before_year_def)
  show "0 \<le> v" by (rule bounds)
  show "v < (if is_leap y then 366 else 365)"
  proof (cases "v = 365")
    case True
    with v have e: "e = 3" and c: "c = 24 \<longrightarrow> b = 3" by auto
    have "y = 4 * (100 * a + 25 * b + c + 1)"
      using y e by simp
    then have "y mod 4 = 0" by simp
    moreover have "y mod 100 = 4 * c + 4" if "c \<noteq> 24"
      using y e bounds that by (intro int_mod_pos_eq [where q = "4 * a + b"]) simp_all
    moreover have "y = 400 * (a + 1)" if "c = 24"
      using y e c that by simp
    ultimately have "is_leap y"
      using bounds by (cases "c = 24") (auto simp: is_leap_def)
    with True show ?thesis by simp
  qed (use v in auto)
qed

lemma month_of_yday_props:
  assumes "0 \<le> v" and "v < (if leap then 366 else 365)"
  shows "1 \<le> month_of_yday leap v" "month_of_yday leap v \<le> 12"
    and "days_before_month leap (month_of_yday leap v) \<le> v"
    and "v < days_before_month leap (month_of_yday leap v) + days_in_month leap (month_of_yday leap v)"
proof -
  let ?l = "if leap then 1 else (0::int)"
  from assms(2) have "v < 365 + ?l" by (simp split: if_splits)
  then consider "v < 31" | "31 \<le> v" "v < 59 + ?l" | "59 + ?l \<le> v" "v < 90 + ?l"
    | "90 + ?l \<le> v" "v < 120 + ?l" | "120 + ?l \<le> v" "v < 151 + ?l" | "151 + ?l \<le> v" "v < 181 + ?l"
    | "181 + ?l \<le> v" "v < 212 + ?l" | "212 + ?l \<le> v" "v < 243 + ?l" | "243 + ?l \<le> v" "v < 273 + ?l"
    | "273 + ?l \<le> v" "v < 304 + ?l" | "304 + ?l \<le> v" "v < 334 + ?l" | "334 + ?l \<le> v" "v < 365 + ?l"
    by (metis linorder_not_less)
  then have "1 \<le> month_of_yday leap v \<and> month_of_yday leap v \<le> 12 \<and>
    days_before_month leap (month_of_yday leap v) \<le> v \<and>
    v < days_before_month leap (month_of_yday leap v) + days_in_month leap (month_of_yday leap v)"
    using assms(1)
    by cases (cases leap; simp add: month_of_yday_def days_before_month_def days_in_month_def)+
  then show "1 \<le> month_of_yday leap v" "month_of_yday leap v \<le> 12"
    and "days_before_month leap (month_of_yday leap v) \<le> v"
    and "v < days_before_month leap (month_of_yday leap v) + days_in_month leap (month_of_yday leap v)"
    by auto
qed

lemma civil_of_days_props:
  assumes "civil_of_days n = (y, m, d)"
  shows "days_of_civil y m d = n" and "1 \<le> m" and "m \<le> 12" and "1 \<le> d"
    and "d \<le> days_in_month (is_leap y) m"
proof -
  obtain v where yv: "year_yday n = (y, v)" and m: "m = month_of_yday (is_leap y) v"
    and d: "d = v - days_before_month (is_leap y) m + 1"
    using assms by (auto simp: civil_of_days_def Let_def split: prod.splits)
  note yp = year_yday_props [OF yv]
  note mp = month_of_yday_props [OF yp(2,3), folded m]
  show "days_of_civil y m d = n" "1 \<le> m" "m \<le> 12" "1 \<le> d" "d \<le> days_in_month (is_leap y) m"
    using yp mp d by (simp_all add: days_of_civil_def)
qed

section \<open>The text round trip\<close>

lemma length_pad_dec [simp]: "length (pad_dec w n) = w"
  by (induction w arbitrary: n) simp_all

lemma all_digits_pad_dec [simp]: "list_all is_digit (pad_dec w n)"
  by (induction w arbitrary: n) (simp_all add: nat_less_iff)

lemma dec_val_pad_dec: "0 \<le> n \<Longrightarrow> int (dec_val (pad_dec w n)) = n mod 10 ^ w"
proof (induction w arbitrary: n)
  case 0
  then show ?case by (simp add: dec_val_def)
next
  case (Suc w)
  have "digit_val (char_of (48 + nat (n mod 10))) = nat (n mod 10)"
    by (simp add: nat_less_iff)
  then show ?case
    using Suc by (simp add: dec_val_snoc mod_mult2_eq' zmod_zmult2_eq)
qed

lemma pad_dec_neq_Nil [simp]: "0 < w \<Longrightarrow> pad_dec w n \<noteq> []"
  by (cases w) simp_all

lemma parse_field_pad_dec:
  assumes "0 \<le> n" "n < 10 ^ w" "0 < w" "lo \<le> n" "n \<le> hi"
  shows "parse_field (pad_dec w n) lo hi = Some n"
  using assms dec_val_pad_dec [of n w] by (simp add: parse_field_def ParseUint_def)

lemma dec_val_append: "dec_val (s @ t) = dec_val s * 10 ^ length t + dec_val t"
proof (induction t rule: rev_induct)
  case (snoc c t)
  then show ?case
    by (simp add: dec_val_snoc flip: append_assoc)
qed (simp add: dec_val_def)

lemma dec_val_zeros: "list_all (\<lambda>c. c = CHR ''0'') s \<Longrightarrow> dec_val s = 0"
  by (induction s rule: rev_induct) (simp_all add: dec_val_snoc digit_val_def dec_val_def)

lemma strip_zeros_split: "\<exists>z. s = strip_zeros s @ z \<and> list_all (\<lambda>c. c = CHR ''0'') z"
proof -
  let ?z = "rev (takeWhile (\<lambda>c. c = CHR ''0'') (rev s))"
  have "s = rev (takeWhile (\<lambda>c. c = CHR ''0'') (rev s) @ dropWhile (\<lambda>c. c = CHR ''0'') (rev s))"
    by simp
  then have "s = strip_zeros s @ ?z"
    by (simp only: strip_zeros_def rev_append)
  moreover have "list_all (\<lambda>c. c = CHR ''0'') ?z"
    by (auto simp: list_all_iff dest: set_takeWhileD)
  ultimately show ?thesis by blast
qed

lemma strip_zeros_val: "dec_val (strip_zeros s) * 10 ^ (length s - length (strip_zeros s)) = dec_val s"
proof -
  obtain z where z: "s = strip_zeros s @ z" "list_all (\<lambda>c. c = CHR ''0'') z"
    using strip_zeros_split by blast
  then have "dec_val s = dec_val (strip_zeros s) * 10 ^ length z + dec_val z"
    by (metis dec_val_append)
  moreover have "length s - length (strip_zeros s) = length z"
    using z(1) by (metis diff_add_inverse length_append)
  ultimately show ?thesis
    using z(2) by (simp add: dec_val_zeros)
qed

lemma strip_zeros_digits: "list_all is_digit s \<Longrightarrow> list_all is_digit (strip_zeros s)"
  using strip_zeros_split [of s] by (metis list_all_append)

lemma not_is_digit_Z [simp]: "\<not> is_digit (CHR ''Z'')"
  by (simp add: is_digit_def)

lemma parse_frac_text:
  assumes "0 \<le> ns" "ns < 1000000000"
  shows "parse_frac (frac_text ns @ ''Z'') = (ns, ''Z'')"
proof -
  define s where "s = strip_zeros (pad_dec 9 ns)"
  have len: "length s \<le> 9"
    using strip_zeros_split [of "pad_dec 9 ns"] by (metis length_pad_dec le_add1 length_append s_def)
  have val: "int (dec_val s) * 10 ^ (9 - length s) = ns"
    using strip_zeros_val [of "pad_dec 9 ns"] dec_val_pad_dec [of ns 9] assms
    by (simp flip: s_def) (metis of_nat_mult of_nat_numeral of_nat_power)
  have dig: "list_all is_digit s"
    by (simp add: s_def strip_zeros_digits)
  have ft: "frac_text ns = (if s = [] then [] else CHR ''.'' # s)"
    by (simp add: frac_text_def s_def Let_def)
  show ?thesis
  proof (cases s)
    case Nil
    with val have "ns = 0" by (simp add: dec_val_def)
    with Nil ft show ?thesis by (simp add: parse_frac_def)
  next
    case (Cons c cs)
    have tw: "takeWhile is_digit (cs @ ''Z'') = cs" and dw: "dropWhile is_digit (cs @ ''Z'') = ''Z''"
      using dig Cons by (simp_all add: takeWhile_append2 dropWhile_append2 list_all_iff)
    have "frac_text ns @ ''Z'' = CHR ''.'' # c # (cs @ ''Z'')"
      using Cons ft by simp
    moreover have "is_digit c" using dig Cons by simp
    ultimately show ?thesis
      using len val Cons by (simp add: parse_frac_def tw dw Let_def)
  qed
qed

lemma time_of_parts:
  fixes t :: int
  shows "t div ns_per_day * ns_per_day +
     (t mod ns_per_day div 1000000000 div 3600 * 3600 +
      t mod ns_per_day div 1000000000 div 60 mod 60 * 60 + t mod ns_per_day div 1000000000 mod 60) * 1000000000 +
     t mod ns_per_day mod 1000000000 = t"
proof -
  have hms: "x div 3600 * 3600 + x div 60 mod 60 * 60 + x mod 60 = x" for x :: int
  proof -
    have "x div 3600 = x div 60 div 60"
      using zdiv_zmult2_eq [of 60 x 60] by simp
    then show ?thesis
      using div_mult_mod_eq [of "x div 60" 60] div_mult_mod_eq [of x 60] by linarith
  qed
  have "t mod ns_per_day div 1000000000 * 1000000000 + t mod ns_per_day mod 1000000000 = t mod ns_per_day"
    by (rule div_mult_mod_eq)
  then show ?thesis
    using div_mult_mod_eq [of t ns_per_day] by (simp only: hms)
qed

theorem time_text_roundtrip:
  assumes "time_MarshalText t = Some s"
  shows "time_UnmarshalText s = Some t"
proof -
  obtain y m d where ymd: "civil_of_days (t div ns_per_day) = (y, m, d)"
    by (cases "civil_of_days (t div ns_per_day)") auto
  note cp = civil_of_days_props [OF ymd]
  define sec where "sec = t mod ns_per_day div 1000000000"
  define ns where "ns = t mod ns_per_day mod 1000000000"
  have ns: "0 \<le> ns" "ns < 1000000000"
    by (simp_all add: ns_def)
  have "0 \<le> t mod ns_per_day" "t mod ns_per_day < ns_per_day"
    by (simp_all add: ns_per_day_def)
  then have sec: "0 \<le> sec" "sec < 86400"
    by (simp_all add: sec_def ns_per_day_def)
  from assms ymd have y: "0 \<le> y" "y \<le> 9999"
    and s: "s = pad_dec 4 y @ ''-'' @ pad_dec 2 m @ ''-'' @ pad_dec 2 d @ ''T'' @
                pad_dec 2 (sec div 3600) @ '':'' @ pad_dec 2 (sec div 60 mod 60) @ '':'' @
                pad_dec 2 (sec mod 60) @ frac_text ns @ ''Z''"
    by (auto simp: time_MarshalText_def Let_def sec_def ns_def split: if_splits)
  have dim: "days_in_month (is_leap y) m \<le> 99"
    using cp(2,3) by (auto simp: days_in_month_def nth_Cons' nat_less_iff)
  have hh: "0 \<le> sec div 3600" "sec div 3600 \<le> 23"
    using sec by linarith+
  have "parse_field (pad_dec 4 y) 0 9999 = Some y"
    by (rule parse_field_pad_dec) (use y in simp_all)
  moreover have "parse_field (pad_dec 2 m) 1 12 = Some m"
    by (rule parse_field_pad_dec) (use cp(2,3) in simp_all)
  moreover have "parse_field (pad_dec 2 d) 1 (days_in_month (is_leap y) m) = Some d"
    by (rule parse_field_pad_dec) (use cp(4,5) dim in simp_all)
  moreover have "parse_field (pad_dec 2 (sec div 3600)) 0 23 = Some (sec div 3600)"
    by (rule parse_field_pad_dec) (use hh in linarith, use hh in simp, simp, use hh in linarith, use hh in linarith)
  moreover have "parse_field (pad_dec 2 (x mod 60)) 0 59 = Some (x mod 60)" for x
    by (rule parse_field_pad_dec) (use pos_mod_bound [of 60 x] in simp_all)
  moreover have "parse_zone ''Z'' = Some 0"
    by (simp add: parse_zone_def)
  ultimately have "time_UnmarshalText s = Some (days_of_civil y m d * ns_per_day +
      (sec div 3600 * 3600 + sec div 60 mod 60 * 60 + sec mod 60) * 1000000000 + ns)"
    by (simp add: time_UnmarshalText_def s parse_frac_text ns nth_append)
  then show ?thesis
    by (simp only: cp(1) sec_def ns_def time_of_parts)
qed

end
