(* ===== verification/Go_Os.thy ===== *)
theory Go_Os
  imports Go_Time
begin

text \<open>
  The operating-system calls of the program.  The file system is a finite map from cleaned paths to
  contents.  Whether a call succeeds is the environment's choice: \<open>env_fault\<close> answers every call
  with its arguments, so a statement for all environments covers every pattern of failures, partial
  writes included.  Directories are not stored: a call that needs a missing directory is one the
  environment fails.  \<open>env_clock i\<close> is what the \<open>i\<close>-th call site of \<^verbatim>\<open>time.Now()\<close> in one operation reads.
\<close>

section \<open>Paths\<close>

fun split_char :: "char \<Rightarrow> string \<Rightarrow> string list" where
  "split_char c [] = [[]]"
| "split_char c (x # xs) = (if x = c then [] # split_char c xs
     else case split_char c xs of [] \<Rightarrow> [[x]] | y # ys \<Rightarrow> (x # y) # ys)"

fun join_char :: "char \<Rightarrow> string list \<Rightarrow> string" where
  "join_char c [] = []"
| "join_char c [s] = s"
| "join_char c (s # ss) = s @ c # join_char c ss"

text \<open>One component pushed on the (reversed) stack of components kept so far.\<close>

definition clean_push :: "bool \<Rightarrow> string \<Rightarrow> string list \<Rightarrow> string list" where
  "clean_push rooted part st =
     (if part = [] \<or> part = ''.'' then st
      else if part = ''..'' then
        (case st of
           [] \<Rightarrow> if rooted then [] else [''..'']
         | t # ts \<Rightarrow> if t = ''..'' then ''..'' # st else ts)
      else part # st)"

definition filepath_Clean :: "string \<Rightarrow> string" where
  "filepath_Clean p =
     (let rooted = (take 1 p = ''/'');
          body = join_char (CHR ''/'') (rev (fold (clean_push rooted) (split_char (CHR ''/'') p) []))
      in if rooted then CHR ''/'' # body else if body = [] then ''.'' else body)"

definition filepath_Join :: "string list \<Rightarrow> string" where
  "filepath_Join es =
     (let es' = dropWhile (\<lambda>e. e = []) es
      in if es' = [] then [] else filepath_Clean (join_char (CHR ''/'') es'))"

section \<open>Calls and faults\<close>

datatype os_call =
    Os_MkdirAll string
  | Os_OpenFile string
  | Os_Open string
  | Os_Stat string
  | Os_ReadFile string
  | Os_WriteFile string bytes
  | Os_ReadAt string int int
  | Os_WriteAt string int bytes
  | Os_Append string bytes
  | Os_ReadDir string
  | Os_Rename string string
  | Os_Remove string
  | Os_Truncate string int
  | Mem_Alloc int

datatype fault = Works | FailsBefore | FailsAfter nat

record env =
  env_fault :: "os_call \<Rightarrow> fault"
  env_clock :: "nat \<Rightarrow> time"

type_synonym fs = "(string, bytes) fmap"

datatype os_error = NotExist | IOFault os_call | EOF

definition os_ok :: "env \<Rightarrow> os_call \<Rightarrow> bool" where
  "os_ok e c \<longleftrightarrow> env_fault e c = Works"

definition write_at :: "bytes \<Rightarrow> nat \<Rightarrow> bytes \<Rightarrow> bytes" where
  "write_at data pos b =
     take pos data @ replicate (pos - length data) (CHR 0x00) @ b @ drop (pos + length b) data"

definition os_WriteFile :: "env \<Rightarrow> string \<Rightarrow> bytes \<Rightarrow> fs \<Rightarrow> os_error option \<times> fs" where
  "os_WriteFile e p b fs =
     (case env_fault e (Os_WriteFile p b) of
        Works \<Rightarrow> (None, fmupd p b fs)
      | FailsBefore \<Rightarrow> (Some (IOFault (Os_WriteFile p b)), fs)
      | FailsAfter n \<Rightarrow> (Some (IOFault (Os_WriteFile p b)), fmupd p (take n b) fs))"

definition os_ReadFile :: "env \<Rightarrow> string \<Rightarrow> fs \<Rightarrow> os_error + bytes" where
  "os_ReadFile e p fs =
     (if \<not> os_ok e (Os_ReadFile p) then Inl (IOFault (Os_ReadFile p))
      else case fmlookup fs p of None \<Rightarrow> Inl NotExist | Some b \<Rightarrow> Inr b)"

text \<open>Opening with \<^verbatim>\<open>O_CREATE|O_RDWR\<close>: an absent file becomes an empty one.\<close>

definition os_OpenCreate :: "env \<Rightarrow> string \<Rightarrow> fs \<Rightarrow> os_error option \<times> fs" where
  "os_OpenCreate e p fs =
     (if \<not> os_ok e (Os_OpenFile p) then (Some (IOFault (Os_OpenFile p)), fs)
      else (None, if fmlookup fs p = None then fmupd p [] fs else fs))"

definition os_WriteAt :: "env \<Rightarrow> string \<Rightarrow> int \<Rightarrow> bytes \<Rightarrow> fs \<Rightarrow> os_error option \<times> fs" where
  "os_WriteAt e p pos b fs =
     (let c = Os_WriteAt p pos b; put = (\<lambda>x. fmupd p (write_at (map_get [] fs p) (nat pos) x) fs)
      in if pos < 0 then (Some (IOFault c), fs)
         else case env_fault e c of
            Works \<Rightarrow> (None, put b)
          | FailsBefore \<Rightarrow> (Some (IOFault c), fs)
          | FailsAfter n \<Rightarrow> (Some (IOFault c), put (take n b)))"

text \<open>
  Opening with \<^verbatim>\<open>O_TRUNC\<close>, one \<^verbatim>\<open>Write\<close> at the end of an open file, copying a reader (its contents, and
  whether it ends without an error), renaming and removing.
\<close>

definition os_OpenTrunc :: "env \<Rightarrow> string \<Rightarrow> fs \<Rightarrow> os_error option \<times> fs" where
  "os_OpenTrunc e p fs =
     (if \<not> os_ok e (Os_OpenFile p) then (Some (IOFault (Os_OpenFile p)), fs) else (None, fmupd p [] fs))"

definition os_Append :: "env \<Rightarrow> string \<Rightarrow> bytes \<Rightarrow> fs \<Rightarrow> os_error option \<times> fs" where
  "os_Append e p b fs =
     (let c = Os_Append p b; put = (\<lambda>x. fmupd p (map_get [] fs p @ x) fs)
      in case env_fault e c of
           Works \<Rightarrow> (None, put b)
         | FailsBefore \<Rightarrow> (Some (IOFault c), fs)
         | FailsAfter n \<Rightarrow> (Some (IOFault c), put (take n b)))"

type_synonym reader = "bytes \<times> bool"

definition os_Open :: "env \<Rightarrow> string \<Rightarrow> fs \<Rightarrow> os_error + reader" where
  "os_Open e p fs =
     (if \<not> os_ok e (Os_Open p) then Inl (IOFault (Os_Open p))
      else case fmlookup fs p of
             None \<Rightarrow> Inl NotExist
           | Some b \<Rightarrow> Inr (case env_fault e (Os_ReadFile p) of
                 Works \<Rightarrow> (b, True) | FailsBefore \<Rightarrow> ([], False) | FailsAfter n \<Rightarrow> (take n b, False)))"

definition io_Copy :: "env \<Rightarrow> string \<Rightarrow> reader \<Rightarrow> fs \<Rightarrow> os_error option \<times> fs" where
  "io_Copy e p r fs =
     (case os_Append e p (fst r) fs of
        (Some err, fs1) \<Rightarrow> (Some err, fs1)
      | (None, fs1) \<Rightarrow> (if snd r then None else Some EOF, fs1))"

definition os_Rename :: "env \<Rightarrow> string \<Rightarrow> string \<Rightarrow> fs \<Rightarrow> os_error option \<times> fs" where
  "os_Rename e p q fs =
     (if \<not> os_ok e (Os_Rename p q) then (Some (IOFault (Os_Rename p q)), fs)
      else case fmlookup fs p of
             None \<Rightarrow> (Some NotExist, fs)
           | Some b \<Rightarrow> (None, fmupd q b (fmdrop p fs)))"

definition os_Remove :: "env \<Rightarrow> string \<Rightarrow> fs \<Rightarrow> os_error option \<times> fs" where
  "os_Remove e p fs =
     (if \<not> os_ok e (Os_Remove p) then (Some (IOFault (Os_Remove p)), fs)
      else if fmlookup fs p = None then (Some NotExist, fs) else (None, fmdrop p fs))"

text \<open>The prefix of the paths of a directory's files.\<close>

definition dir_prefix :: "string \<Rightarrow> string" where
  "dir_prefix p =
     (let rooted = (take 1 p = ''/''); st = rev (fold (clean_push rooted) (split_char (CHR ''/'') p) [])
      in (if rooted then ''/'' else []) @ (if st = [] then [] else join_char (CHR ''/'') st @ ''/''))"

text \<open>\<^verbatim>\<open>os.ReadDir\<close>: the names of the files directly in a directory, in ascending order.\<close>

definition dir_names :: "string \<Rightarrow> fs \<Rightarrow> string list" where
  "dir_names d fs =
     map (drop (length (dir_prefix d)))
       (filter (\<lambda>p. take (length (dir_prefix d)) p = dir_prefix d \<and>
           drop (length (dir_prefix d)) p \<noteq> [] \<and> CHR ''/'' \<notin> set (drop (length (dir_prefix d)) p))
         (sorted_keys fs))"

definition os_ReadDir :: "env \<Rightarrow> string \<Rightarrow> fs \<Rightarrow> os_error + string list" where
  "os_ReadDir e d fs =
     (if os_ok e (Os_ReadDir d) then Inr (dir_names d fs) else Inl (IOFault (Os_ReadDir d)))"

definition os_ReadAt :: "env \<Rightarrow> string \<Rightarrow> int \<Rightarrow> int \<Rightarrow> fs \<Rightarrow> os_error + bytes" where
  "os_ReadAt e p pos n fs =
     (let data = map_get [] fs p
      in if pos < 0 \<or> \<not> os_ok e (Os_ReadAt p pos n) then Inl (IOFault (Os_ReadAt p pos n))
         else if n \<le> 0 then Inr []
         else if pos + n \<le> int (length data) then Inr (take (nat n) (drop (nat pos) data))
         else Inl EOF)"

text \<open>An environment in which no call fails.\<close>

definition quiet :: "env \<Rightarrow> bool" where
  "quiet e \<longleftrightarrow> (\<forall>c. env_fault e c = Works)"

definition calm_env :: env where
  "calm_env = \<lparr> env_fault = (\<lambda>_. Works), env_clock = (\<lambda>_. 0) \<rparr>"

lemma quiet_calm_env [simp]: "quiet calm_env"
  by (simp add: quiet_def calm_env_def)

text \<open>
  Go's \<^verbatim>\<open>error\<close> values: a message, a message with its format string and arguments kept apart, an
  operating-system error, a failure of \<^verbatim>\<open>encoding/json\<close>, \<^verbatim>\<open>fmt.Errorf("context: %w", err)\<close>; and a panic.
\<close>

datatype go_error =
    Err string
  | ErrFmt string "string list"
  | ErrOs os_error
  | ErrJson
  | ErrWrap string go_error
  | ErrPanic string

section \<open>Writing and reading back\<close>

lemma length_write_at: "length (write_at data pos b) = max (length data) (pos + length b)"
  by (auto simp: write_at_def max_def)

lemma take_write_at: "k \<le> pos \<Longrightarrow> k \<le> length data \<Longrightarrow> take k (write_at data pos b) = take k data"
  by (simp add: write_at_def min_def)

lemma read_write_at: "take (length b) (drop pos (write_at data pos b)) = b"
  by (simp add: write_at_def)

lemma region_write_at:
  assumes "i + n \<le> pos" "i + n \<le> length data"
  shows "take n (drop i (write_at data pos b)) = take n (drop i data)"
proof -
  have "take n (drop i x) = drop i (take (i + n) x)" for x :: bytes
    by (simp add: drop_take)
  then show ?thesis
    using take_write_at [OF assms] by simp
qed

lemma write_at_Nil [simp]: "pos \<le> length data \<Longrightarrow> write_at data pos [] = data"
  by (simp add: write_at_def)

lemma os_ok_quiet [simp]: "quiet e \<Longrightarrow> os_ok e c"
  by (simp add: quiet_def os_ok_def)

section \<open>Joining a directory and a plain name\<close>

text \<open>A plain name has no separator and is not one of the special components.\<close>

definition plain_name :: "string \<Rightarrow> bool" where
  "plain_name n \<longleftrightarrow> CHR ''/'' \<notin> set n \<and> n \<noteq> [] \<and> n \<noteq> ''.'' \<and> n \<noteq> ''..''"

lemma split_char_plain: "c \<notin> set n \<Longrightarrow> split_char c n = [n]"
  by (induction n) auto

lemma split_char_neq_Nil [simp]: "split_char c s \<noteq> []"
  by (induction s) (auto split: list.splits)

lemma split_char_append: "split_char c (p @ c # n) = split_char c p @ split_char c n"
  by (induction p) (auto split: list.splits)

lemma join_char_snoc: "join_char c (xs @ [n]) = (if xs = [] then n else join_char c xs @ c # n)"
  by (induction xs rule: join_char.induct) auto

lemma clean_push_plain: "plain_name n \<Longrightarrow> clean_push r n st = n # st"
  by (auto simp: clean_push_def plain_name_def)

lemma env_fault_quiet [simp]: "quiet e \<Longrightarrow> env_fault e c = Works"
  by (simp add: quiet_def)

lemma split_join_char:
  "xs \<noteq> [] \<Longrightarrow> \<forall>x \<in> set xs. c \<notin> set x \<Longrightarrow> split_char c (join_char c xs) = xs"
  by (induction c xs rule: join_char.induct) (simp_all add: split_char_plain split_char_append)

lemma filepath_Join_plains:
  assumes "list_all plain_name ns" "ns \<noteq> []"
  shows "filepath_Join (p # ns) = dir_prefix p @ join_char (CHR ''/'') ns"
proof -
  obtain n ms where ns: "ns = n # ms" using assms(2) by (cases ns) auto
  have ne: "n \<noteq> []" "CHR ''/'' \<notin> set n" using assms(1) by (auto simp: ns plain_name_def)
  have sp: "split_char (CHR ''/'') (join_char (CHR ''/'') ns) = ns"
    using assms by (intro split_join_char) (auto simp: list_all_iff plain_name_def)
  have fold: "fold (clean_push r) ns st = rev ns @ st" for r st
    using assms(1) by (induction ns arbitrary: st) (simp_all add: clean_push_plain)
  have join: "join_char (CHR ''/'') (xs @ ns) = (if xs = [] then [] else join_char (CHR ''/'') xs @ ''/'') @ join_char (CHR ''/'') ns" for xs
    by (induction "CHR ''/''" xs rule: join_char.induct) (auto simp: ns)
  have hd: "join_char (CHR ''/'') ns \<noteq> []" "take 1 (join_char (CHR ''/'') ns) \<noteq> ''/''"
    using ne by (cases ms; cases n; auto simp: ns)+
  show ?thesis
  proof (cases "p = []")
    case True
    then have "filepath_Join (p # ns) = filepath_Clean (join_char (CHR ''/'') ns)"
      using ne by (simp add: filepath_Join_def ns)
    then show ?thesis
      using hd True by (simp add: filepath_Clean_def sp fold dir_prefix_def clean_push_def)
  next
    case False
    then have "filepath_Join (p # ns) = filepath_Clean (p @ CHR ''/'' # join_char (CHR ''/'') ns)"
      by (simp add: filepath_Join_def ns)
    moreover have "take (Suc 0) (p @ z) = take (Suc 0) p" for z
      using False by (cases p) auto
    ultimately show ?thesis
      by (simp add: filepath_Clean_def split_char_append sp fold join dir_prefix_def Let_def hd del: take_append)
  qed
qed

lemma filepath_Join_plain: "plain_name n \<Longrightarrow> filepath_Join [p, n] = dir_prefix p @ n"
  using filepath_Join_plains [of "[n]"] by simp

lemma filepath_Join_inject:
  "plain_name m \<Longrightarrow> plain_name n \<Longrightarrow> filepath_Join [p, m] = filepath_Join [p, n] \<longleftrightarrow> m = n"
  by (simp add: filepath_Join_plain)

fun clean_stack :: "bool \<Rightarrow> string list \<Rightarrow> bool" where
  "clean_stack r [] \<longleftrightarrow> True"
| "clean_stack r (x # xs) \<longleftrightarrow>
     (plain_name x \<or> x = ''..'' \<and> \<not> r \<and> list_all (\<lambda>y. y = ''..'') xs) \<and> clean_stack r xs"

lemma clean_stack_push: "CHR ''/'' \<notin> set x \<Longrightarrow> clean_stack r st \<Longrightarrow> clean_stack r (clean_push r x st)"
  by (cases st) (auto simp: clean_push_def plain_name_def)

lemma split_char_parts: "x \<in> set (split_char c s) \<Longrightarrow> c \<notin> set x"
  by (induction s arbitrary: x) (auto split: list.splits if_splits)

lemma clean_stack_fold:
  "clean_stack r st \<Longrightarrow> \<forall>x \<in> set xs. CHR ''/'' \<notin> set x \<Longrightarrow> clean_stack r (fold (clean_push r) xs st)"
  by (induction xs arbitrary: st) (simp_all add: clean_stack_push)

lemma clean_stack_repush: "clean_stack r st \<Longrightarrow> fold (clean_push r) (rev st) [] = st"
proof (induction st)
  case (Cons x xs)
  then have "fold (clean_push r) (rev (x # xs)) [] = clean_push r x xs" by simp
  also have "\<dots> = x # xs"
  proof (cases "plain_name x")
    case False
    with Cons.prems show ?thesis by (cases xs) (auto simp: clean_push_def)
  qed (rule clean_push_plain)
  finally show ?case .
qed simp

lemma clean_stack_parts: "clean_stack r st \<Longrightarrow> x \<in> set st \<Longrightarrow> CHR ''/'' \<notin> set x \<and> x \<noteq> []"
  by (induction st) (auto simp: plain_name_def)

lemma dir_prefix_snoc:
  assumes n: "plain_name n"
  shows "dir_prefix (dir_prefix p @ n) = dir_prefix p @ n @ ''/''"
proof -
  define r where "r = (take 1 p = ''/'')"
  define st where "st = fold (clean_push r) (split_char (CHR ''/'') p) []"
  have clean: "clean_stack r st"
    unfolding st_def by (rule clean_stack_fold) (auto dest: split_char_parts)
  then have clean': "clean_stack r (n # st)" using n by simp
  define body where "body = join_char (CHR ''/'') (rev (n # st))"
  have parts: "\<forall>x \<in> set (rev (n # st)). CHR ''/'' \<notin> set x \<and> x \<noteq> []"
    using clean_stack_parts [OF clean'] by auto
  then have split: "split_char (CHR ''/'') body = rev (n # st)"
    unfolding body_def by (intro split_join_char) auto
  have path: "dir_prefix p @ n = (if r then ''/'' else []) @ body"
    by (simp add: dir_prefix_def r_def st_def body_def join_char_snoc Let_def)
  obtain y ys where y: "rev (n # st) = y # ys" by (cases "rev (n # st)") auto
  have "take 1 body \<noteq> ''/''" "body \<noteq> []"
    using parts y by (cases ys; cases y; auto simp: body_def)+
  then have "take 1 (dir_prefix p @ n) = ''/'' \<longleftrightarrow> r" by (simp add: path)
  moreover have "fold (clean_push r) (split_char (CHR ''/'') (dir_prefix p @ n)) [] = n # st"
    using clean_stack_repush [OF clean'] by (cases r) (simp_all add: path split clean_push_def [of True "[]"])
  ultimately show ?thesis
    by (simp add: dir_prefix_def [of "dir_prefix p @ n"]) (simp add: path body_def)
qed

section \<open>Directory listings\<close>

definition dir_files :: "string \<Rightarrow> fs \<Rightarrow> string set" where
  "dir_files d fs = {n. n \<noteq> [] \<and> CHR ''/'' \<notin> set n \<and> dir_prefix d @ n \<in> fmdom' fs}"

lemma append_le_iff: "(p :: string) @ x \<le> p @ y \<longleftrightarrow> x \<le> y"
  by (induction p) simp_all

lemma set_dir_names: "set (dir_names d fs) = dir_files d fs"
proof -
  let ?p = "dir_prefix d"
  have "n \<in> set (dir_names d fs) \<longleftrightarrow> n \<in> dir_files d fs" for n
    by (auto simp: dir_names_def dir_files_def image_iff intro!: bexI [where x = "?p @ n"])
      (metis append_take_drop_id)
  then show ?thesis by blast
qed

lemma dir_names_sorted: "sorted (dir_names d fs) \<and> distinct (dir_names d fs)"
proof -
  let ?p = "dir_prefix d"
  define xs where "xs = filter (\<lambda>p. take (length ?p) p = ?p \<and>
      drop (length ?p) p \<noteq> [] \<and> CHR ''/'' \<notin> set (drop (length ?p) p)) (sorted_keys fs)"
  have pre: "\<forall>x \<in> set xs. x = ?p @ drop (length ?p) x"
    by (simp add: xs_def) (metis append_take_drop_id)
  have "sorted xs" "distinct xs" by (simp_all add: xs_def sorted_wrt_filter)
  then have "sorted (map (drop (length ?p)) xs) \<and> distinct (map (drop (length ?p)) xs)"
    using pre
  proof (induction xs)
    case (Cons x xs)
    have "drop (length ?p) x \<le> drop (length ?p) y" "drop (length ?p) x \<noteq> drop (length ?p) y" if "y \<in> set xs" for y
      using that Cons.prems by (metis append_le_iff list.set_intros sorted_simps(2) distinct.simps(2))+
    with Cons show ?case by auto
  qed simp
  then show ?thesis by (simp add: dir_names_def xs_def)
qed

lemma finite_dir_files [simp]: "finite (dir_files d fs)"
  by (simp flip: set_dir_names)

lemma dir_names_eq: "dir_names d fs = sorted_list_of_set (dir_files d fs)"
  using dir_names_sorted by (metis set_dir_names sorted_list_of_set.idem_if_sorted_distinct)

lemma dir_files_fmupd:
  "plain_name n \<Longrightarrow> dir_files d (fmupd (dir_prefix d @ n) b fs) = insert n (dir_files d fs)"
  by (auto simp: dir_files_def plain_name_def)

lemma dir_files_fmdrop: "dir_files d (fmdrop (dir_prefix d @ n) fs) = dir_files d fs - {n}"
  by (auto simp: dir_files_def)

lemma os_ReadDir_quiet [simp]: "quiet e \<Longrightarrow> os_ReadDir e d fs = Inr (dir_names d fs)"
  by (simp add: os_ReadDir_def)

end
