(* ===== verification/Go_Strings.thy ===== *)
theory Go_Strings
  imports Go_Os "HOL-Library.Sublist"
begin

text \<open>
  The functions of Go's \<^verbatim>\<open>strings\<close> package the components call, on byte strings.  White space is Unicode white
  space, given by its UTF-8 encodings; since each begins with a byte that starts a rune, looking for one of
  them byte by byte finds the same places as decoding runes, in text that is not valid UTF-8 too.
\<close>

definition space_runes :: "string list" where
  "space_runes =
     map (\<lambda>c. [c]) [CHR 0x09, CHR 0x0A, CHR 0x0B, CHR 0x0C, CHR 0x0D, CHR 0x20] @
     [[CHR 0xC2, CHR 0x85], [CHR 0xC2, CHR 0xA0], [CHR 0xE1, CHR 0x9A, CHR 0x80]] @
     map (\<lambda>c. [CHR 0xE2, CHR 0x80, c])
       [CHR 0x80, CHR 0x81, CHR 0x82, CHR 0x83, CHR 0x84, CHR 0x85, CHR 0x86,
        CHR 0x87, CHR 0x88, CHR 0x89, CHR 0x8A, CHR 0xA8, CHR 0xA9, CHR 0xAF] @
     [[CHR 0xE2, CHR 0x81, CHR 0x9F], [CHR 0xE3, CHR 0x80, CHR 0x80]]"

text \<open>The first member of a list of words a text begins with, as the number of its bytes.\<close>

definition word_len :: "string list \<Rightarrow> string \<Rightarrow> nat" where
  "word_len ws s = (case find (\<lambda>w. w \<noteq> [] \<and> take (length w) s = w) ws of None \<Rightarrow> 0 | Some w \<Rightarrow> length w)"

lemma word_len_le: "word_len ws s \<le> length s"
proof (cases "find (\<lambda>w. w \<noteq> [] \<and> take (length w) s = w) ws")
  case (Some w)
  then have "take (length w) s = w" by (auto simp: find_Some_iff)
  then have "length w \<le> length s" by (metis length_take min.cobounded1)
  with Some show ?thesis by (simp add: word_len_def)
qed (simp add: word_len_def)

function strip_words :: "string list \<Rightarrow> string \<Rightarrow> string" where
  "strip_words ws s = (if word_len ws s = 0 then s else strip_words ws (drop (word_len ws s) s))"
  by pat_completeness auto
termination
proof (relation "measure (\<lambda>(ws, s). length s)", simp)
  fix ws s
  assume "word_len ws s \<noteq> 0"
  with word_len_le [of ws s] show "((ws, drop (word_len ws s) s), ws, s) \<in> measure (\<lambda>(ws, s). length s)" by simp
qed

declare strip_words.simps [simp del]

definition TrimLeftSpace :: "string \<Rightarrow> string" where
  "TrimLeftSpace s = strip_words space_runes s"

definition TrimRightSpace :: "string \<Rightarrow> string" where
  "TrimRightSpace s = rev (strip_words (map rev space_runes) (rev s))"

definition TrimSpace :: "string \<Rightarrow> string" where
  "TrimSpace s = TrimRightSpace (TrimLeftSpace s)"

text \<open>\<^verbatim>\<open>strings.Fields\<close>: the maximal stretches without white space; \<open>acc\<close> holds the current one, reversed.\<close>

definition push_field :: "string \<Rightarrow> string list \<Rightarrow> string list" where
  "push_field acc fs = (if acc = [] then fs else rev acc # fs)"

function fields_loop :: "string \<Rightarrow> string \<Rightarrow> string list" where
  "fields_loop acc s =
     (if s = [] then push_field acc []
      else if word_len space_runes s = 0 then fields_loop (hd s # acc) (tl s)
      else push_field acc (fields_loop [] (drop (word_len space_runes s) s)))"
  by pat_completeness auto
termination
proof (relation "measure (\<lambda>(acc, s). length s)", simp)
  fix acc s :: string
  assume s: "s \<noteq> []"
  then show "((hd s # acc, tl s), acc, s) \<in> measure (\<lambda>(acc, s). length s)" by simp
  assume "word_len space_runes s \<noteq> 0"
  with s show "(([], drop (word_len space_runes s) s), acc, s) \<in> measure (\<lambda>(acc, s). length s)" by simp
qed

declare fields_loop.simps [simp del]

definition Fields :: "string \<Rightarrow> string list" where
  "Fields s = fields_loop [] s"

text \<open>\<^verbatim>\<open>strings.Trim\<close> and \<^verbatim>\<open>TrimRight\<close> with a set of ASCII characters.\<close>

definition TrimRight :: "char list \<Rightarrow> string \<Rightarrow> string" where
  "TrimRight cs s = rev (dropWhile (\<lambda>c. c \<in> set cs) (rev s))"

definition Trim :: "char list \<Rightarrow> string \<Rightarrow> string" where
  "Trim cs s = TrimRight cs (dropWhile (\<lambda>c. c \<in> set cs) s)"

definition HasPrefix :: "string \<Rightarrow> string \<Rightarrow> bool" where
  "HasPrefix s p \<longleftrightarrow> take (length p) s = p"

fun Contains :: "string \<Rightarrow> string \<Rightarrow> bool" where
  "Contains [] p \<longleftrightarrow> p = []"
| "Contains (c # s) p \<longleftrightarrow> HasPrefix (c # s) p \<or> Contains s p"

text \<open>
  \<^verbatim>\<open>strings.ToLower\<close> as far as a search for ASCII text can see it: the runes whose lower case is an ASCII letter
  are the letters A to Z, the Kelvin sign and the capital I with a dot.  Every other rune stays outside ASCII,
  and its bytes are left alone here.
\<close>

definition lower_char :: "char \<Rightarrow> char" where
  "lower_char c = (if 65 \<le> (of_char c :: nat) \<and> (of_char c :: nat) \<le> 90 then char_of (of_char c + (32::nat)) else c)"

function ToLower :: "string \<Rightarrow> string" where
  "ToLower [] = []"
| "ToLower (c # s) =
     (if take 2 (c # s) = [CHR 0xC4, CHR 0xB0] then CHR ''i'' # ToLower (drop 1 s)
      else if take 3 (c # s) = [CHR 0xE2, CHR 0x84, CHR 0xAA] then CHR ''k'' # ToLower (drop 2 s)
      else lower_char c # ToLower s)"
  by pat_completeness auto
termination by (relation "measure length") auto

section \<open>Trimming\<close>

lemma strip_words_suffix: "suffix (strip_words ws s) s"
  by (induction ws s rule: strip_words.induct)
    (metis (no_types, lifting) strip_words.simps suffix_drop suffix_order.trans suffix_order.refl)

lemma strip_words_stuck: "word_len ws (strip_words ws s) = 0"
  by (induction ws s rule: strip_words.induct) (simp add: strip_words.simps)

lemma strip_words_id: "word_len ws s = 0 \<Longrightarrow> strip_words ws s = s"
  by (simp add: strip_words.simps)

lemma strip_words_idem [simp]: "strip_words ws (strip_words ws s) = strip_words ws s"
  by (rule strip_words_id [OF strip_words_stuck])

lemma word_len_zero_iff: "word_len ws s = 0 \<longleftrightarrow> (\<forall>w \<in> set ws. w = [] \<or> take (length w) s \<noteq> w)"
proof (cases "find (\<lambda>w. w \<noteq> [] \<and> take (length w) s = w) ws")
  case None
  then have "word_len ws s = 0" by (simp add: word_len_def)
  with None show ?thesis by (auto simp: find_None_iff)
next
  case (Some w)
  then have "w \<in> set ws" "w \<noteq> []" "take (length w) s = w" by (auto simp: find_Some_iff)
  with Some show ?thesis by (auto simp: word_len_def)
qed

lemma TrimRightSpace_prefix: "prefix (TrimRightSpace s) s"
  using strip_words_suffix [of "map rev space_runes" "rev s"] by (simp add: TrimRightSpace_def suffix_to_prefix)

text \<open>Cutting at the end leaves a text that begins without white space that way.\<close>

lemma word_len_prefix: "prefix t s \<Longrightarrow> word_len ws s = 0 \<Longrightarrow> word_len ws t = 0"
  by (auto simp: word_len_zero_iff prefix_def)

lemma TrimSpace_idem [simp]: "TrimSpace (TrimSpace s) = TrimSpace s"
proof -
  have "word_len space_runes (TrimSpace s) = 0"
    unfolding TrimSpace_def TrimLeftSpace_def by (rule word_len_prefix [OF TrimRightSpace_prefix strip_words_stuck])
  then have "TrimLeftSpace (TrimSpace s) = TrimSpace s" by (simp add: TrimLeftSpace_def strip_words_id)
  then show ?thesis by (simp add: TrimSpace_def TrimRightSpace_def)
qed

section \<open>Words of visible ASCII characters\<close>

definition visible :: "char \<Rightarrow> bool" where
  "visible c \<longleftrightarrow> 32 < (of_char c :: nat) \<and> (of_char c :: nat) < 127"

lemma space_ends: "list_all (\<lambda>w. w \<noteq> [] \<and> \<not> visible (hd w) \<and> \<not> visible (last w)) space_runes"
  by code_simp

lemma word_len_head: "list_all (\<lambda>w. \<not> visible (hd w)) ws \<Longrightarrow> visible c \<Longrightarrow> word_len ws (c # s) = 0"
  by (auto simp: word_len_zero_iff list_all_iff) (metis hd_take list.sel(1) length_greater_0_conv)

lemma word_len_visible:
  assumes "visible c"
  shows "word_len space_runes (c # s) = 0" "word_len (map rev space_runes) (c # s) = 0"
  using space_ends by (auto intro!: word_len_head [OF _ assms] simp: list_all_iff hd_rev)

lemma word_len_space: "word_len space_runes (CHR '' '' # s) = 1"
proof -
  have "find (\<lambda>w. w \<noteq> [] \<and> take (length w) (CHR '' '' # s) = w) space_runes = Some '' ''" by (simp add: space_runes_def)
  then show ?thesis by (simp add: word_len_def)
qed

lemma TrimLeft_space: "TrimLeftSpace (CHR '' '' # s) = TrimLeftSpace s"
  by (simp add: TrimLeftSpace_def strip_words.simps [of space_runes "CHR '' '' # s"] word_len_space)

definition trimmed :: "string \<Rightarrow> bool" where
  "trimmed w \<longleftrightarrow> w \<noteq> [] \<and> visible (hd w) \<and> visible (last w)"

lemma TrimSpace_trimmed: "trimmed w \<Longrightarrow> TrimSpace w = w" "trimmed w \<Longrightarrow> TrimSpace (CHR '' '' # w) = w"
proof -
  assume "trimmed w"
  then have "w = hd w # tl w" "rev w = last w # rev (butlast w)" "visible (hd w)" "visible (last w)"
    by (auto simp: trimmed_def)
  then have "TrimLeftSpace w = w" "TrimRightSpace w = w"
    by (metis TrimLeftSpace_def TrimRightSpace_def rev_rev_ident strip_words_id word_len_visible)+
  then show "TrimSpace w = w" "TrimSpace (CHR '' '' # w) = w"
    by (simp_all add: TrimSpace_def TrimLeft_space)
qed

definition word :: "string \<Rightarrow> bool" where
  "word w \<longleftrightarrow> w \<noteq> [] \<and> list_all visible w"

lemma word_trimmed: "word w \<Longrightarrow> trimmed w"
  by (auto simp: word_def trimmed_def list_all_iff)

lemma fields_loop_word: "list_all visible w \<Longrightarrow> fields_loop acc (w @ s) = fields_loop (rev w @ acc) s"
  by (induction w arbitrary: acc) (simp_all add: fields_loop.simps [of _ "_ # _"] word_len_visible)

lemma fields_loop_space: "fields_loop acc (CHR '' '' # s) = push_field acc (fields_loop [] s)"
  by (simp add: fields_loop.simps [of acc "CHR '' '' # s"] word_len_space)

lemma fields_loop_Nil: "fields_loop acc [] = push_field acc []"
  by (simp add: fields_loop.simps)

lemma Fields_three:
  assumes "word a" "word b" "word c"
  shows "Fields (a @ '' '' @ b @ '' '' @ c) = [a, b, c]"
  using assms fields_loop_word [of c "[]" "[]"]
  by (simp add: Fields_def fields_loop_word fields_loop_space fields_loop_Nil push_field_def word_def)

end
