(* ===== verification/Go_Float.thy ===== *)
theory Go_Float
  imports Go_Prelude
begin

text \<open>
  Go's \<^verbatim>\<open>float64\<close> as far as the aggregations use it: IEEE 754 double precision with rounding to nearest, ties to
  even.  A finite number is a sign, a significand below \<open>2 ^ 53\<close> and an exponent; every operation computes the exact
  result as a fraction and rounds it once.  The main fact is that sums of integers within \<open>2 ^ 53\<close> are exact.
\<close>

datatype float64 = F_NaN | F_Inf bool | F_Fin bool nat int

fun bitlen :: "nat \<Rightarrow> nat" where
  "bitlen n = (if n = 0 then 0 else Suc (bitlen (n div 2)))"

declare bitlen.simps [simp del]

text \<open>The fraction \<open>n / d\<close> times a power of two, as a fraction.\<close>

definition shift_frac :: "nat \<Rightarrow> nat \<Rightarrow> int \<Rightarrow> nat \<times> nat" where
  "shift_frac n d e = (if e \<ge> 0 then (n * 2 ^ nat e, d) else (n, d * 2 ^ nat (- e)))"

definition floor_log2 :: "nat \<Rightarrow> nat \<Rightarrow> int" where
  "floor_log2 n d =
     (let k = int (bitlen n) - int (bitlen d); (a, b) = shift_frac n d (- k) in if a \<ge> b then k else k - 1)"

definition f_zero :: "bool \<Rightarrow> float64" where
  "f_zero s = F_Fin s 0 (- 1074)"

definition round_quot :: "nat \<Rightarrow> nat \<Rightarrow> nat" where
  "round_quot a b =
     (let q = a div b; r = a mod b in if 2 * r > b \<or> 2 * r = b \<and> odd q then q + 1 else q)"

definition f_round :: "bool \<Rightarrow> nat \<Rightarrow> nat \<Rightarrow> float64" where
  "f_round s n d =
     (if n = 0 then f_zero s
      else
        (let e = max (- 1074) (floor_log2 n d - 52); (a, b) = shift_frac n d (- e); q = round_quot a b;
             (m, e') = (if q = 2 ^ 53 then (2 ^ 52, e + 1) else (q, e))
         in if e' > 971 then F_Inf s else F_Fin s m e'))"

definition f_of_int :: "int \<Rightarrow> float64" where
  "f_of_int k = f_round (k < 0) (nat \<bar>k\<bar>) 1"

definition f_signed :: "bool \<Rightarrow> nat \<Rightarrow> int" where
  "f_signed s m = (if s then - int m else int m)"

fun f_add :: "float64 \<Rightarrow> float64 \<Rightarrow> float64" where
  "f_add (F_Fin s1 m1 e1) (F_Fin s2 m2 e2) =
     (let e = min e1 e2; t = f_signed s1 m1 * 2 ^ nat (e1 - e) + f_signed s2 m2 * 2 ^ nat (e2 - e)
      in if t = 0 then f_zero (s1 \<and> s2)
         else case shift_frac (nat \<bar>t\<bar>) 1 e of (n, d) \<Rightarrow> f_round (t < 0) n d)"
| "f_add (F_Inf s1) (F_Inf s2) = (if s1 = s2 then F_Inf s1 else F_NaN)"
| "f_add (F_Inf s) (F_Fin _ _ _) = F_Inf s"
| "f_add (F_Fin _ _ _) (F_Inf s) = F_Inf s"
| "f_add F_NaN _ = F_NaN"
| "f_add _ F_NaN = F_NaN"

fun f_div :: "float64 \<Rightarrow> float64 \<Rightarrow> float64" where
  "f_div (F_Fin s1 m1 e1) (F_Fin s2 m2 e2) =
     (if m2 = 0 then (if m1 = 0 then F_NaN else F_Inf (s1 \<noteq> s2))
      else case shift_frac m1 m2 (e1 - e2) of (n, d) \<Rightarrow> f_round (s1 \<noteq> s2) n d)"
| "f_div (F_Inf s1) (F_Fin s2 _ _) = F_Inf (s1 \<noteq> s2)"
| "f_div (F_Fin s1 _ _) (F_Inf s2) = f_zero (s1 \<noteq> s2)"
| "f_div (F_Inf _) (F_Inf _) = F_NaN"
| "f_div F_NaN _ = F_NaN"
| "f_div _ F_NaN = F_NaN"

text \<open>Comparison by \<^verbatim>\<open>==\<close>: a NaN differs from everything, the two zeros are equal.\<close>

definition f_eq :: "float64 \<Rightarrow> float64 \<Rightarrow> bool" where
  "f_eq x y \<longleftrightarrow> x \<noteq> F_NaN \<and> y \<noteq> F_NaN \<and>
     (x = y \<or> (case (x, y) of (F_Fin _ 0 _, F_Fin _ 0 _) \<Rightarrow> True | _ \<Rightarrow> False))"

section \<open>Shortest decimal text\<close>

text \<open>
  \<^verbatim>\<open>%v\<close> prints the shortest digits that read back as the same number.  With \<open>k\<close> digits there are two candidates,
  the decimals just below and above; the nearer one of those that read back is taken.  The decimal point is
  placed after the first \<open>dp\<close> digits; exponents below -4 or from 6 on use the exponent form.
\<close>

fun dec_exp :: "nat \<Rightarrow> nat \<Rightarrow> int \<Rightarrow> nat \<Rightarrow> int" where
  "dec_exp n d k 0 = k"
| "dec_exp n d k (Suc fuel) =
     (if n \<ge> 10 * d then dec_exp n (10 * d) (k + 1) fuel
      else if n < d then dec_exp (10 * n) d (k - 1) fuel else k)"

definition ten_frac :: "nat \<Rightarrow> int \<Rightarrow> nat \<times> nat" where
  "ten_frac n e = (if e \<ge> 0 then (n * 10 ^ nat e, 1) else (n, 10 ^ nat (- e)))"

definition digits_try :: "float64 \<Rightarrow> nat \<Rightarrow> nat \<Rightarrow> int \<Rightarrow> nat \<Rightarrow> (nat \<times> int) option" where
  "digits_try x n d x10 k =
     (let sc = x10 - int k + 1;
          (a, b) = (if sc \<ge> 0 then (n, d * 10 ^ nat sc) else (n * 10 ^ nat (- sc), d));
          lo = a div b; r = a mod b;
          ok = (\<lambda>c. (case ten_frac c sc of (p, q) \<Rightarrow> f_round False p q) = x)
      in if r = 0 then (if ok lo then Some (lo, sc) else None)
         else if ok lo \<and> ok (lo + 1) then Some (if 2 * r < b \<or> 2 * r = b \<and> even lo then lo else lo + 1, sc)
         else if ok lo then Some (lo, sc) else if ok (lo + 1) then Some (lo + 1, sc) else None)"

fun shortest_digits :: "float64 \<Rightarrow> nat \<Rightarrow> nat \<Rightarrow> int \<Rightarrow> nat \<Rightarrow> nat \<Rightarrow> nat \<times> int" where
  "shortest_digits x n d x10 k 0 = (0, 0)"
| "shortest_digits x n d x10 k (Suc fuel) =
     (case digits_try x n d x10 k of Some r \<Rightarrow> r | None \<Rightarrow> shortest_digits x n d x10 (Suc k) fuel)"

definition strip_dec_zeros :: "string \<Rightarrow> string" where
  "strip_dec_zeros s = rev (dropWhile (\<lambda>c. c = CHR ''0'') (rev s))"

definition exp_text :: "int \<Rightarrow> string" where
  "exp_text e =
     (let t = nat_dec (nat \<bar>e\<bar>) in (if e < 0 then ''e-'' else ''e+'') @ (if length t < 2 then ''0'' else []) @ t)"

definition fmt_float :: "float64 \<Rightarrow> string" where
  "fmt_float x =
     (case x of
        F_NaN \<Rightarrow> ''NaN''
      | F_Inf s \<Rightarrow> (if s then ''-Inf'' else ''+Inf'')
      | F_Fin s m e \<Rightarrow>
          (if s then ''-'' else []) @
          (if m = 0 then ''0''
           else
             (let (n, d) = shift_frac m 1 e; x10 = dec_exp n d 0 700;
                  (c, sc) = shortest_digits (F_Fin False m e) n d x10 1 17;
                  ds = strip_dec_zeros (nat_dec c); dp = int (length (nat_dec c)) + sc; ex = dp - 1
              in if ex < - 4 \<or> ex \<ge> 6 then
                   take 1 ds @ (if length ds > 1 then ''.'' @ drop 1 ds else []) @ exp_text ex
                 else if dp \<le> 0 then ''0.'' @ replicate (nat (- dp)) (CHR ''0'') @ ds
                 else if int (length ds) \<le> dp then ds @ replicate (nat dp - length ds) (CHR ''0'')
                 else take (nat dp) ds @ ''.'' @ drop (nat dp) ds)))"

section \<open>Integers are exact\<close>

lemma bitlen_bounds: "0 < n \<Longrightarrow> 2 ^ (bitlen n - 1) \<le> n \<and> n < 2 ^ bitlen n \<and> 0 < bitlen n"
proof (induction n rule: bitlen.induct)
  case (1 n)
  show ?case
  proof (cases "n div 2 = 0")
    case True
    with "1.prems" have "n = 1" by auto
    then show ?thesis by (simp add: bitlen.simps [of "Suc 0"] bitlen.simps [of 0])
  next
    case False
    with "1.IH" "1.prems" have IH: "2 ^ (bitlen (n div 2) - 1) \<le> n div 2" "n div 2 < 2 ^ bitlen (n div 2)" "0 < bitlen (n div 2)"
      by auto
    obtain j where j: "bitlen (n div 2) = Suc j" using IH(3) by (cases "bitlen (n div 2)") auto
    have "bitlen n = Suc (Suc j)" using "1.prems" by (subst bitlen.simps) (simp add: j)
    with IH j show ?thesis by auto
  qed
qed

lemma bitlen_unique: "2 ^ k \<le> n \<Longrightarrow> n < 2 ^ Suc k \<Longrightarrow> bitlen n = Suc k"
proof -
  assume *: "2 ^ k \<le> n" "n < 2 ^ Suc k"
  then have "0 < n" by (metis gr0I le_zero_eq power_eq_0_iff zero_neq_numeral)
  note b = bitlen_bounds [OF this]
  have "(2 :: nat) ^ k < 2 ^ bitlen n" "(2 :: nat) ^ (bitlen n - 1) < 2 ^ Suc k" using * b by linarith+
  then have "k < bitlen n" "bitlen n - 1 < Suc k" by (simp_all only: power_strict_increasing_iff one_less_numeral_iff semiring_norm)
  then show ?thesis by auto
qed

lemma bitlen_shift: "0 < n \<Longrightarrow> bitlen (n * 2 ^ j) = bitlen n + j"
proof -
  assume "0 < n"
  note b = bitlen_bounds [OF this]
  obtain k where k: "bitlen n = Suc k" using b by (cases "bitlen n") auto
  have "2 ^ (k + j) \<le> n * 2 ^ j" "n * 2 ^ j < 2 ^ Suc (k + j)"
    using b by (auto simp: k power_add)
  from bitlen_unique [OF this] show ?thesis by (simp add: k)
qed

lemma bitlen_one: "bitlen (2 ^ j) = Suc j"
  by (rule bitlen_unique) auto

text \<open>Rounding sees the value of the fraction only: scaling both parts by a power of two changes nothing.\<close>

lemma shift_frac_scale: "shift_frac (n * 2 ^ j) (d * 2 ^ j) e = (fst (shift_frac n d e) * 2 ^ j, snd (shift_frac n d e) * 2 ^ j)"
  by (simp add: shift_frac_def)

lemma round_quot_scale: "round_quot (a * 2 ^ j) (b * 2 ^ j) = round_quot a b"
proof -
  have mod: "a * 2 ^ j mod (b * 2 ^ j) = a mod b * 2 ^ j" by (simp add: mult_mod_left)
  have "2 * (r * 2 ^ j) > b * 2 ^ j \<longleftrightarrow> 2 * r > b" "2 * (r * 2 ^ j) = b * 2 ^ j \<longleftrightarrow> 2 * r = b" for r
    by (simp_all flip: mult.assoc)
  then show ?thesis unfolding round_quot_def mod Let_def by simp
qed

lemma f_round_scale:
  assumes "0 < d"
  shows "f_round s (n * 2 ^ j) (d * 2 ^ j) = f_round s n d"
proof (cases "n = 0")
  case False
  have log: "floor_log2 (n * 2 ^ j) (d * 2 ^ j) = floor_log2 n d"
    using False assms by (simp add: floor_log2_def bitlen_shift shift_frac_scale case_prod_beta Let_def)
  show ?thesis
    using False unfolding f_round_def log shift_frac_scale by (simp add: round_quot_scale case_prod_beta Let_def max_def)
qed (simp add: f_round_def)

lemma floor_log2_one: "0 < n \<Longrightarrow> floor_log2 n 1 = int (bitlen n) - 1"
proof -
  assume "0 < n"
  note b = bitlen_bounds [OF this]
  obtain l where l: "bitlen n = Suc l" using b by (cases "bitlen n") auto
  have one: "bitlen (Suc 0) = Suc 0" using bitlen_one [of 0] by simp
  have "2 ^ l \<le> n" using b l by simp
  then show ?thesis by (cases "l = 0") (auto simp: floor_log2_def one l shift_frac_def Let_def)
qed

lemma f_of_int_exact:
  assumes "0 < \<bar>k\<bar>" "\<bar>k\<bar> < 2 ^ 53"
  obtains j where "f_of_int k = F_Fin (k < 0) (nat \<bar>k\<bar> * 2 ^ j) (- int j)"
proof -
  let ?n = "nat \<bar>k\<bar>"
  have n: "0 < ?n" using assms(1) by simp
  note b = bitlen_bounds [OF n]
  have "?n < 2 ^ 53" using assms(2) by (metis (mono_tags) abs_ge_zero nat_less_iff of_nat_numeral of_nat_power)
  then have "2 ^ (bitlen ?n - 1) < (2 :: nat) ^ 53" using b by linarith
  then have "bitlen ?n - 1 < 53" by (simp only: power_strict_increasing_iff one_less_numeral_iff semiring_norm)
  then have le: "bitlen ?n \<le> 53" by simp
  define j where "j = 53 - bitlen ?n"
  note log = floor_log2_one [OF n]
  have e: "max (- 1074) (floor_log2 ?n 1 - 52) = - int j" using le unfolding log j_def by (simp add: of_nat_diff)
  have "?n * 2 ^ j < 2 ^ bitlen ?n * 2 ^ j" using b by simp
  also have "\<dots> = 2 ^ 53" using le by (simp add: j_def flip: power_add)
  finally have "?n * 2 ^ j \<noteq> 2 ^ 53" by simp
  then have "f_round (k < 0) ?n 1 = F_Fin (k < 0) (?n * 2 ^ j) (- int j)"
    using n unfolding f_round_def e by (simp add: shift_frac_def round_quot_def)
  then show ?thesis using that by (simp add: f_of_int_def)
qed

lemma f_of_int_zero: "f_of_int 0 = f_zero False"
  by (simp add: f_of_int_def f_round_def)

lemma f_of_int_rep:
  assumes "\<bar>k\<bar> < 2 ^ 53"
  obtains s m e where "f_of_int k = F_Fin s m e" "e \<le> 0" "f_signed s m = k * 2 ^ nat (- e)" "s \<longleftrightarrow> k < 0"
proof (cases "k = 0")
  case True
  then show ?thesis using that [of False 0 "- 1074"] by (simp add: f_of_int_zero f_zero_def f_signed_def)
next
  case False
  then obtain j where "f_of_int k = F_Fin (k < 0) (nat \<bar>k\<bar> * 2 ^ j) (- int j)"
    using f_of_int_exact [of k] assms by auto
  then show ?thesis using that [of "k < 0"] by (auto simp: f_signed_def)
qed

lemma f_add_of_int:
  assumes "\<bar>a\<bar> < 2 ^ 53" "\<bar>b\<bar> < 2 ^ 53"
  shows "f_add (f_of_int a) (f_of_int b) = f_of_int (a + b)"
proof -
  obtain s1 m1 e1 where 1: "f_of_int a = F_Fin s1 m1 e1" "e1 \<le> 0" "f_signed s1 m1 = a * 2 ^ nat (- e1)" "s1 \<longleftrightarrow> a < 0"
    using f_of_int_rep [OF assms(1)] .
  obtain s2 m2 e2 where 2: "f_of_int b = F_Fin s2 m2 e2" "e2 \<le> 0" "f_signed s2 m2 = b * 2 ^ nat (- e2)" "s2 \<longleftrightarrow> b < 0"
    using f_of_int_rep [OF assms(2)] .
  define e where "e = min e1 e2"
  define j where "j = nat (- e)"
  have e: "e \<le> 0" "e = - int j" using 1(2) 2(2) by (auto simp: e_def j_def)
  have p: "(2 :: int) ^ nat (- e1) * 2 ^ nat (e1 - e) = 2 ^ j" "(2 :: int) ^ nat (- e2) * 2 ^ nat (e2 - e) = 2 ^ j"
    using 1(2) 2(2) by (simp_all add: j_def e_def min_def flip: power_add nat_add_distrib)
  have t: "f_signed s1 m1 * 2 ^ nat (e1 - e) + f_signed s2 m2 * 2 ^ nat (e2 - e) = (a + b) * 2 ^ j"
    unfolding 1(3) 2(3) by (simp add: mult.assoc p distrib_right)
  show ?thesis
  proof (cases "a + b = 0")
    case True
    then have sgn: "(s1 \<and> s2) = False" using 1(4) 2(4) by auto
    show ?thesis
      unfolding 1(1) 2(1) f_add.simps e_def [symmetric] Let_def t sgn using True by (simp add: f_of_int_zero)
  next
    case False
    have abs: "nat \<bar>(a + b) * 2 ^ j\<bar> = nat \<bar>a + b\<bar> * 2 ^ j" by (simp add: abs_mult nat_mult_distrib)
    have sh: "shift_frac (nat \<bar>a + b\<bar> * 2 ^ j) 1 e = (nat \<bar>a + b\<bar> * 2 ^ j, 1 * 2 ^ j)"
      by (auto simp: shift_frac_def e(2))
    have neg: "(a + b) * 2 ^ j < 0 \<longleftrightarrow> a + b < 0" by (simp add: mult_less_0_iff)
    have "f_add (f_of_int a) (f_of_int b) = f_round (a + b < 0) (nat \<bar>a + b\<bar> * 2 ^ j) (1 * 2 ^ j)"
      unfolding 1(1) 2(1) f_add.simps e_def [symmetric] Let_def t abs sh neg prod.case using False by simp
    then show ?thesis by (simp only: f_round_scale f_of_int_def)
  qed
qed

end
