(* ===== verification/Go_Json.thy ===== *)
theory Go_Json
  imports Go_Prelude
begin

text \<open>
  The part of Go's \<^verbatim>\<open>encoding/json\<close>, \<^verbatim>\<open>encoding/base64\<close> and \<^verbatim>\<open>unicode/utf8\<close> the program uses.
  A JSON document is the datatype \<open>json\<close>, in which strings and numbers keep their source text (the
  raw bytes between the quotes, the number literal), because Go's decoder hands that text to the
  destination's own unmarshaller.  \<open>json_text\<close> is the compact form \<^verbatim>\<open>json.Marshal\<close> writes;
  \<open>json_parse\<close> accepts what the scanner of \<^verbatim>\<open>json.Unmarshal\<close> accepts, white space and a nesting
  depth of at most 10000 included.  The recursive-descent functions carry fuel:
  \<open>2 * length s + 2\<close> is enough for every input \<open>s\<close> (\<open>parse_value_enough\<close>).
\<close>

section \<open>UTF-8\<close>

abbreviation ord :: "char \<Rightarrow> nat" where "ord c \<equiv> of_char c"

definition in_range :: "nat \<Rightarrow> nat \<Rightarrow> char \<Rightarrow> bool" where
  "in_range lo hi c \<longleftrightarrow> lo \<le> ord c \<and> ord c \<le> hi"

abbreviation cont :: "char \<Rightarrow> bool" where "cont \<equiv> in_range 128 191"

text \<open>The width of the well-formed rune at the head of a string, 0 if there is none.\<close>

fun utf8_width :: "string \<Rightarrow> nat" where
  "utf8_width [] = 0"
| "utf8_width (a # s) =
     (if ord a < 128 then 1
      else case s of [] \<Rightarrow> 0
      | b # s1 \<Rightarrow>
         if in_range 194 223 a then (if cont b then 2 else 0)
         else case s1 of [] \<Rightarrow> 0
         | c # s2 \<Rightarrow>
            if in_range 224 239 a
            then (if (if ord a = 224 then in_range 160 191 b else if ord a = 237 then in_range 128 159 b else cont b)
                     \<and> cont c then 3 else 0)
            else case s2 of [] \<Rightarrow> 0
            | d # _ \<Rightarrow>
               if in_range 240 244 a
               then (if (if ord a = 240 then in_range 144 191 b else if ord a = 244 then in_range 128 143 b else cont b)
                        \<and> cont c \<and> cont d then 4 else 0)
               else 0)"

declare utf8_width.simps [simp del]

function valid_utf8 :: "string \<Rightarrow> bool" where
  "valid_utf8 s =
     (if s = [] then True else if utf8_width s = 0 then False else valid_utf8 (drop (utf8_width s) s))"
  by pat_completeness auto
termination by (relation "measure length") auto

declare valid_utf8.simps [simp del]

definition encode_rune :: "nat \<Rightarrow> string" where
  "encode_rune r =
     (if r < 128 then [char_of r]
      else if r < 2048 then [char_of (192 + r div 64), char_of (128 + r mod 64)]
      else if r > 1114111 \<or> (55296 \<le> r \<and> r \<le> 57343) then [char_of (239::nat), char_of (191::nat), char_of (189::nat)]
      else if r < 65536 then [char_of (224 + r div 4096), char_of (128 + r div 64 mod 64), char_of (128 + r mod 64)]
      else [char_of (240 + r div 262144), char_of (128 + r div 4096 mod 64),
            char_of (128 + r div 64 mod 64), char_of (128 + r mod 64)])"

section \<open>String literals\<close>

definition hex_char :: "nat \<Rightarrow> char" where
  "hex_char n = (if n < 10 then char_of (48 + n) else char_of (87 + n))"

definition hex_val :: "char \<Rightarrow> nat option" where
  "hex_val c =
     (if in_range 48 57 c then Some (ord c - 48)
      else if in_range 97 102 c then Some (ord c - 87)
      else if in_range 65 70 c then Some (ord c - 55) else None)"

definition hex4 :: "string \<Rightarrow> nat option" where
  "hex4 s = (case s of
      a # b # c # d # _ \<Rightarrow>
        (case (hex_val a, hex_val b, hex_val c, hex_val d) of
           (Some w, Some x, Some y, Some z) \<Rightarrow> Some (4096 * w + 256 * x + 16 * y + z)
         | _ \<Rightarrow> None)
    | _ \<Rightarrow> None)"

text \<open>
  \<open>json_escape\<close> is the body of a string as the encoder writes it with HTML escaping on;
  \<open>json_unquote\<close> the decoder's \<^verbatim>\<open>unquote\<close> on the text between the quotes.
\<close>

definition escape_ascii :: "char \<Rightarrow> string" where
  "escape_ascii c =
     (if c = CHR 0x22 \<or> c = CHR 0x5C then [CHR 0x5C, c]
      else if c = CHR 0x08 then [CHR 0x5C, CHR ''b'']
      else if c = CHR 0x0C then [CHR 0x5C, CHR ''f'']
      else if c = CHR 0x0A then [CHR 0x5C, CHR ''n'']
      else if c = CHR 0x0D then [CHR 0x5C, CHR ''r'']
      else if c = CHR 0x09 then [CHR 0x5C, CHR ''t'']
      else if ord c < 32 \<or> c = CHR ''<'' \<or> c = CHR ''>'' \<or> c = CHR ''&''
      then [CHR 0x5C, CHR ''u'', CHR ''0'', CHR ''0'', hex_char (ord c div 16), hex_char (ord c mod 16)]
      else [c])"

definition line_separators :: "string list" where
  "line_separators = [[CHR 0xE2, CHR 0x80, CHR 0xA8], [CHR 0xE2, CHR 0x80, CHR 0xA9]]"

function json_escape :: "string \<Rightarrow> string" where
  "json_escape [] = []"
| "json_escape (c # cs) =
     (if ord c < 128 then escape_ascii c @ json_escape cs
      else let w = utf8_width (c # cs)
           in if w = 0 then [CHR 0x5C] @ ''ufffd'' @ json_escape cs
              else if take 3 (c # cs) \<in> set line_separators
              then [CHR 0x5C] @ ''u202'' @ [hex_char (ord ((c # cs) ! 2) mod 16)] @ json_escape (drop 2 cs)
              else take w (c # cs) @ json_escape (drop (w - 1) cs))"
  by pat_completeness auto
termination by (relation "measure length") auto

definition is_surrogate :: "nat \<Rightarrow> bool" where
  "is_surrogate r \<longleftrightarrow> 55296 \<le> r \<and> r \<le> 57343"

definition utf16_decode :: "nat \<Rightarrow> nat \<Rightarrow> nat option" where
  "utf16_decode r1 r2 =
     (if 55296 \<le> r1 \<and> r1 < 56320 \<and> 56320 \<le> r2 \<and> r2 < 57344
      then Some ((r1 - 55296) * 1024 + (r2 - 56320) + 65536) else None)"

definition second_unit :: "string \<Rightarrow> nat option" where
  "second_unit s = (case s of a # b # s1 \<Rightarrow> if a = CHR 0x5C \<and> b = CHR ''u'' then hex4 s1 else None | _ \<Rightarrow> None)"

definition simple_escape :: "char \<Rightarrow> char option" where
  "simple_escape e =
     (if e = CHR 0x22 \<or> e = CHR 0x5C \<or> e = CHR ''/'' \<or> e = CHR 0x27 then Some e
      else if e = CHR ''b'' then Some (CHR 0x08) else if e = CHR ''f'' then Some (CHR 0x0C)
      else if e = CHR ''n'' then Some (CHR 0x0A) else if e = CHR ''r'' then Some (CHR 0x0D)
      else if e = CHR ''t'' then Some (CHR 0x09) else None)"

function json_unquote :: "string \<Rightarrow> string option" where
  "json_unquote [] = Some []"
| "json_unquote (c # cs) =
     (if c = CHR 0x5C then
        (case cs of [] \<Rightarrow> None
         | e # es \<Rightarrow>
             if e = CHR ''u'' then
               (case hex4 es of None \<Rightarrow> None
                | Some r \<Rightarrow>
                    if is_surrogate r then
                      (case second_unit (drop 4 es) of
                         Some r2 \<Rightarrow>
                           (case utf16_decode r r2 of
                              Some r' \<Rightarrow> map_option ((@) (encode_rune r')) (json_unquote (drop 10 es))
                            | None \<Rightarrow> map_option ((@) (encode_rune 65533)) (json_unquote (drop 4 es)))
                       | None \<Rightarrow> map_option ((@) (encode_rune 65533)) (json_unquote (drop 4 es)))
                    else map_option ((@) (encode_rune r)) (json_unquote (drop 4 es)))
             else (case simple_escape e of None \<Rightarrow> None | Some x \<Rightarrow> map_option ((#) x) (json_unquote es)))
      else if c = CHR 0x22 \<or> ord c < 32 then None
      else if ord c < 128 then map_option ((#) c) (json_unquote cs)
      else let w = utf8_width (c # cs)
           in if w = 0 then map_option ((@) (encode_rune 65533)) (json_unquote cs)
              else map_option ((@) (take w (c # cs))) (json_unquote (drop (w - 1) cs)))"
  by pat_completeness auto
termination by (relation "measure length") auto

section \<open>Base64\<close>

definition b64_char :: "nat \<Rightarrow> char" where
  "b64_char n =
     (if n < 26 then char_of (65 + n) else if n < 52 then char_of (71 + n)
      else if n < 62 then char_of (n - 4) else if n = 62 then CHR ''+'' else CHR ''/'')"

definition b64_val :: "char \<Rightarrow> nat option" where
  "b64_val c =
     (if in_range 65 90 c then Some (ord c - 65) else if in_range 97 122 c then Some (ord c - 71)
      else if in_range 48 57 c then Some (ord c + 4) else if c = CHR ''+'' then Some 62
      else if c = CHR ''/'' then Some 63 else None)"

fun b64_encode :: "bytes \<Rightarrow> string" where
  "b64_encode [] = []"
| "b64_encode [a] = [b64_char (ord a div 4), b64_char (ord a mod 4 * 16), CHR ''='', CHR ''='']"
| "b64_encode [a, b] =
     [b64_char (ord a div 4), b64_char (ord a mod 4 * 16 + ord b div 16), b64_char (ord b mod 16 * 4), CHR ''='']"
| "b64_encode (a # b # c # s) =
     [b64_char (ord a div 4), b64_char (ord a mod 4 * 16 + ord b div 16),
      b64_char (ord b mod 16 * 4 + ord c div 64), b64_char (ord c mod 64)] @ b64_encode s"

fun b64_groups :: "string \<Rightarrow> bytes option" where
  "b64_groups [] = Some []"
| "b64_groups (a # b # c # d # s) =
     (case (b64_val a, b64_val b) of
        (Some w, Some x) \<Rightarrow>
          if d = CHR ''='' then
            (if s \<noteq> [] then None
             else if c = CHR ''='' then Some [char_of (w * 4 + x div 16)]
             else case b64_val c of None \<Rightarrow> None
                  | Some y \<Rightarrow> Some [char_of (w * 4 + x div 16), char_of (x mod 16 * 16 + y div 4)])
          else (case (b64_val c, b64_val d, b64_groups s) of
                  (Some y, Some z, Some bs) \<Rightarrow>
                    Some (char_of (w * 4 + x div 16) # char_of (x mod 16 * 16 + y div 4) # char_of (y mod 4 * 64 + z) # bs)
                | _ \<Rightarrow> None)
      | _ \<Rightarrow> None)"
| "b64_groups s = None"

definition b64_decode :: "string \<Rightarrow> bytes option" where
  "b64_decode s = b64_groups (filter (\<lambda>c. c \<noteq> CHR 0x0A \<and> c \<noteq> CHR 0x0D) s)"

section \<open>Documents\<close>

datatype json = JNull | JBool bool | JNum string | JStr string | JArr "json list" | JObj "(string \<times> json) list"

fun sep_concat :: "string list \<Rightarrow> string" where
  "sep_concat [] = []"
| "sep_concat [s] = s"
| "sep_concat (s # ss) = s @ '','' @ sep_concat ss"

definition quoted :: "string \<Rightarrow> string" where
  "quoted raw = CHR 0x22 # raw @ [CHR 0x22]"

fun json_text :: "json \<Rightarrow> string" where
  "json_text JNull = ''null''"
| "json_text (JBool b) = (if b then ''true'' else ''false'')"
| "json_text (JNum s) = s"
| "json_text (JStr raw) = quoted raw"
| "json_text (JArr vs) = ''['' @ sep_concat (map json_text vs) @ '']''"
| "json_text (JObj ms) = ''{'' @ sep_concat (map (\<lambda>m. quoted (fst m) @ '':'' @ json_text (snd m)) ms) @ ''}''"

fun json_depth :: "json \<Rightarrow> nat" where
  "json_depth (JArr vs) = Suc (fold (\<lambda>v. max (json_depth v)) vs 0)"
| "json_depth (JObj ms) = Suc (fold (\<lambda>m. max (json_depth (snd m))) ms 0)"
| "json_depth _ = 0"

definition skip_ws :: "string \<Rightarrow> string" where
  "skip_ws s = dropWhile (\<lambda>c. c = CHR '' '' \<or> c = CHR 0x09 \<or> c = CHR 0x0A \<or> c = CHR 0x0D) s"

text \<open>The scanner's string state: raw text up to the closing quote, and what follows it.\<close>

fun scan_string :: "string \<Rightarrow> (string \<times> string) option" where
  "scan_string [] = None"
| "scan_string (c # cs) =
     (if c = CHR 0x22 then Some ([], cs)
      else if c = CHR 0x5C then
        (case cs of [] \<Rightarrow> None
         | e # es \<Rightarrow>
             if e = CHR ''u'' \<and> hex4 es = None then None
             else if e \<noteq> CHR ''u'' \<and> e \<notin> set (CHR 0x22 # CHR 0x5C # ''/bfnrt'') then None
             else map_option (apfst (\<lambda>raw. c # e # raw)) (scan_string es))
      else if ord c < 32 then None
      else map_option (apfst ((#) c)) (scan_string cs))"

definition scan_frac :: "string \<Rightarrow> (string \<times> string) option" where
  "scan_frac s = (case s of
      c # cs \<Rightarrow> if c = CHR ''.'' then
           (if takeWhile is_digit cs = [] then None
            else Some (c # takeWhile is_digit cs, dropWhile is_digit cs))
         else Some ([], s)
    | [] \<Rightarrow> Some ([], s))"

definition scan_exp :: "string \<Rightarrow> (string \<times> string) option" where
  "scan_exp s = (case s of
      c # cs \<Rightarrow> if c = CHR ''e'' \<or> c = CHR ''E'' then
           (let sg = takeWhile (\<lambda>x. x = CHR ''+'' \<or> x = CHR ''-'') (take 1 cs); ds = drop (length sg) cs
            in if takeWhile is_digit ds = [] then None
               else Some (c # sg @ takeWhile is_digit ds, dropWhile is_digit ds))
         else Some ([], s)
    | [] \<Rightarrow> Some ([], s))"

definition scan_int :: "string \<Rightarrow> (string \<times> string) option" where
  "scan_int s = (case s of
      [] \<Rightarrow> None
    | c # cs \<Rightarrow> if c = CHR ''0'' then Some ([c], cs)
               else if is_digit c then Some (takeWhile is_digit s, dropWhile is_digit s) else None)"

definition scan_number :: "string \<Rightarrow> (string \<times> string) option" where
  "scan_number s =
     (let sg = takeWhile (\<lambda>x. x = CHR ''-'') (take 1 s)
      in case scan_int (drop (length sg) s) of None \<Rightarrow> None
         | Some (i, s1) \<Rightarrow>
             (case scan_frac s1 of None \<Rightarrow> None
              | Some (f, s2) \<Rightarrow>
                  (case scan_exp s2 of None \<Rightarrow> None | Some (e, s3) \<Rightarrow> Some (sg @ i @ f @ e, s3))))"

definition scan_literal :: "string \<Rightarrow> json \<Rightarrow> string \<Rightarrow> (json \<times> string) option" where
  "scan_literal lit v s = (if take (length lit) s = lit then Some (v, drop (length lit) s) else None)"

fun parse_value :: "nat \<Rightarrow> string \<Rightarrow> (json \<times> string) option"
  and parse_elems :: "nat \<Rightarrow> string \<Rightarrow> (json list \<times> string) option"
  and parse_members :: "nat \<Rightarrow> string \<Rightarrow> ((string \<times> json) list \<times> string) option" where
  "parse_value 0 s = None"
| "parse_value (Suc n) s =
     (case skip_ws s of
        [] \<Rightarrow> None
      | c # cs \<Rightarrow>
          if c = CHR ''{'' then
            (if take 1 (skip_ws cs) = ''}'' then Some (JObj [], drop 1 (skip_ws cs))
             else map_option (apfst JObj) (parse_members n cs))
          else if c = CHR ''['' then
            (if take 1 (skip_ws cs) = '']'' then Some (JArr [], drop 1 (skip_ws cs))
             else map_option (apfst JArr) (parse_elems n cs))
          else if c = CHR 0x22 then map_option (apfst JStr) (scan_string cs)
          else if c = CHR ''t'' then scan_literal ''true'' (JBool True) (c # cs)
          else if c = CHR ''f'' then scan_literal ''false'' (JBool False) (c # cs)
          else if c = CHR ''n'' then scan_literal ''null'' JNull (c # cs)
          else map_option (apfst JNum) (scan_number (c # cs)))"
| "parse_elems 0 s = None"
| "parse_elems (Suc n) s =
     (case parse_value n s of
        None \<Rightarrow> None
      | Some (v, r) \<Rightarrow>
          (case skip_ws r of
             [] \<Rightarrow> None
           | c # cs \<Rightarrow>
               if c = CHR '','' then map_option (apfst ((#) v)) (parse_elems n cs)
               else if c = CHR '']'' then Some ([v], cs) else None))"
| "parse_members 0 s = None"
| "parse_members (Suc n) s =
     (case skip_ws s of
        [] \<Rightarrow> None
      | q # s1 \<Rightarrow>
          if q \<noteq> CHR 0x22 then None
          else case scan_string s1 of
             None \<Rightarrow> None
           | Some (k, r) \<Rightarrow>
               (case skip_ws r of
                  [] \<Rightarrow> None
                | x # r1 \<Rightarrow>
                    if x \<noteq> CHR '':'' then None
                    else case parse_value n r1 of
                       None \<Rightarrow> None
                     | Some (v, r2) \<Rightarrow>
                         (case skip_ws r2 of
                            [] \<Rightarrow> None
                          | c # cs \<Rightarrow>
                              if c = CHR '','' then map_option (apfst ((#) (k, v))) (parse_members n cs)
                              else if c = CHR ''}'' then Some ([(k, v)], cs) else None)))"

text \<open>\<open>json_decode\<close> reads one value and leaves the rest, as \<^verbatim>\<open>Decoder.Decode\<close>; \<open>json_parse\<close> wants the
  whole input to be one value, as \<^verbatim>\<open>json.Unmarshal\<close>.\<close>

definition json_decode :: "string \<Rightarrow> (json \<times> string) option" where
  "json_decode s =
     (case parse_value (2 * length s + 2) s of
        Some (v, r) \<Rightarrow> if json_depth v \<le> 10000 then Some (v, r) else None
      | None \<Rightarrow> None)"

definition json_parse :: "string \<Rightarrow> json option" where
  "json_parse s =
     (case json_decode s of Some (v, r) \<Rightarrow> if skip_ws r = [] then Some v else None | None \<Rightarrow> None)"

text \<open>Field lookup of the struct decoder: an exact match, else one that folds case.\<close>

function fold_name :: "string \<Rightarrow> string" where
  "fold_name [] = []"
| "fold_name (c # cs) =
     (if in_range 97 122 c then char_of (ord c - 32) # fold_name cs
      else if take 3 (c # cs) = [CHR 0xE2, CHR 0x84, CHR 0xAA] then CHR ''K'' # fold_name (drop 2 cs)
      else if take 2 (c # cs) = [CHR 0xC5, CHR 0xBF] then CHR ''S'' # fold_name (drop 1 cs)
      else c # fold_name cs)"
  by pat_completeness auto
termination by (relation "measure length") auto

definition field_of :: "string list \<Rightarrow> string \<Rightarrow> string option" where
  "field_of fields key =
     (if key \<in> set fields then Some key else find (\<lambda>f. fold_name f = fold_name key) fields)"

section \<open>String literals round trip\<close>

lemma hex_val_char: "n < 16 \<Longrightarrow> hex_val (hex_char n) = Some n"
  by (auto simp: hex_val_def hex_char_def in_range_def)

lemma encode_rune_ascii: "ord c < 128 \<Longrightarrow> encode_rune (ord c) = [c]"
  by (simp add: encode_rune_def)

lemma hex4_ascii:
  "ord c < 128 \<Longrightarrow> hex4 (CHR ''0'' # CHR ''0'' # hex_char (ord c div 16) # hex_char (ord c mod 16) # t) = Some (ord c)"
proof -
  assume "ord c < 128"
  then have "hex_val (hex_char (ord c div 16)) = Some (ord c div 16)" "hex_val (hex_char (ord c mod 16)) = Some (ord c mod 16)"
    by (auto intro!: hex_val_char)
  moreover have "hex_val (CHR ''0'') = Some 0"
    by (simp add: hex_val_def in_range_def)
  ultimately show ?thesis
    by (simp add: hex4_def)
qed

lemma escape_ascii_cases:
  obtains (plain) "escape_ascii c = [c]" "32 \<le> ord c" "c \<noteq> CHR 0x22" "c \<noteq> CHR 0x5C"
  | (simple) e where "escape_ascii c = [CHR 0x5C, e]" "simple_escape e = Some c" "e \<noteq> CHR ''u''"
      "e \<in> set (CHR 0x22 # CHR 0x5C # ''/bfnrt'')"
  | (hex) "escape_ascii c = [CHR 0x5C, CHR ''u'', CHR ''0'', CHR ''0'', hex_char (ord c div 16), hex_char (ord c mod 16)]"
proof (cases "c \<in> set [CHR 0x22, CHR 0x5C, CHR 0x08, CHR 0x0C, CHR 0x0A, CHR 0x0D, CHR 0x09]")
  case True
  then show ?thesis
    by (intro simple [of "escape_ascii c ! 1"]) (auto simp: escape_ascii_def simple_escape_def)
next
  case special: False
  show ?thesis
  proof (cases "ord c < 32 \<or> c = CHR ''<'' \<or> c = CHR ''>'' \<or> c = CHR ''&''")
    case True
    with special show ?thesis by (intro hex) (simp add: escape_ascii_def)
  next
    case False
    show ?thesis
      by (rule plain) (use False special in \<open>simp_all add: escape_ascii_def\<close>)
  qed
qed

lemma unquote_escape_ascii:
  assumes "ord c < 128"
  shows "json_unquote (escape_ascii c @ t) = map_option ((#) c) (json_unquote t)"
proof (cases rule: escape_ascii_cases [of c])
  case plain
  with assms show ?thesis by simp
next
  case (simple e)
  then show ?thesis by simp
next
  case hex
  from assms show ?thesis
    by (simp add: hex hex4_ascii encode_rune_ascii is_surrogate_def) (simp add: map_option_case split: option.splits)
qed

lemma scan_unicode_escape:
  assumes "hex4 h \<noteq> None" "length h = 4" "\<forall>x \<in> set h. 32 \<le> ord x \<and> x \<noteq> CHR 0x22 \<and> x \<noteq> CHR 0x5C"
  shows "scan_string (CHR 0x5C # CHR ''u'' # h @ t) = map_option (apfst ((@) (CHR 0x5C # CHR ''u'' # h))) (scan_string t)"
proof -
  obtain a b c d where h: "h = [a, b, c, d]"
    using assms(2) by (auto simp: length_Suc_conv eval_nat_numeral)
  with assms(1) have "hex4 (h @ t) \<noteq> None" by (simp add: hex4_def)
  then show ?thesis
    using assms(3) h by (cases "scan_string t") auto
qed

lemma hex_char_plain: "n < 16 \<Longrightarrow> 32 \<le> ord (hex_char n) \<and> hex_char n \<noteq> CHR 0x22 \<and> hex_char n \<noteq> CHR 0x5C"
  by (auto simp: hex_char_def dest!: arg_cong [where f = ord])

lemma scan_escape_ascii:
  assumes "ord c < 128"
  shows "scan_string (escape_ascii c @ t) = map_option (apfst ((@) (escape_ascii c))) (scan_string t)"
proof (cases rule: escape_ascii_cases [of c])
  case plain
  then show ?thesis by (cases "scan_string t") auto
next
  case (simple e)
  then show ?thesis by (cases "scan_string t") auto
next
  case hex
  from assms have "ord c div 16 < 16" "ord c mod 16 < 16" by auto
  then show ?thesis
    using assms scan_unicode_escape [of "[CHR ''0'', CHR ''0'', hex_char (ord c div 16), hex_char (ord c mod 16)]"]
    by (simp add: hex hex4_ascii hex_char_plain)
qed

lemma utf8_width_le: "utf8_width s \<le> length s"
  by (cases s) (auto simp: utf8_width.simps split: list.splits)

lemma in_range_high: "in_range lo hi c \<Longrightarrow> 128 \<le> lo \<Longrightarrow> 128 \<le> ord c"
  by (simp add: in_range_def)

lemma utf8_width_cases:
  assumes a: "\<not> ord a < 128" and w: "utf8_width (a # s) \<noteq> 0"
  obtains (two) b r where "s = b # r" "utf8_width (a # s) = 2" "128 \<le> ord b"
  | (three) b c r where "s = b # c # r" "utf8_width (a # s) = 3" "128 \<le> ord b" "128 \<le> ord c"
  | (four) b c d r where "s = b # c # d # r" "utf8_width (a # s) = 4" "128 \<le> ord b" "128 \<le> ord c" "128 \<le> ord d"
proof (cases s)
  case Nil
  with a w show ?thesis by (simp add: utf8_width.simps)
next
  case (Cons b s1)
  show ?thesis
  proof (cases "in_range 194 223 a")
    case True
    with a w Cons show ?thesis
      by (intro two [of b s1]) (simp_all add: utf8_width.simps in_range_high split: if_splits)
  next
    case na: False
    show ?thesis
    proof (cases s1)
      case Nil
      with na a w Cons show ?thesis by (simp add: utf8_width.simps)
    next
      case (Cons c s2)
      note s = \<open>s = b # s1\<close> Cons
      show ?thesis
      proof (cases "in_range 224 239 a")
        case True
        then have "128 \<le> ord b \<and> cont c \<and> utf8_width (a # s) = 3"
          using na a w s by (auto simp: utf8_width.simps split: if_splits dest: in_range_high)
        then show ?thesis
          using s by (intro three [of b c s2]) (auto dest: in_range_high)
      next
        case na3: False
        show ?thesis
        proof (cases s2)
          case Nil
          with na na3 a w s show ?thesis by (simp add: utf8_width.simps)
        next
          case (Cons d r)
          then have "128 \<le> ord b \<and> cont c \<and> cont d \<and> utf8_width (a # s) = 4"
            using na na3 a w s by (auto simp: utf8_width.simps split: if_splits dest: in_range_high)
          then show ?thesis
            using s Cons by (intro four [of b c d r]) (auto dest: in_range_high)
        qed
      qed
    qed
  qed
qed

lemma utf8_bytes_high:
  assumes "\<not> ord c < 128" "x \<in> set (take (utf8_width (c # cs)) (c # cs))"
  shows "128 \<le> ord x"
proof (cases "utf8_width (c # cs) = 0")
  case False
  with assms(1) show ?thesis
    by (cases rule: utf8_width_cases) (use assms in \<open>auto simp: take_Cons'\<close>)
qed (use assms in simp)

lemma scan_string_high:
  "\<forall>x \<in> set xs. 128 \<le> ord x \<Longrightarrow> scan_string (xs @ t) = map_option (apfst ((@) xs)) (scan_string t)"
proof (induction xs)
  case Nil
  then show ?case by (cases "scan_string t") auto
next
  case (Cons x xs)
  then have "128 \<le> ord x" by simp
  then have "x \<noteq> CHR 0x22" "x \<noteq> CHR 0x5C" "\<not> ord x < 32" by auto
  with Cons show ?case by (cases "scan_string t") auto
qed

text \<open>The three ways a non-ASCII byte is escaped.\<close>

lemma json_escape_high_cases:
  assumes "\<not> ord c < 128"
  obtains (bad) "utf8_width (c # cs) = 0" "json_escape (c # cs) = CHR 0x5C # CHR ''u'' # ''fffd'' @ json_escape cs"
  | (sep) h rest where "c # cs = encode_rune (8232 + h) @ rest" "h < 2" "utf8_width (c # cs) = 3"
      "json_escape (c # cs) = CHR 0x5C # CHR ''u'' # (''202'' @ [hex_char (8 + h)]) @ json_escape rest"
  | (copy) "utf8_width (c # cs) \<noteq> 0"
      "json_escape (c # cs) = take (utf8_width (c # cs)) (c # cs) @ json_escape (drop (utf8_width (c # cs)) (c # cs))"
proof (cases "utf8_width (c # cs) = 0")
  case True
  with assms bad show ?thesis by simp
next
  case w: False
  show ?thesis
  proof (cases "take 3 (c # cs) \<in> set line_separators")
    case True
    then obtain x rest where cs: "c = CHR 0xE2" "cs = CHR 0x80 # x # rest" and x: "x = CHR 0xA8 \<or> x = CHR 0xA9"
      by (cases cs rule: remdups_adj.cases) (auto simp: line_separators_def)
    define h :: nat where "h = (if x = CHR 0xA8 then 0 else 1)"
    have "encode_rune 8232 = [CHR 0xE2, CHR 0x80, CHR 0xA8]" "encode_rune 8233 = [CHR 0xE2, CHR 0x80, CHR 0xA9]"
      by (simp_all add: encode_rune_def char_of_def bit_0)
    moreover have "hex_char 8 = hex_char (ord (CHR 0xA8) mod 16)" "hex_char 9 = hex_char (ord (CHR 0xA9) mod 16)"
      by code_simp+
    moreover have "utf8_width (c # cs) = 3"
      using x by (auto simp: cs utf8_width.simps in_range_def)
    ultimately show ?thesis
      using assms x True by (intro sep [of h rest]) (auto simp: cs h_def Let_def line_separators_def)
  next
    case False
    have "drop (utf8_width (c # cs) - 1) cs = drop (utf8_width (c # cs)) (c # cs)"
      using w by (cases "utf8_width (c # cs)") simp_all
    with assms w False show ?thesis
      by (intro copy) (simp_all add: Let_def)
  qed
qed

declare scan_string.simps(2) [simp del] json_unquote.simps(2) [simp del] json_escape.simps(2) [simp del]

lemma scan_chunk:
  assumes "scan_string (chunk @ e @ q) = map_option (apfst ((@) chunk)) (scan_string (e @ q))"
    and "scan_string (e @ q) = Some (e, r)"
  shows "scan_string ((chunk @ e) @ q) = Some (chunk @ e, r)"
  using assms by simp

lemma hex4_separator: "h < 2 \<Longrightarrow> hex4 (''202'' @ [hex_char (8 + h)]) = Some (8232 + h)"
  using hex_val_char [of "8 + h"]
  by (simp add: hex4_def hex_val_def [of "CHR ''2''"] hex_val_def [of "CHR ''0''"] in_range_def)

lemma length_separator: "h < 2 \<Longrightarrow> length (encode_rune (8232 + h)) = 3"
  by (simp add: encode_rune_def)

text \<open>Whatever the string, its escaped form is one complete string literal.\<close>

lemma scan_json_escape: "scan_string (json_escape s @ CHR 0x22 # r) = Some (json_escape s, r)"
proof (induction "length s" arbitrary: s rule: less_induct)
  case less
  show ?case
  proof (cases s)
    case Nil
    then show ?thesis by (simp add: scan_string.simps)
  next
    case (Cons c cs)
    show ?thesis
    proof (cases "ord c < 128")
      case True
      then show ?thesis
        using less [of cs] Cons by (simp add: scan_escape_ascii json_escape.simps)
    next
      case False
      then show ?thesis
      proof (cases rule: json_escape_high_cases [of c cs])
        case bad
        have hex: "hex4 ''fffd'' \<noteq> None" by (simp add: hex4_def hex_val_def in_range_def)
        have e: "json_escape s = (CHR 0x5C # CHR ''u'' # ''fffd'') @ json_escape cs"
          using Cons bad(2) by simp
        have "scan_string ((CHR 0x5C # CHR ''u'' # ''fffd'') @ t) =
            map_option (apfst ((@) (CHR 0x5C # CHR ''u'' # ''fffd''))) (scan_string t)" for t
          using scan_unicode_escape [of "''fffd''" t] hex by simp
        then show ?thesis
          unfolding e by (rule scan_chunk) (use less [of cs] Cons in simp)
      next
        case (sep h rest)
        have len: "length rest < length s"
          using arg_cong [OF sep(1), of length] Cons length_separator [OF sep(2)] by simp
        have e: "json_escape s = (CHR 0x5C # CHR ''u'' # ''202'' @ [hex_char (8 + h)]) @ json_escape rest"
          using Cons sep(4) by simp
        have "scan_string ((CHR 0x5C # CHR ''u'' # ''202'' @ [hex_char (8 + h)]) @ t) =
            map_option (apfst ((@) (CHR 0x5C # CHR ''u'' # ''202'' @ [hex_char (8 + h)]))) (scan_string t)" for t
          using scan_unicode_escape [of "''202'' @ [hex_char (8 + h)]" t] hex4_separator [OF sep(2)] sep(2)
            hex_char_plain [of "8 + h"] by simp
        then show ?thesis
          unfolding e by (rule scan_chunk) (rule less [OF len])
      next
        case copy
        have len: "length (drop (utf8_width (c # cs)) (c # cs)) < length s"
          using copy(1) Cons by simp
        have "scan_string (take (utf8_width (c # cs)) (c # cs) @ t) =
            map_option (apfst ((@) (take (utf8_width (c # cs)) (c # cs)))) (scan_string t)" for t
          by (rule scan_string_high) (use utf8_bytes_high [OF False] in blast)
        then show ?thesis
          unfolding Cons copy(2) by (rule scan_chunk) (rule less [OF len])
      qed
    qed
  qed
qed

lemma unquote_high:
  assumes "\<not> ord c < 128" "utf8_width (c # cs) = w" "0 < w"
  shows "json_unquote (take w (c # cs) @ t) = map_option ((@) (take w (c # cs))) (json_unquote t)"
proof -
  have w: "utf8_width (take w (c # cs) @ t) = w"
    using assms by (auto simp: utf8_width.simps split: list.splits if_splits)
  obtain k where k: "w = Suc k" using assms(3) by (cases w) auto
  have "k \<le> length cs"
    using utf8_width_le [of "c # cs"] assms(2) k by simp
  moreover have "c \<noteq> CHR 0x5C" "c \<noteq> CHR 0x22" "\<not> ord c < 32"
    using assms(1) by auto
  ultimately show ?thesis
    using w assms(1) k by (simp add: Let_def json_unquote.simps)
qed

lemma valid_utf8_Cons:
  "valid_utf8 (c # cs) \<longleftrightarrow> utf8_width (c # cs) \<noteq> 0 \<and> valid_utf8 (drop (utf8_width (c # cs)) (c # cs))"
  by (subst valid_utf8.simps) simp

lemma unquote_unicode_escape:
  assumes "hex4 h = Some n" "length h = 4" "\<not> is_surrogate n"
  shows "json_unquote (CHR 0x5C # CHR ''u'' # h @ t) = map_option ((@) (encode_rune n)) (json_unquote t)"
proof -
  obtain a b c d where h: "h = [a, b, c, d]"
    using assms(2) by (auto simp: length_Suc_conv eval_nat_numeral)
  with assms(1) have "hex4 (h @ t) = Some n" by (simp add: hex4_def)
  then show ?thesis
    using assms(3) h by (simp add: json_unquote.simps)
qed

text \<open>A well-formed UTF-8 string survives encoding and decoding.\<close>

theorem unquote_escape: "valid_utf8 s \<Longrightarrow> json_unquote (json_escape s) = Some s"
proof (induction "length s" arbitrary: s rule: less_induct)
  case less
  show ?case
  proof (cases s)
    case Nil
    then show ?thesis by simp
  next
    case (Cons c cs)
    show ?thesis
    proof (cases "ord c < 128")
      case True
      then have "utf8_width (c # cs) = 1" by (simp add: utf8_width.simps)
      then show ?thesis
        using True less(1) [of cs] less(2) Cons
        by (simp add: unquote_escape_ascii valid_utf8_Cons json_escape.simps)
    next
      case False
      have v: "valid_utf8 (drop (utf8_width (c # cs)) (c # cs))" "utf8_width (c # cs) \<noteq> 0"
        using less(2) Cons by (simp_all add: valid_utf8_Cons)
      from False show ?thesis
      proof (cases rule: json_escape_high_cases [of c cs])
        case bad
        with v show ?thesis by simp
      next
        case (sep h rest)
        note n = hex4_separator [OF sep(2)]
        have "rest = drop (utf8_width (c # cs)) (c # cs)" and "length rest < length s"
          using sep(1,3) Cons length_separator [OF sep(2)] by auto
        then have IH: "json_unquote (json_escape rest) = Some rest"
          using less(1) [of rest] v(1) by simp
        have "json_unquote (json_escape (c # cs)) = map_option ((@) (encode_rune (8232 + h))) (json_unquote (json_escape rest))"
          unfolding sep(4) by (rule unquote_unicode_escape [OF n]) (use sep(2) in \<open>simp_all add: is_surrogate_def\<close>)
        then show ?thesis
          unfolding Cons IH sep(1) by simp
      next
        case copy
        moreover have "length (drop (utf8_width (c # cs)) (c # cs)) < length s"
          using v(2) Cons by simp
        ultimately show ?thesis
          using less(1) [OF _ v(1)] Cons v(2) unquote_high [OF False refl, of cs "json_escape (drop (utf8_width (c # cs)) (c # cs))"]
          by (simp only: copy(2)) simp
      qed
    qed
  qed
qed

section \<open>Base64 round trip\<close>

lemma b64_val_char: "n < 64 \<Longrightarrow> b64_val (b64_char n) = Some n"
proof -
  assume "n < 64"
  then consider "n < 26" | "26 \<le> n" "n < 52" | "52 \<le> n" "n < 62" | "n = 62" | "n = 63"
    by linarith
  then show ?thesis
    by cases (auto simp: b64_val_def b64_char_def in_range_def)
qed

lemma b64_val_pad: "b64_val (CHR ''='') = None" "b64_val (CHR 0x0A) = None" "b64_val (CHR 0x0D) = None"
  by (simp_all add: b64_val_def in_range_def)

lemma b64_char_plain: "n < 64 \<Longrightarrow> b64_char n \<noteq> CHR ''='' \<and> b64_char n \<noteq> CHR 0x0A \<and> b64_char n \<noteq> CHR 0x0D"
  using b64_val_char [of n] b64_val_pad by (auto simp del: b64_val_pad)

lemma b64_bounds:
  fixes a b c :: char
  shows "ord a div 4 < 64" "ord a mod 4 * 16 < 64" "ord a mod 4 * 16 + ord b div 16 < 64"
    "ord b mod 16 * 4 < 64" "ord b mod 16 * 4 + ord c div 64 < 64" "ord c mod 64 < 64"
proof -
  have "ord a div 4 < 64" "ord b div 16 < 16" "ord c div 64 < 4" "ord a mod 4 < 4" "ord b mod 16 < 16" "ord c mod 64 < 64"
    using nat_of_char_less_256 [of a] nat_of_char_less_256 [of b] nat_of_char_less_256 [of c]
    by (simp_all add: less_mult_imp_div_less)
  then show "ord a div 4 < 64" "ord a mod 4 * 16 < 64" "ord a mod 4 * 16 + ord b div 16 < 64"
    "ord b mod 16 * 4 < 64" "ord b mod 16 * 4 + ord c div 64 < 64" "ord c mod 64 < 64"
    by linarith+
qed

lemma b64_regroup:
  fixes a b c :: char
  shows "ord a div 4 * 4 + ord a mod 4 * 16 div 16 = ord a"
    "ord a div 4 * 4 + (ord a mod 4 * 16 + ord b div 16) div 16 = ord a"
    "(ord a mod 4 * 16 + ord b div 16) mod 16 * 16 + ord b mod 16 * 4 div 4 = ord b"
    "(ord a mod 4 * 16 + ord b div 16) mod 16 * 16 + (ord b mod 16 * 4 + ord c div 64) div 4 = ord b"
    "(ord b mod 16 * 4 + ord c div 64) mod 4 * 64 + ord c mod 64 = ord c"
proof -
  have dm: "r < k \<Longrightarrow> (m * k + r) div k = m" "r < k \<Longrightarrow> (m * k + r) mod k = r" for m k r :: nat
    by simp_all
  have "ord b div 16 < 16" "ord c div 64 < 4"
    using nat_of_char_less_256 [of b] nat_of_char_less_256 [of c] by (simp_all add: less_mult_imp_div_less)
  then show "ord a div 4 * 4 + ord a mod 4 * 16 div 16 = ord a"
    "ord a div 4 * 4 + (ord a mod 4 * 16 + ord b div 16) div 16 = ord a"
    "(ord a mod 4 * 16 + ord b div 16) mod 16 * 16 + ord b mod 16 * 4 div 4 = ord b"
    "(ord a mod 4 * 16 + ord b div 16) mod 16 * 16 + (ord b mod 16 * 4 + ord c div 64) div 4 = ord b"
    "(ord b mod 16 * 4 + ord c div 64) mod 4 * 64 + ord c mod 64 = ord c"
    by (simp_all only: dm div_mult_mod_eq nonzero_mult_div_cancel_right zero_neq_numeral not_False_eq_True)
qed

lemmas b64_group_simps = b64_groups.simps(2) b64_val_char b64_bounds b64_regroup b64_char_plain
  prod.case option.case char_of_char if_False if_True refl append_Cons append_Nil not_True_eq_False

lemma b64_groups_encode: "b64_groups (b64_encode s) = Some s"
proof (induction s rule: b64_encode.induct)
  case 1
  then show ?case by simp
next
  case (2 a)
  then show ?case by (simp only: b64_group_simps b64_encode.simps)
next
  case (3 a b)
  then show ?case by (simp only: b64_group_simps b64_encode.simps)
next
  case (4 a b c s)
  then show ?case by (simp only: b64_group_simps b64_encode.simps)
qed

lemma b64_encode_chars: "x \<in> set (b64_encode s) \<Longrightarrow> x = CHR ''='' \<or> (\<exists>n < 64. x = b64_char n)"
  by (induction s rule: b64_encode.induct) (auto intro: b64_bounds)

lemma b64_encode_plain: "x \<in> set (b64_encode s) \<Longrightarrow> x \<noteq> CHR 0x0A \<and> x \<noteq> CHR 0x0D"
  using b64_encode_chars [of x s] b64_char_plain by auto

theorem b64_roundtrip: "b64_decode (b64_encode s) = Some s"
proof -
  have "filter (\<lambda>c. c \<noteq> CHR 0x0A \<and> c \<noteq> CHR 0x0D) (b64_encode s) = b64_encode s"
    using b64_encode_plain by (auto simp: filter_id_conv)
  then show ?thesis by (simp add: b64_decode_def b64_groups_encode)
qed

section \<open>Documents round trip\<close>

text \<open>
  The documents the program writes: string bodies and numbers that are complete literals.
\<close>

definition raw_ok :: "string \<Rightarrow> bool" where
  "raw_ok raw \<longleftrightarrow> scan_string (raw @ [CHR 0x22]) = Some (raw, [])"

definition num_ok :: "string \<Rightarrow> bool" where
  "num_ok s \<longleftrightarrow> scan_number s = Some (s, [])"

fun wf_json :: "json \<Rightarrow> bool" where
  "wf_json (JNum s) \<longleftrightarrow> num_ok s"
| "wf_json (JStr raw) \<longleftrightarrow> raw_ok raw"
| "wf_json (JArr vs) \<longleftrightarrow> (\<forall>v \<in> set vs. wf_json v)"
| "wf_json (JObj ms) \<longleftrightarrow> (\<forall>m \<in> set ms. raw_ok (fst m) \<and> wf_json (snd m))"
| "wf_json _ \<longleftrightarrow> True"

definition delim :: "string \<Rightarrow> bool" where
  "delim r \<longleftrightarrow> (case r of [] \<Rightarrow> True | c # _ \<Rightarrow> \<not> is_digit c \<and> c \<notin> set ''.eE'')"

lemma hex4_append: "hex4 s = Some n \<Longrightarrow> hex4 (s @ r) = Some n"
  by (auto simp: hex4_def split: list.splits)

lemma scan_string_append: "scan_string s = Some (a, b) \<Longrightarrow> scan_string (s @ r) = Some (a, b @ r)"
proof (induction s arbitrary: a b rule: scan_string.induct)
  case 1
  then show ?case by simp
next
  case (2 c cs)
  show ?case
  proof (cases "c = CHR 0x5C")
    case True
    then obtain e es where cs: "cs = e # es"
      using "2.prems" by (auto simp: scan_string.simps split: list.splits)
    moreover obtain raw where "scan_string es = Some (raw, b)" "a = c # e # raw"
      "\<not> (e = CHR ''u'' \<and> hex4 es = None)" "\<not> (e \<noteq> CHR ''u'' \<and> e \<notin> set (CHR 0x22 # CHR 0x5C # ''/bfnrt''))"
      using "2.prems" True cs by (auto simp: scan_string.simps split: if_splits)
    ultimately show ?thesis
      using "2.IH"(1) [OF _ True cs] True hex4_append [of es]
      by (cases "hex4 es") (auto simp: scan_string.simps)
  next
    case False
    then show ?thesis
      using "2.prems" "2.IH"(2) by (auto simp: scan_string.simps split: if_splits)
  qed
qed

lemma scan_raw: "raw_ok raw \<Longrightarrow> scan_string (raw @ CHR 0x22 # r) = Some (raw, r)"
  using scan_string_append [of "raw @ [CHR 0x22]" raw "[]" r] by (simp add: raw_ok_def)

lemma raw_ok_escape [simp]: "raw_ok (json_escape s)"
  by (simp add: raw_ok_def scan_json_escape)

lemma raw_ok_plain: "list_all (\<lambda>c. 32 \<le> ord c \<and> c \<noteq> CHR 0x22 \<and> c \<noteq> CHR 0x5C) s \<Longrightarrow> raw_ok s"
proof -
  have "list_all (\<lambda>c. 32 \<le> ord c \<and> c \<noteq> CHR 0x22 \<and> c \<noteq> CHR 0x5C) s \<Longrightarrow> scan_string (s @ CHR 0x22 # r) = Some (s, r)" for r
    by (induction s) (auto simp: scan_string.simps)
  then show "list_all (\<lambda>c. 32 \<le> ord c \<and> c \<noteq> CHR 0x22 \<and> c \<noteq> CHR 0x5C) s \<Longrightarrow> raw_ok s"
    by (simp add: raw_ok_def)
qed

lemma hd_nat_dec_zero: "hd (nat_dec n) = CHR ''0'' \<longleftrightarrow> n = 0"
proof (induction n rule: nat_dec.induct)
  case (1 n)
  show ?case
  proof (cases "n < 10")
    case True
    then have "char_of (48 + n) = CHR ''0'' \<longleftrightarrow> n = 0"
      by (auto dest: arg_cong [where f = ord] intro: of_char_eqI [where 'a = nat])
    with True show ?thesis by (simp add: nat_dec.simps [of n])
  next
    case False
    with 1 show ?thesis by (simp add: nat_dec.simps [of n])
  qed
qed

lemma takeWhile_digits: "list_all is_digit s \<Longrightarrow> delim r \<Longrightarrow> takeWhile is_digit (s @ r) = s \<and> dropWhile is_digit (s @ r) = r"
  by (cases r) (auto simp: takeWhile_append2 dropWhile_append2 list_all_iff delim_def takeWhile_tail)

lemma scan_int_nat_dec: "delim r \<Longrightarrow> scan_int (nat_dec n @ r) = Some (nat_dec n, r)"
proof -
  assume r: "delim r"
  obtain c cs where c: "nat_dec n = c # cs"
    by (cases "nat_dec n") auto
  show ?thesis
  proof (cases "c = CHR ''0''")
    case True
    then have "n = 0" using hd_nat_dec_zero [of n] c by simp
    then have "cs = []" using c by (simp add: nat_dec.simps [of 0])
    with True c show ?thesis by (simp add: scan_int_def)
  next
    case False
    moreover have "is_digit c" using hd_nat_dec [of n] c by simp
    ultimately show ?thesis
      using takeWhile_digits [OF all_digits_nat_dec r, of n] c by (simp add: scan_int_def)
  qed
qed

lemma scan_number_fmt_d: "delim r \<Longrightarrow> scan_number (fmt_d x @ r) = Some (fmt_d x, r)"
proof -
  assume r: "delim r"
  then have fe: "scan_frac r = Some ([], r)" "scan_exp r = Some ([], r)"
    by (auto simp: scan_frac_def scan_exp_def delim_def split: list.splits)
  obtain c cs where c: "nat_dec (nat x) = c # cs"
    by (cases "nat_dec (nat x)") auto
  then have "c \<noteq> CHR ''-''" using hd_nat_dec [of "nat x"] digit_not_sign by auto
  then show ?thesis
    using scan_int_nat_dec [OF r, of "nat x"] scan_int_nat_dec [OF r, of "nat (- x)"] c fe
    by (auto simp: scan_number_def fmt_d_def Let_def)
qed

lemma num_ok_fmt_d [simp]: "num_ok (fmt_d x)"
  using scan_number_fmt_d [of "[]" x] by (simp add: num_ok_def delim_def)

lemma while_append:
  "dropWhile p s \<noteq> [] \<or> takeWhile p r = [] \<Longrightarrow> takeWhile p (s @ r) = takeWhile p s \<and> dropWhile p (s @ r) = dropWhile p s @ r"
proof (induction s)
  case Nil
  then show ?case by (cases r) (auto split: if_splits)
qed (auto split: if_splits)

lemma delim_no_digit: "delim r \<Longrightarrow> takeWhile is_digit r = []"
  by (cases r) (auto simp: delim_def)

lemma scan_parts_append:
  assumes "delim r"
  shows "scan_int s = Some (a, b) \<Longrightarrow> scan_int (s @ r) = Some (a, b @ r)"
    and "scan_frac s = Some (a, b) \<Longrightarrow> scan_frac (s @ r) = Some (a, b @ r)"
    and "scan_exp s = Some (a, b) \<Longrightarrow> scan_exp (s @ r) = Some (a, b @ r)"
proof -
  have w: "takeWhile is_digit (t @ r) = takeWhile is_digit t" "dropWhile is_digit (t @ r) = dropWhile is_digit t @ r" for t
    using while_append [of is_digit t r] delim_no_digit [OF assms] by blast+
  show "scan_int s = Some (a, b) \<Longrightarrow> scan_int (s @ r) = Some (a, b @ r)"
    using w [of s] by (cases s) (auto simp: scan_int_def split: if_splits)
  show "scan_frac s = Some (a, b) \<Longrightarrow> scan_frac (s @ r) = Some (a, b @ r)"
  proof (cases s)
    case (Cons c cs)
    then show "scan_frac s = Some (a, b) \<Longrightarrow> ?thesis" using w [of cs] by (auto simp: scan_frac_def split: if_splits)
  qed (use assms in \<open>auto simp: scan_frac_def delim_def split: list.splits\<close>)
  show "scan_exp s = Some (a, b) \<Longrightarrow> scan_exp (s @ r) = Some (a, b @ r)"
  proof (cases s)
    case (Cons c cs)
    then show "scan_exp s = Some (a, b) \<Longrightarrow> ?thesis"
      using w [of cs] w [of "tl cs"] by (cases cs) (auto simp: scan_exp_def Let_def split: if_splits)
  qed (use assms in \<open>auto simp: scan_exp_def delim_def split: list.splits\<close>)
qed

lemma scan_num_ok: "num_ok s \<Longrightarrow> delim r \<Longrightarrow> scan_number (s @ r) = Some (s, r)"
proof -
  assume a: "num_ok s" "delim r"
  then have s: "s \<noteq> []" by (auto simp: num_ok_def scan_number_def scan_int_def)
  define sg where "sg = takeWhile (\<lambda>x. x = CHR ''-'') (take 1 s)"
  obtain i s1 f s2 e where p: "scan_int (drop (length sg) s) = Some (i, s1)" "scan_frac s1 = Some (f, s2)" "scan_exp s2 = Some (e, [])"
      "sg @ i @ f @ e = s"
    using a(1) by (auto simp: num_ok_def scan_number_def Let_def sg_def split: option.splits)
  have "takeWhile (\<lambda>x. x = CHR ''-'') (take 1 (s @ r)) = sg" using s by (cases s) (auto simp: sg_def)
  moreover have "drop (length sg) (s @ r) = drop (length sg) s @ r" using s by (cases s) (auto simp: sg_def)
  ultimately show ?thesis
    using scan_parts_append [OF a(2)] p by (simp only: scan_number_def Let_def option.case prod.case append.simps)
qed

lemma num_ok_head: "num_ok s \<Longrightarrow> \<exists>c cs. s = c # cs \<and> (c = CHR ''-'' \<or> is_digit c)"
  by (cases s) (auto simp: num_ok_def scan_number_def scan_int_def is_digit_def split: option.splits if_splits)

definition ws_free :: "string \<Rightarrow> bool" where
  "ws_free s \<longleftrightarrow> (\<exists>c cs. s = c # cs \<and> c \<notin> set [CHR '' '', CHR 0x09, CHR 0x0A, CHR 0x0D, CHR '']'', CHR ''}''])"

lemma skip_ws_free: "ws_free s \<Longrightarrow> skip_ws (s @ r) = s @ r"
  by (auto simp: ws_free_def skip_ws_def)

lemma skip_ws_plain [simp]:
  "skip_ws (CHR '','' # r) = CHR '','' # r" "skip_ws (CHR '']'' # r) = CHR '']'' # r"
  "skip_ws (CHR ''}'' # r) = CHR ''}'' # r" "skip_ws (CHR '':'' # r) = CHR '':'' # r"
  "skip_ws (CHR 0x22 # r) = CHR 0x22 # r" "skip_ws (CHR ''['' # r) = CHR ''['' # r"
  "skip_ws (CHR ''{'' # r) = CHR ''{'' # r" "skip_ws [] = []"
  by (simp_all add: skip_ws_def)

lemma delim_plain [simp]: "delim (CHR '','' # r)" "delim (CHR '']'' # r)" "delim (CHR ''}'' # r)" "delim []"
  by (simp_all add: delim_def is_digit_def)

lemma fmt_d_head: "\<exists>c cs. fmt_d x = c # cs \<and> (c = CHR ''-'' \<or> is_digit c)"
  using hd_nat_dec [of "nat x"] by (cases "nat_dec (nat x)") (auto simp: fmt_d_def)

lemma ws_free_text: "wf_json v \<Longrightarrow> ws_free (json_text v)"
proof (cases v)
  case (JNum s)
  then show "wf_json v \<Longrightarrow> ?thesis"
    using num_ok_head by (fastforce simp: ws_free_def is_digit_def)
qed (simp_all add: ws_free_def quoted_def)

lemma ws_free_append: "ws_free s \<Longrightarrow> ws_free (s @ t)"
  by (auto simp: ws_free_def)

lemma text_pos: "wf_json v \<Longrightarrow> 0 < length (json_text v)"
  using ws_free_text [of v] by (auto simp: ws_free_def)

text \<open>Printing and parsing the elements of an array or the members of an object.\<close>

lemma parse_elems_text:
  assumes "vs \<noteq> []" and "\<forall>v \<in> set vs. wf_json v"
    and "\<And>v n r. v \<in> set vs \<Longrightarrow> delim r \<Longrightarrow> 2 * length (json_text v) \<le> n \<Longrightarrow>
      parse_value n (json_text v @ r) = Some (v, r)"
    and "2 * length (sep_concat (map json_text vs)) < n"
  shows "parse_elems n (sep_concat (map json_text vs) @ CHR '']'' # r) = Some (vs, r)"
  using assms
proof (induction vs arbitrary: n)
  case Nil
  then show ?case by simp
next
  case (Cons v vs)
  obtain k where n: "n = Suc k" using Cons.prems(4) by (cases n) auto
  show ?case
  proof (cases vs)
    case Nil
    then show ?thesis using Cons.prems n by simp
  next
    case (Cons w ws)
    have "sep_concat (map json_text (v # vs)) = json_text v @ CHR '','' # sep_concat (map json_text vs)"
      using Cons by simp
    moreover have "parse_elems k (sep_concat (map json_text vs) @ CHR '']'' # r) = Some (vs, r)"
      by (rule Cons.IH) (use Cons Cons.prems n in auto)
    ultimately show ?thesis
      using Cons.prems n by simp
  qed
qed

lemma parse_members_text:
  assumes "ms \<noteq> []" and "\<forall>m \<in> set ms. raw_ok (fst m) \<and> wf_json (snd m)"
    and "\<And>v n r. v \<in> snd ` set ms \<Longrightarrow> delim r \<Longrightarrow> 2 * length (json_text v) \<le> n \<Longrightarrow>
      parse_value n (json_text v @ r) = Some (v, r)"
    and "2 * length (sep_concat (map (\<lambda>m. quoted (fst m) @ '':'' @ json_text (snd m)) ms)) < n"
  shows "parse_members n (sep_concat (map (\<lambda>m. quoted (fst m) @ '':'' @ json_text (snd m)) ms) @ CHR ''}'' # r) = Some (ms, r)"
  using assms
proof (induction ms arbitrary: n)
  case Nil
  then show ?case by simp
next
  case (Cons m ms)
  obtain k where n: "n = Suc k" using Cons.prems(4) by (cases n) auto
  obtain key v where m: "m = (key, v)" by (cases m)
  have key: "scan_string (key @ CHR 0x22 # t) = Some (key, t)" for t
    using Cons.prems(2) m by (simp add: scan_raw)
  show ?case
  proof (cases ms)
    case Nil
    then show ?thesis using Cons.prems n m key by (simp add: quoted_def)
  next
    case (Cons w ws)
    have "sep_concat (map (\<lambda>m. quoted (fst m) @ '':'' @ json_text (snd m)) (m # ms)) =
        quoted key @ '':'' @ json_text v @ CHR '','' # sep_concat (map (\<lambda>m. quoted (fst m) @ '':'' @ json_text (snd m)) ms)"
      using Cons m by simp
    moreover have "parse_members k (sep_concat (map (\<lambda>m. quoted (fst m) @ '':'' @ json_text (snd m)) ms) @ CHR ''}'' # r) = Some (ms, r)"
      by (rule Cons.IH) (use Cons Cons.prems n m in auto)
    ultimately show ?thesis
      using Cons.prems n m key by (simp add: quoted_def)
  qed
qed

lemma sep_concat_ws_free: "xs \<noteq> [] \<Longrightarrow> ws_free (hd xs) \<Longrightarrow> ws_free (sep_concat xs)"
  by (cases xs rule: sep_concat.cases) (simp_all add: ws_free_append)

lemma ws_free_not_close: "ws_free s \<Longrightarrow> take 1 (skip_ws (s @ r)) \<noteq> '']'' \<and> take 1 (skip_ws (s @ r)) \<noteq> ''}''"
  by (auto simp: skip_ws_free) (auto simp: ws_free_def)

lemma text_fuel:
  assumes "wf_json v" "2 * length (json_text v) \<le> n"
  obtains k where "n = Suc k"
  using text_pos [OF assms(1)] assms(2) by (cases n) auto

lemma parse_value_text:
  "wf_json v \<Longrightarrow> delim r \<Longrightarrow> 2 * length (json_text v) \<le> n \<Longrightarrow> parse_value n (json_text v @ r) = Some (v, r)"
proof (induction v arbitrary: n r)
  case (JNum s)
  obtain k where n: "n = Suc k" using text_fuel [OF JNum(1,3)] .
  obtain c cs where cs: "s = c # cs" and c: "c = CHR ''-'' \<or> is_digit c"
    using num_ok_head [of s] JNum(1) by auto
  have "c \<notin> set ''{[tfn''" "c \<noteq> CHR 0x22"
    using c by (auto simp: is_digit_def)
  then show ?case
    using skip_ws_free [OF ws_free_text [OF JNum(1)], of r] scan_num_ok [OF _ JNum(2), of s] JNum(1)
    by (simp add: n cs)
next
  case (JArr vs)
  obtain k where n: "n = Suc k" using text_fuel [OF JArr.prems(1,3)] .
  show ?case
  proof (cases "vs = []")
    case False
    then have "ws_free (sep_concat (map json_text vs))"
      using JArr.prems(1) by (intro sep_concat_ws_free) (auto simp: hd_map ws_free_text)
    moreover have "parse_elems k (sep_concat (map json_text vs) @ CHR '']'' # r) = Some (vs, r)"
      by (rule parse_elems_text [OF False]) (use JArr n in auto)
    ultimately show ?thesis
      using n ws_free_not_close by simp
  qed (use n in simp)
next
  case (JObj ms)
  obtain k where n: "n = Suc k" using text_fuel [OF JObj.prems(1,3)] .
  let ?txt = "\<lambda>m. quoted (fst m) @ '':'' @ json_text (snd m)"
  show ?case
  proof (cases "ms = []")
    case False
    then have "ws_free (sep_concat (map ?txt ms))"
      by (intro sep_concat_ws_free) (auto simp: hd_map ws_free_def quoted_def)
    moreover have "parse_members k (sep_concat (map ?txt ms) @ CHR ''}'' # r) = Some (ms, r)"
      by (rule parse_members_text [OF False]) (use JObj n in auto)
    ultimately show ?thesis
      using n ws_free_not_close by simp
  qed (use n in simp)
next
  case (JStr raw)
  obtain k where n: "n = Suc k" using text_fuel [OF JStr(1,3)] .
  then show ?case using JStr by (simp add: quoted_def scan_raw)
next
  case (JBool b)
  obtain k where n: "n = Suc k" using text_fuel [OF JBool(1,3)] .
  then show ?case by (cases b) (simp_all add: skip_ws_def scan_literal_def)
next
  case JNull
  obtain k where n: "n = Suc k" using text_fuel [OF JNull(1,3)] .
  then show ?case by (simp add: skip_ws_def scan_literal_def)
qed

text \<open>What \<^verbatim>\<open>json.Marshal\<close> writes, \<^verbatim>\<open>json.Unmarshal\<close> reads back.\<close>

theorem json_parse_text: "wf_json v \<Longrightarrow> json_depth v \<le> 10000 \<Longrightarrow> json_parse (json_text v) = Some v"
  using parse_value_text [of v "[]" "2 * length (json_text v) + 2"]
  by (simp add: json_parse_def json_decode_def)

section \<open>The fuel is enough\<close>

lemma length_skip_ws: "length (skip_ws s) \<le> length s"
  by (simp add: skip_ws_def length_dropWhile_le)

lemma skip_ws_Cons: "skip_ws s = c # cs \<Longrightarrow> length cs < length s"
  using length_skip_ws [of s] by simp

lemma scan_string_shorter: "scan_string s = Some (a, r) \<Longrightarrow> length r < length s"
  by (induction s arbitrary: a r rule: scan_string.induct)
    (fastforce simp: scan_string.simps split: if_splits list.splits)+

lemma scan_int_shorter: "scan_int s = Some (a, r) \<Longrightarrow> length r < length s"
  by (cases s) (auto simp: scan_int_def less_Suc_eq_le length_dropWhile_le split: if_splits)

lemma scan_frac_shorter: "scan_frac s = Some (a, r) \<Longrightarrow> length r \<le> length s"
  by (cases s) (auto simp: scan_frac_def le_SucI length_dropWhile_le split: if_splits)

lemma scan_exp_shorter: "scan_exp s = Some (a, r) \<Longrightarrow> length r \<le> length s"
proof (cases s)
  case (Cons c cs)
  have "length (dropWhile is_digit (drop k cs)) \<le> Suc (length cs)" for k
    using length_dropWhile_le [of is_digit "drop k cs"] by simp
  then show "scan_exp s = Some (a, r) \<Longrightarrow> ?thesis"
    using Cons by (auto simp: scan_exp_def Let_def split: if_splits)
qed (simp add: scan_exp_def)

lemma scan_number_shorter: "scan_number s = Some (a, r) \<Longrightarrow> length r < length s"
  by (auto simp: scan_number_def Let_def split: option.splits
      dest!: scan_int_shorter scan_frac_shorter scan_exp_shorter) linarith

lemma scan_literal_shorter: "scan_literal lit v s = Some (w, r) \<Longrightarrow> lit \<noteq> [] \<Longrightarrow> length r < length s"
  by (cases s) (auto simp: scan_literal_def split: if_splits)

lemma parse_value_shorter_step:
  assumes "\<And>s vs r. parse_elems n s = Some (vs, r) \<Longrightarrow> length r < length s"
    and "\<And>s ms r. parse_members n s = Some (ms, r) \<Longrightarrow> length r < length s"
    and "parse_value (Suc n) s = Some (v, r)"
  shows "length r < length s"
proof -
  obtain c cs where cs: "skip_ws s = c # cs"
    using assms(3) by (auto split: list.splits)
  note len = skip_ws_Cons [OF cs] length_skip_ws [of s, unfolded cs] length_skip_ws [of cs]
  show ?thesis
    using assms(3) cs len
    by (auto split: if_splits dest!: assms(1,2) scan_string_shorter scan_number_shorter scan_literal_shorter)
qed

lemma parse_elems_shorter_step:
  assumes "\<And>s v r. parse_value n s = Some (v, r) \<Longrightarrow> length r < length s"
    and "\<And>s vs r. parse_elems n s = Some (vs, r) \<Longrightarrow> length r < length s"
    and "parse_elems (Suc n) s = Some (vs, r)"
  shows "length r < length s"
proof -
  obtain v t c cs where v: "parse_value n s = Some (v, t)" and cs: "skip_ws t = c # cs"
    using assms(3) by (auto split: option.splits list.splits)
  then show ?thesis
    using assms(3) assms(1) [OF v] skip_ws_Cons [OF cs] by (auto split: if_splits dest!: assms(2))
qed

lemma parse_members_shorter_step:
  assumes "\<And>s v r. parse_value n s = Some (v, r) \<Longrightarrow> length r < length s"
    and "\<And>s ms r. parse_members n s = Some (ms, r) \<Longrightarrow> length r < length s"
    and "parse_members (Suc n) s = Some (ms, r)"
  shows "length r < length s"
proof -
  obtain q s1 k t x r1 v r2 c cs where "skip_ws s = q # s1" "scan_string s1 = Some (k, t)" "skip_ws t = x # r1"
    "parse_value n r1 = Some (v, r2)" "skip_ws r2 = c # cs"
    using assms(3) by (auto split: option.splits list.splits if_splits)
  note steps = this
  have "length cs < length s"
    using skip_ws_Cons [OF steps(1)] scan_string_shorter [OF steps(2)] skip_ws_Cons [OF steps(3)]
      assms(1) [OF steps(4)] skip_ws_Cons [OF steps(5)] by linarith
  then show ?thesis
    using assms(3) steps by (auto split: if_splits dest!: assms(2))
qed

lemma parse_shorter:
  "(parse_value n s = Some (v, r) \<longrightarrow> length r < length s) \<and>
   (parse_elems n s = Some (vs, r) \<longrightarrow> length r < length s) \<and>
   (parse_members n s = Some (ms, r) \<longrightarrow> length r < length s)"
proof (induction n arbitrary: s v vs ms r)
  case (Suc n)
  then show ?case
    using parse_value_shorter_step [of n] parse_elems_shorter_step [of n] parse_members_shorter_step [of n] by blast
qed simp

lemma parse_value_fuel_step:
  assumes "\<And>t. length t < length s \<Longrightarrow> parse_elems n t = parse_elems m t"
    and "\<And>t. length t < length s \<Longrightarrow> parse_members n t = parse_members m t"
  shows "parse_value (Suc n) s = parse_value (Suc m) s"
proof (cases "skip_ws s")
  case (Cons c cs)
  then show ?thesis
    using assms(1) [of cs] assms(2) [of cs] skip_ws_Cons [OF Cons] by simp
qed simp

lemma parse_elems_fuel_step:
  assumes "parse_value n s = parse_value m s"
    and "\<And>t. length t < length s \<Longrightarrow> parse_elems n t = parse_elems m t"
  shows "parse_elems (Suc n) s = parse_elems (Suc m) s"
proof (cases "parse_value m s")
  case (Some p)
  obtain v r where p: "p = (v, r)" by (cases p)
  have r: "length r < length s"
    using parse_shorter Some p by blast
  show ?thesis
  proof (cases "skip_ws r")
    case (Cons c cs)
    then have "length cs < length s"
      using skip_ws_Cons [OF Cons] r by linarith
    then show ?thesis
      using assms(2) [of cs] Some p Cons by (simp add: assms(1))
  qed (simp add: assms(1) Some p)
qed (simp add: assms(1))

lemma parse_members_fuel_step:
  assumes "\<And>t. length t < length s \<Longrightarrow> parse_value n t = parse_value m t"
    and "\<And>t. length t < length s \<Longrightarrow> parse_members n t = parse_members m t"
  shows "parse_members (Suc n) s = parse_members (Suc m) s"
proof (cases "\<exists>q s1 k t x r1. skip_ws s = q # s1 \<and> scan_string s1 = Some (k, t) \<and> skip_ws t = x # r1")
  case True
  then obtain q s1 k t x r1 where steps: "skip_ws s = q # s1" "scan_string s1 = Some (k, t)" "skip_ws t = x # r1"
    by blast
  then have r1: "length r1 < length s"
    using skip_ws_Cons [OF steps(1)] scan_string_shorter [OF steps(2)] skip_ws_Cons [OF steps(3)] by linarith
  show ?thesis
  proof (cases "\<exists>v r2 c cs. parse_value m r1 = Some (v, r2) \<and> skip_ws r2 = c # cs")
    case True
    then obtain v r2 c cs where v: "parse_value m r1 = Some (v, r2)" "skip_ws r2 = c # cs"
      by blast
    then have "length cs < length s"
      using parse_shorter [of m r1 v r2] skip_ws_Cons [OF v(2)] r1 by fastforce
    then show ?thesis
      using assms(2) [of cs] v steps by (simp add: assms(1) [OF r1])
  next
    case False
    then show ?thesis
      using steps by (auto simp: assms(1) [OF r1] split: option.splits list.splits)
  qed
next
  case False
  then show ?thesis
    by (auto split: list.splits option.splits)
qed

lemma parse_fuel:
  "(2 * length s + 2 \<le> n \<longrightarrow> 2 * length s + 2 \<le> m \<longrightarrow> parse_value n s = parse_value m s) \<and>
   (2 * length s + 3 \<le> n \<longrightarrow> 2 * length s + 3 \<le> m \<longrightarrow> parse_elems n s = parse_elems m s) \<and>
   (2 * length s + 3 \<le> n \<longrightarrow> 2 * length s + 3 \<le> m \<longrightarrow> parse_members n s = parse_members m s)"
proof (induction "length s" arbitrary: s n m rule: less_induct)
  case less
  have val: "parse_value n s = parse_value m s" if nm: "2 * length s + 2 \<le> n" "2 * length s + 2 \<le> m" for n m
  proof -
    obtain i j where ij: "n = Suc i" "m = Suc j" using nm by (cases n; cases m) auto
    have "parse_elems i t = parse_elems j t \<and> parse_members i t = parse_members j t" if "length t < length s" for t
      using less [OF that, of i j] nm ij that by auto
    then show ?thesis unfolding ij by (intro parse_value_fuel_step) auto
  qed
  have step: "parse_elems n s = parse_elems m s \<and> parse_members n s = parse_members m s"
    if nm: "2 * length s + 3 \<le> n" "2 * length s + 3 \<le> m" for n m
  proof -
    obtain i j where ij: "n = Suc i" "m = Suc j" using nm by (cases n; cases m) auto
    have "parse_value i t = parse_value j t \<and> parse_elems i t = parse_elems j t \<and> parse_members i t = parse_members j t"
      if "length t < length s" for t
      using less [OF that, of i j] nm ij that by auto
    then show ?thesis
      unfolding ij using val [of i j] nm ij by (intro conjI parse_elems_fuel_step parse_members_fuel_step) auto
  qed
  show ?case using val [of n m] step [of n m] by blast
qed

theorem parse_value_enough:
  "2 * length s + 2 \<le> n \<Longrightarrow> parse_value n s = parse_value (2 * length s + 2) s"
  using parse_fuel [of s n "2 * length s + 2"] by simp

end
