(* ===== verification/Broker_Record.thy ===== *)
theory Broker_Record
  imports Go_Json Go_Os
begin

text \<open>
  The record of \<^verbatim>\<open>broker/types.go\<close> and its JSON form.  A \<^verbatim>\<open>[]byte\<close> field is \<^typ>\<open>bytes option\<close>
  (\<^const>\<open>None\<close> is the nil slice, which \<^verbatim>\<open>encoding/json\<close> writes as \<^verbatim>\<open>null\<close>); the header map is a
  finite map whose nil and empty values coincide, since \<^verbatim>\<open>omitempty\<close> drops both.  The encoder follows the
  struct tags; the decoder follows \<^verbatim>\<open>json.Unmarshal\<close> on this struct: fields found by name (exact, else
  case-insensitive), unknown members ignored, later members overriding earlier ones, any type error
  an error of the whole call.
\<close>

record Record =
  Key :: "bytes option"
  Value :: "bytes option"
  Headers :: "(string, string) fmap"
  Timestamp :: time
  Offset :: int

definition Record_zero :: Record where
  "Record_zero = \<lparr> Key = None, Value = None, Headers = fmempty, Timestamp = 0, Offset = 0 \<rparr>"

definition bytes_json :: "bytes option \<Rightarrow> json" where
  "bytes_json b = (case b of None \<Rightarrow> JNull | Some s \<Rightarrow> JStr (b64_encode s))"

definition headers_json :: "(string, string) fmap \<Rightarrow> json" where
  "headers_json h = JObj (map (\<lambda>k. (json_escape k, JStr (json_escape (map_get [] h k)))) (sorted_keys h))"

definition Record_json :: "string \<Rightarrow> Record \<Rightarrow> json" where
  "Record_json ts r =
     JObj ([(''key'', bytes_json (Key r)), (''value'', bytes_json (Value r))] @
       (if Headers r = fmempty then [] else [(''headers'', headers_json (Headers r))]) @
       [(''timestamp'', JStr ts), (''offset'', JNum (fmt_d (Offset r)))])"

definition json_Marshal_Record :: "Record \<Rightarrow> bytes option" where
  "json_Marshal_Record r =
     (case time_MarshalText (Timestamp r) of
        None \<Rightarrow> None
      | Some ts \<Rightarrow> Some (json_text (Record_json ts r)))"

definition dec_uint8 :: "byte \<Rightarrow> json \<Rightarrow> byte option" where
  "dec_uint8 old v =
     (case v of
        JNull \<Rightarrow> Some old
      | JNum s \<Rightarrow> (case ParseUint s of None \<Rightarrow> None | Some n \<Rightarrow> if n < 256 then Some (char_of n) else None)
      | _ \<Rightarrow> None)"

fun dec_uint8s :: "bytes \<Rightarrow> json list \<Rightarrow> bytes option" where
  "dec_uint8s old [] = Some []"
| "dec_uint8s old (v # vs) =
     (case (dec_uint8 (case old of [] \<Rightarrow> CHR 0x00 | b # _ \<Rightarrow> b) v, dec_uint8s (tl old) vs) of
        (Some b, Some bs) \<Rightarrow> Some (b # bs)
      | _ \<Rightarrow> None)"

definition dec_bytes :: "bytes option \<Rightarrow> json \<Rightarrow> bytes option option" where
  "dec_bytes old v =
     (case v of
        JNull \<Rightarrow> Some None
      | JStr raw \<Rightarrow>
          (case json_unquote raw of None \<Rightarrow> None
           | Some s \<Rightarrow> (case b64_decode s of None \<Rightarrow> None | Some b \<Rightarrow> Some (Some b)))
      | JArr vs \<Rightarrow> map_option Some (dec_uint8s (case old of None \<Rightarrow> [] | Some b \<Rightarrow> b) vs)
      | _ \<Rightarrow> None)"

definition dec_string :: "string \<Rightarrow> json \<Rightarrow> string option" where
  "dec_string old v = (case v of JNull \<Rightarrow> Some old | JStr raw \<Rightarrow> json_unquote raw | _ \<Rightarrow> None)"

fun dec_entries :: "(string \<times> json) list \<Rightarrow> (string, string) fmap \<Rightarrow> (string, string) fmap option" where
  "dec_entries [] h = Some h"
| "dec_entries ((k, v) # ms) h =
     (case (json_unquote k, dec_string [] v) of
        (Some key, Some x) \<Rightarrow> dec_entries ms (fmupd key x h)
      | _ \<Rightarrow> None)"

definition dec_string_map :: "(string, string) fmap \<Rightarrow> json \<Rightarrow> (string, string) fmap option" where
  "dec_string_map old v = (case v of JNull \<Rightarrow> Some fmempty | JObj ms \<Rightarrow> dec_entries ms old | _ \<Rightarrow> None)"

definition dec_time :: "time \<Rightarrow> json \<Rightarrow> time option" where
  "dec_time old v = (case v of JNull \<Rightarrow> Some old | JStr raw \<Rightarrow> time_UnmarshalText raw | _ \<Rightarrow> None)"

definition dec_int64 :: "int \<Rightarrow> json \<Rightarrow> int option" where
  "dec_int64 old v = (case v of JNull \<Rightarrow> Some old | JNum s \<Rightarrow> ParseInt s | _ \<Rightarrow> None)"

definition Record_fields :: "string list" where
  "Record_fields = [''key'', ''value'', ''headers'', ''timestamp'', ''offset'']"

definition dec_Record_member :: "string \<Rightarrow> json \<Rightarrow> Record \<Rightarrow> Record option" where
  "dec_Record_member f v r =
     (if f = ''key'' then map_option (\<lambda>x. r\<lparr>Key := x\<rparr>) (dec_bytes (Key r) v)
      else if f = ''value'' then map_option (\<lambda>x. r\<lparr>Value := x\<rparr>) (dec_bytes (Value r) v)
      else if f = ''headers'' then map_option (\<lambda>x. r\<lparr>Headers := x\<rparr>) (dec_string_map (Headers r) v)
      else if f = ''timestamp'' then map_option (\<lambda>x. r\<lparr>Timestamp := x\<rparr>) (dec_time (Timestamp r) v)
      else map_option (\<lambda>x. r\<lparr>Offset := x\<rparr>) (dec_int64 (Offset r) v))"

fun dec_Record_members :: "(string \<times> json) list \<Rightarrow> Record \<Rightarrow> Record option" where
  "dec_Record_members [] r = Some r"
| "dec_Record_members ((k, v) # ms) r =
     (case json_unquote k of
        None \<Rightarrow> None
      | Some key \<Rightarrow>
          (case field_of Record_fields key of
             None \<Rightarrow> dec_Record_members ms r
           | Some f \<Rightarrow>
               (case dec_Record_member f v r of None \<Rightarrow> None | Some r' \<Rightarrow> dec_Record_members ms r')))"

definition dec_Record :: "Record \<Rightarrow> json \<Rightarrow> Record option" where
  "dec_Record old v = (case v of JNull \<Rightarrow> Some old | JObj ms \<Rightarrow> dec_Record_members ms old | _ \<Rightarrow> None)"

definition json_Unmarshal_Record :: "bytes \<Rightarrow> Record option" where
  "json_Unmarshal_Record s =
     (case json_parse s of None \<Rightarrow> None | Some v \<Rightarrow> dec_Record Record_zero v)"

text \<open>Records the JSON form represents exactly: header text is UTF-8, the offset an \<^verbatim>\<open>int64\<close>.\<close>

definition Record_ok :: "Record \<Rightarrow> bool" where
  "Record_ok r \<longleftrightarrow> int64_range (Offset r) \<and>
     fmpred (\<lambda>k v. valid_utf8 k \<and> valid_utf8 v) (Headers r)"

section \<open>Encoding is well-formed JSON\<close>

lemma json_unquote_plain:
  "list_all (\<lambda>c. 32 \<le> ord c \<and> ord c < 128 \<and> c \<noteq> CHR 0x22 \<and> c \<noteq> CHR 0x5C) s \<Longrightarrow> json_unquote s = Some s"
proof (induction s)
  case (Cons c s)
  then have c: "ord c < 128" "32 \<le> ord c" "c \<noteq> CHR 0x22" "c \<noteq> CHR 0x5C" and s: "json_unquote s = Some s"
    by auto
  have "utf8_width (c # s) = 1"
    using c(1) by (simp add: utf8_width.simps)
  with c s show ?case
    by (simp add: json_unquote.simps)
qed simp

lemma b64_encode_ascii:
  "list_all (\<lambda>c. 32 \<le> ord c \<and> ord c < 128 \<and> c \<noteq> CHR 0x22 \<and> c \<noteq> CHR 0x5C) (b64_encode s)"
  unfolding list_all_iff
proof
  fix x assume "x \<in> set (b64_encode s)"
  then consider "x = CHR ''=''" | n where "n < 64" "x = b64_char n"
    using b64_encode_chars by blast
  then show "32 \<le> ord x \<and> ord x < 128 \<and> x \<noteq> CHR 0x22 \<and> x \<noteq> CHR 0x5C"
  proof cases
    case 2
    then have "b64_val x = Some n"
      by (simp add: b64_val_char)
    then show ?thesis
      by (auto simp: b64_val_def in_range_def split: if_splits)
  qed simp
qed


lemma raw_ok_ascii:
  "list_all (\<lambda>c. 32 \<le> ord c \<and> ord c < 128 \<and> c \<noteq> CHR 0x22 \<and> c \<noteq> CHR 0x5C) s \<Longrightarrow> raw_ok s"
  by (rule raw_ok_plain) (auto simp: list_all_iff)

lemma pad_dec_digits: "list_all is_digit (pad_dec w n)"
  by (induction w n rule: pad_dec.induct) auto

lemma digits_ascii: "list_all is_digit s \<Longrightarrow>
    list_all (\<lambda>c. 32 \<le> ord c \<and> ord c < 128 \<and> c \<noteq> CHR 0x22 \<and> c \<noteq> CHR 0x5C) s"
  by (auto simp: list_all_iff is_digit_def)

lemma time_text_ascii:
  assumes "time_MarshalText t = Some s"
  shows "list_all (\<lambda>c. 32 \<le> ord c \<and> ord c < 128 \<and> c \<noteq> CHR 0x22 \<and> c \<noteq> CHR 0x5C) s"
proof -
  note digits = digits_ascii [OF pad_dec_digits] digits_ascii [OF strip_zeros_digits [OF pad_dec_digits]]
  show ?thesis
    using assms digits
    by (auto simp: time_MarshalText_def frac_text_def Let_def split: prod.splits if_splits)
qed

lemma raw_ok_fields [simp]:
  "raw_ok ''key''" "raw_ok ''value''" "raw_ok ''headers''" "raw_ok ''timestamp''" "raw_ok ''offset''"
  by (rule raw_ok_plain, simp)+

lemma wf_bytes_json [simp]: "wf_json (bytes_json b)"
  by (auto simp: bytes_json_def raw_ok_ascii [OF b64_encode_ascii] split: option.splits)

lemma wf_headers_json [simp]: "wf_json (headers_json h)"
  by (auto simp: headers_json_def)

lemma wf_Record_json: "time_MarshalText (Timestamp r) = Some ts \<Longrightarrow> wf_json (Record_json ts r)"
  using raw_ok_ascii [OF time_text_ascii] by (auto simp: Record_json_def)

lemma fold_max_le: "(\<And>x. x \<in> set xs \<Longrightarrow> f x \<le> k) \<Longrightarrow> m \<le> k \<Longrightarrow> fold (\<lambda>x. max (f x)) xs m \<le> (k::nat)"
  by (induction xs arbitrary: m) auto

lemma depth_bytes_json [simp]: "json_depth (bytes_json b) = 0"
  by (simp add: bytes_json_def split: option.split)

lemma depth_headers_json: "json_depth (headers_json h) \<le> 1"
proof -
  have "fold (\<lambda>m. max (json_depth (snd m))) (map (\<lambda>k. (json_escape k, JStr (json_escape (map_get [] h k)))) ks) 0 \<le> 0"
    for ks by (rule fold_max_le) auto
  then show ?thesis by (simp add: headers_json_def)
qed

lemma depth_Record_json: "json_depth (Record_json ts r) \<le> 2"
  using depth_headers_json [of "Headers r"] by (auto simp: Record_json_def)

section \<open>Decoding the encoding\<close>

lemma dec_bytes_json [codec_simps]: "dec_bytes old (bytes_json b) = Some b"
  by (auto simp: dec_bytes_def bytes_json_def json_unquote_plain [OF b64_encode_ascii] b64_roundtrip
      split: option.splits)

lemma dec_entries_all:
  assumes "\<And>k. k \<in> set ks \<Longrightarrow> valid_utf8 k \<and> valid_utf8 (f k)"
  shows "dec_entries (map (\<lambda>k. (json_escape k, JStr (json_escape (f k)))) ks) h
    = Some (fold (\<lambda>k. fmupd k (f k)) ks h)"
  using assms by (induction ks arbitrary: h) (simp_all add: dec_string_def unquote_escape)

lemma fmlookup_fold_fmupd:
  "fmlookup (fold (\<lambda>k. fmupd k (f k)) ks h) x = (if x \<in> set ks then Some (f x) else fmlookup h x)"
  by (induction ks arbitrary: h) auto

lemma fold_sorted_keys: "fold (\<lambda>k. fmupd k (map_get d m k)) (sorted_keys m) fmempty = m"
  by (rule fmap_ext)
    (auto simp: fmlookup_fold_fmupd map_get_def fmlookup_dom'_iff split: option.splits)

lemma dec_headers_json [codec_simps]:
  assumes "fmpred (\<lambda>k v. valid_utf8 k \<and> valid_utf8 v) h"
  shows "dec_string_map fmempty (headers_json h) = Some h"
proof -
  have "valid_utf8 k \<and> valid_utf8 (map_get [] h k)" if "k \<in> set (sorted_keys h)" for k
    using that assms by (auto simp: map_get_def fmlookup_dom'_iff dest: fmpredD)
  from dec_entries_all [of "sorted_keys h" "map_get [] h" fmempty, OF this] show ?thesis
    by (simp add: dec_string_map_def headers_json_def fold_sorted_keys)
qed

lemma unquote_fields [simp]:
  "json_unquote ''key'' = Some ''key''" "json_unquote ''value'' = Some ''value''"
  "json_unquote ''headers'' = Some ''headers''" "json_unquote ''timestamp'' = Some ''timestamp''"
  "json_unquote ''offset'' = Some ''offset''"
  by (rule json_unquote_plain, simp)+

lemma dec_Record_json:
  assumes "Record_ok r" "time_MarshalText (Timestamp r) = Some ts"
  shows "dec_Record Record_zero (Record_json ts r) = Some r"
proof -
  have "dec_time 0 (JStr ts) = Some (Timestamp r)" "dec_int64 0 (JNum (fmt_d (Offset r))) = Some (Offset r)"
    using assms by (auto simp: dec_time_def dec_int64_def Record_ok_def time_text_roundtrip)
  with assms(1) show ?thesis
    by (auto simp: dec_Record_def Record_json_def Record_zero_def dec_Record_member_def field_of_def
        Record_fields_def Record_ok_def codec_simps)
qed

lemma record_roundtrip:
  assumes "Record_ok r" "json_Marshal_Record r = Some b"
  shows "json_Unmarshal_Record b = Some r"
proof -
  obtain ts where ts: "time_MarshalText (Timestamp r) = Some ts" and b: "b = json_text (Record_json ts r)"
    using assms(2) by (auto simp: json_Marshal_Record_def split: option.splits)
  have "json_depth (Record_json ts r) \<le> 10000"
    using depth_Record_json [of ts r] by simp
  then show ?thesis
    using json_parse_text [OF wf_Record_json [OF ts]] dec_Record_json [OF assms(1) ts]
    by (simp add: json_Unmarshal_Record_def b)
qed

lemma marshal_ok_iff: "json_Marshal_Record r \<noteq> None \<longleftrightarrow> time_MarshalText (Timestamp r) \<noteq> None"
  by (simp add: json_Marshal_Record_def split: option.split)

section \<open>Properties\<close>

text \<open>C19. Encoding a record as JSON and decoding it gives the record back: keys and values with any bytes
  (nil and empty kept apart), any UTF-8 headers, any representable time, any \<^verbatim>\<open>int64\<close> offset; encoding
  fails exactly when the timestamp's year is outside 0 to 9999.\<close>

theorem record_json_roundtrip:
  assumes "Record_ok r"
  shows "(json_Marshal_Record r = None \<longleftrightarrow> time_Year (Timestamp r) < 0 \<or> 9999 < time_Year (Timestamp r)) \<and>
    (\<forall>b. json_Marshal_Record r = Some b \<longrightarrow> json_Unmarshal_Record b = Some r)"
proof
  show "json_Marshal_Record r = None \<longleftrightarrow> time_Year (Timestamp r) < 0 \<or> 9999 < time_Year (Timestamp r)"
    by (auto simp: json_Marshal_Record_def time_MarshalText_def time_Year_def Let_def split: option.splits prod.splits if_splits)
qed (use record_roundtrip [OF assms] in blast)

theorem record_json_roundtrip_witness:
  "\<exists>b. json_Marshal_Record \<lparr> Key = Some [], Value = None, Headers = fmempty, Timestamp = 5, Offset = - 1 \<rparr> = Some b \<and>
    json_Unmarshal_Record b = Some \<lparr> Key = Some [], Value = None, Headers = fmempty, Timestamp = 5, Offset = - 1 \<rparr>"
proof -
  let ?r = "\<lparr> Key = Some [], Value = None, Headers = fmempty, Timestamp = 5, Offset = - 1 \<rparr>"
  have "Record_ok ?r" by (simp add: Record_ok_def int64_range_def)
  moreover have "time_Year 5 = 1" by code_simp
  ultimately show ?thesis using record_json_roundtrip [of ?r] by (cases "json_Marshal_Record ?r") simp_all
qed

end
