(* ===== verification/Go_Http.thy ===== *)
theory Go_Http
  imports Go_Strings Go_Float Broker_Record
begin

text \<open>
  The part of \<^verbatim>\<open>net/http\<close> and \<^verbatim>\<open>encoding/json\<close> the handlers use: a request as it reaches a handler, the answer a
  handler writes, the routing of \<^verbatim>\<open>ServeMux\<close> for patterns without wildcards, and decoding a body into a struct.
\<close>

section \<open>Requests\<close>

text \<open>
  A request: the path of its URL in escaped form, the query parameters in order, the header under canonical
  names, the bytes of the body.
\<close>

record request =
  rq_Method :: string
  rq_EscapedPath :: string
  rq_Query :: "(string \<times> string) list"
  rq_Header :: "(string \<times> string) list"
  rq_Body :: bytes

definition first_value :: "(string \<times> string) list \<Rightarrow> string \<Rightarrow> string" where
  "first_value kvs k = (case map_of kvs k of None \<Rightarrow> [] | Some v \<Rightarrow> v)"

definition Query_Get :: "request \<Rightarrow> string \<Rightarrow> string" where
  "Query_Get r k = first_value (rq_Query r) k"

definition Header_Get :: "request \<Rightarrow> string \<Rightarrow> string" where
  "Header_Get r k = first_value (rq_Header r) k"

text \<open>Percent-decoding of a path that is in escaped form.\<close>

fun PathUnescape :: "string \<Rightarrow> string" where
  "PathUnescape (c # a # b # s) =
     (case (hex_val a, hex_val b) of
        (Some x, Some y) \<Rightarrow> if c = CHR ''%'' then char_of (16 * x + y) # PathUnescape s else c # PathUnescape (a # b # s)
      | _ \<Rightarrow> c # PathUnescape (a # b # s))"
| "PathUnescape s = s"

definition URL_Path :: "request \<Rightarrow> string" where
  "URL_Path r = PathUnescape (rq_EscapedPath r)"

section \<open>Answers\<close>

text \<open>
  The body of an answer: text, the message of an error, a JSON document (none if encoding failed), raw bytes,
  bytes that were sent before an error, a redirection, or nothing because the handler panicked and the server dropped the connection.
\<close>

datatype body =
    Text string
  | Message go_error
  | Document "json option"
  | Raw bytes
  | Partial bytes go_error
  | Moved string
  | Dropped

record response =
  rs_Status :: nat
  rs_Body :: body

definition http_Error :: "string \<Rightarrow> nat \<Rightarrow> response" where
  "http_Error msg code = \<lparr> rs_Status = code, rs_Body = Text (msg @ [CHR 0x0A]) \<rparr>"

text \<open>\<^verbatim>\<open>http.Error(w, err.Error(), code)\<close>; the error value that stands for a panic never reaches this call.\<close>

definition http_Fail :: "go_error \<Rightarrow> nat \<Rightarrow> response" where
  "http_Fail err code =
     (case err of
        ErrPanic m \<Rightarrow> \<lparr> rs_Status = 0, rs_Body = Dropped \<rparr>
      | _ \<Rightarrow> \<lparr> rs_Status = code, rs_Body = Message err \<rparr>)"

definition json_str :: "string \<Rightarrow> json" where
  "json_str s = JStr (json_escape s)"

definition json_int :: "int \<Rightarrow> json" where
  "json_int i = JNum (fmt_d i)"

text \<open>A Go map as a document: the keys in order.\<close>

definition json_map :: "(string \<times> json) list \<Rightarrow> json" where
  "json_map kvs = JObj (map (\<lambda>(k, v). (json_escape k, v)) (sort_key fst kvs))"

definition Record_doc :: "Record \<Rightarrow> json option" where
  "Record_doc r = map_option (\<lambda>ts. Record_json ts r) (time_MarshalText (Timestamp r))"

fun Records_docs :: "Record list \<Rightarrow> json list option" where
  "Records_docs [] = Some []"
| "Records_docs (r # rs) =
     (case (Record_doc r, Records_docs rs) of (Some d, Some ds) \<Rightarrow> Some (d # ds) | _ \<Rightarrow> None)"

section \<open>Request bodies\<close>

text \<open>\<^verbatim>\<open>ParseFloat\<close> on the text of a JSON number: the exact decimal, rounded; out of range is an error.\<close>

definition exponent_val :: "string \<Rightarrow> int" where
  "exponent_val s =
     (case s of
        [] \<Rightarrow> 0
      | c # t \<Rightarrow>
          if c = CHR ''-'' then - int (dec_val t) else if c = CHR ''+'' then int (dec_val t) else int (dec_val s))"

definition ParseFloat :: "string \<Rightarrow> float64 option" where
  "ParseFloat s =
     (let neg = take 1 s = ''-''; t = (if neg then drop 1 s else s);
          ip = takeWhile is_digit t; t1 = dropWhile is_digit t;
          fp = (if take 1 t1 = ''.'' then takeWhile is_digit (drop 1 t1) else []);
          t2 = (if take 1 t1 = ''.'' then dropWhile is_digit (drop 1 t1) else t1);
          (n, d) = ten_frac (dec_val (ip @ fp)) (exponent_val (drop 1 t2) - int (length fp))
      in case f_round neg n d of F_Fin s m e \<Rightarrow> Some (F_Fin s m e) | _ \<Rightarrow> None)"

definition dec_float64 :: "float64 \<Rightarrow> json \<Rightarrow> float64 option" where
  "dec_float64 old v = (case v of JNull \<Rightarrow> Some old | JNum s \<Rightarrow> ParseFloat s | _ \<Rightarrow> None)"

text \<open>
  Every struct a handler decodes into has some of these fields, each with its JSON name; the names a handler's
  struct has are an argument of the decoder, so the other fields keep their zero values.
\<close>

record payload =
  p_name :: string
  p_topic :: string
  p_key :: string
  p_value :: string
  p_headers :: "(string, string) fmap"
  p_producer_id :: string
  p_sequence :: int
  p_group :: string
  p_offset :: int
  p_duration_seconds :: int
  p_epoch :: int
  p_tx_id :: string
  p_query :: string
  p_latency_ms :: float64

definition payload_zero :: payload where
  "payload_zero = \<lparr> p_name = [], p_topic = [], p_key = [], p_value = [], p_headers = fmempty, p_producer_id = [],
     p_sequence = 0, p_group = [], p_offset = 0, p_duration_seconds = 0, p_epoch = 0, p_tx_id = [], p_query = [],
     p_latency_ms = f_zero False \<rparr>"

definition dec_field :: "string \<Rightarrow> json \<Rightarrow> payload \<Rightarrow> payload option" where
  "dec_field f v p =
     (if f = ''name'' then map_option (\<lambda>x. p\<lparr>p_name := x\<rparr>) (dec_string (p_name p) v)
      else if f = ''topic'' then map_option (\<lambda>x. p\<lparr>p_topic := x\<rparr>) (dec_string (p_topic p) v)
      else if f = ''key'' then map_option (\<lambda>x. p\<lparr>p_key := x\<rparr>) (dec_string (p_key p) v)
      else if f = ''value'' then map_option (\<lambda>x. p\<lparr>p_value := x\<rparr>) (dec_string (p_value p) v)
      else if f = ''headers'' then map_option (\<lambda>x. p\<lparr>p_headers := x\<rparr>) (dec_string_map (p_headers p) v)
      else if f = ''producer_id'' then map_option (\<lambda>x. p\<lparr>p_producer_id := x\<rparr>) (dec_string (p_producer_id p) v)
      else if f = ''sequence'' then map_option (\<lambda>x. p\<lparr>p_sequence := x\<rparr>) (dec_int64 (p_sequence p) v)
      else if f = ''group'' then map_option (\<lambda>x. p\<lparr>p_group := x\<rparr>) (dec_string (p_group p) v)
      else if f = ''offset'' then map_option (\<lambda>x. p\<lparr>p_offset := x\<rparr>) (dec_int64 (p_offset p) v)
      else if f = ''duration_seconds'' then map_option (\<lambda>x. p\<lparr>p_duration_seconds := x\<rparr>) (dec_int64 (p_duration_seconds p) v)
      else if f = ''epoch'' then map_option (\<lambda>x. p\<lparr>p_epoch := x\<rparr>) (dec_int64 (p_epoch p) v)
      else if f = ''tx_id'' then map_option (\<lambda>x. p\<lparr>p_tx_id := x\<rparr>) (dec_string (p_tx_id p) v)
      else if f = ''query'' then map_option (\<lambda>x. p\<lparr>p_query := x\<rparr>) (dec_string (p_query p) v)
      else map_option (\<lambda>x. p\<lparr>p_latency_ms := x\<rparr>) (dec_float64 (p_latency_ms p) v))"

fun dec_fields :: "string list \<Rightarrow> (string \<times> json) list \<Rightarrow> payload \<Rightarrow> payload option" where
  "dec_fields names [] p = Some p"
| "dec_fields names ((k, v) # ms) p =
     (case json_unquote k of
        None \<Rightarrow> None
      | Some key \<Rightarrow>
          (case field_of names key of
             None \<Rightarrow> dec_fields names ms p
           | Some f \<Rightarrow> (case dec_field f v p of None \<Rightarrow> None | Some p' \<Rightarrow> dec_fields names ms p')))"

text \<open>\<^verbatim>\<open>json.NewDecoder(r.Body).Decode(&req)\<close>; what follows the first value is not read.\<close>

definition Decode :: "string list \<Rightarrow> bytes \<Rightarrow> payload option" where
  "Decode names s =
     (case json_decode s of
        Some (JNull, _) \<Rightarrow> Some payload_zero
      | Some (JObj ms, _) \<Rightarrow> dec_fields names ms payload_zero
      | _ \<Rightarrow> None)"

section \<open>Routing\<close>

text \<open>
  \<^verbatim>\<open>ServeMux\<close> with patterns that are plain paths: an unclean path is redirected to its clean form, then the
  segments are unescaped one by one and compared with those of a pattern.
\<close>

definition cleanPath :: "string \<Rightarrow> string" where
  "cleanPath p =
     (if p = [] then ''/''
      else
        (let q = (if hd p = CHR ''/'' then p else CHR ''/'' # p); np = filepath_Clean q
         in if last q = CHR ''/'' \<and> np \<noteq> ''/'' then np @ ''/'' else np))"

definition segments_of :: "string \<Rightarrow> string list" where
  "segments_of p = map PathUnescape (split_char (CHR ''/'') p)"

definition route :: "(string \<times> 'h) list \<Rightarrow> string \<Rightarrow> 'h option" where
  "route pats p =
     map_option snd (find (\<lambda>(pat, h). split_char (CHR ''/'') pat = segments_of p) pats)"

definition NotFound :: response where
  "NotFound = http_Error ''404 page not found'' 404"

definition ServeMux :: "(string \<times> (request \<Rightarrow> 's \<Rightarrow> response \<times> 's)) list \<Rightarrow> request \<Rightarrow> 's \<Rightarrow> response \<times> 's" where
  "ServeMux pats r st =
     (let p = rq_EscapedPath r in
      if p = ''*'' then (\<lparr> rs_Status = 400, rs_Body = Text [] \<rparr>, st)
      else if rq_Method r \<noteq> ''CONNECT'' \<and> cleanPath p \<noteq> p
      then (\<lparr> rs_Status = 301, rs_Body = Moved (cleanPath p) \<rparr>, st)
      else case route pats p of None \<Rightarrow> (NotFound, st) | Some h \<Rightarrow> h r st)"

end
