(* ===== verification/Broker_Segment.thy ===== *)
theory Broker_Segment
  imports Broker_Record
begin

text \<open>
  The log segment of \<^verbatim>\<open>broker/types.go\<close>: length-prefixed JSON frames in \<^verbatim>\<open>segment.log\<close>, the offset
  and time indexes in memory and in \<^verbatim>\<open>segment.index\<close> and \<^verbatim>\<open>segment.timeindex\<close>.  Every operation
  takes the environment and the file system and returns the new file system and segment, so each
  early return of the code is a branch that keeps what was written so far.  Then: the 16-byte entry
  codec, the segment invariant, the abstract log a segment stands for, and what \<^verbatim>\<open>Append\<close>,
  \<^verbatim>\<open>ReadRange\<close> and reopening do to it under every pattern of input/output failures.
\<close>

section \<open>Index entries\<close>

definition int64ToBytes :: "int \<Rightarrow> bytes" where
  "int64ToBytes v = map (\<lambda>i. byte_of (signed_drop_bit (8 * (7 - i)) (word_of_int v :: 64 word))) [0..<8]"

definition bytesToInt64 :: "bytes \<Rightarrow> int" where
  "bytesToInt64 b = sint (foldl (\<lambda>v c. push_bit 8 v OR word_of_byte c) (0 :: 64 word) (take 8 b))"

record indexEntry =
  ie_Offset :: int
  ie_Position :: int

record timeIndexEntry =
  te_Timestamp :: int
  te_Offset :: int

definition encodeIndexEntry :: "indexEntry \<Rightarrow> bytes" where
  "encodeIndexEntry x = int64ToBytes (ie_Offset x) @ int64ToBytes (ie_Position x)"

definition encodeTimeEntry :: "timeIndexEntry \<Rightarrow> bytes" where
  "encodeTimeEntry x = int64ToBytes (te_Timestamp x) @ int64ToBytes (te_Offset x)"

text \<open>The slices \<^verbatim>\<open>data[i:i+16]\<close> of the loops \<^verbatim>\<open>for i := 0; i+16 <= len(data); i += 16\<close>.\<close>

function chunks16 :: "bytes \<Rightarrow> bytes list" where
  "chunks16 data = (if 16 \<le> length data then take 16 data # chunks16 (drop 16 data) else [])"
  by pat_completeness auto
termination by (relation "measure length") auto

declare chunks16.simps [simp del]

section \<open>Segments\<close>

record Segment =
  seg_Path :: string
  LogPath :: string
  IndexPath :: string
  TimeIndex :: string
  position :: int
  nextOffset :: int
  offsets :: "(int, int) fmap"
  timeOffsets :: "(int, int) fmap"

definition load_offset :: "bytes \<Rightarrow> Segment \<Rightarrow> Segment" where
  "load_offset chunk s =
     (let off = bytesToInt64 (take 8 chunk); pos = bytesToInt64 (drop 8 chunk);
          s' = s\<lparr>offsets := fmupd off pos (offsets s)\<rparr>
      in if nextOffset s' \<le> off then s'\<lparr>nextOffset := wrap64 (off + 1)\<rparr> else s')"

definition load_time :: "bytes \<Rightarrow> Segment \<Rightarrow> Segment" where
  "load_time chunk s =
     (let ts = bytesToInt64 (take 8 chunk); off = bytesToInt64 (drop 8 chunk)
      in s\<lparr>timeOffsets := fmupd ts off (timeOffsets s)\<rparr>)"

definition loadIndexes :: "env \<Rightarrow> fs \<Rightarrow> Segment \<Rightarrow> go_error + Segment" where
  "loadIndexes e fs s =
     (case os_ReadFile e (IndexPath s) fs of
        Inl err \<Rightarrow> if err = NotExist then Inr s else Inl (ErrOs err)
      | Inr data \<Rightarrow>
          (let s1 = fold load_offset (chunks16 data) s
           in case os_ReadFile e (TimeIndex s) fs of
                Inl err \<Rightarrow> if err = NotExist then Inr s1 else Inl (ErrOs err)
              | Inr timeData \<Rightarrow> Inr (fold load_time (chunks16 timeData) s1)))"

definition newSegment :: "env \<Rightarrow> string \<Rightarrow> int \<Rightarrow> fs \<Rightarrow> (go_error + Segment) \<times> fs" where
  "newSegment e path startOffset fs =
     (if \<not> os_ok e (Os_MkdirAll path) then (Inl (ErrOs (IOFault (Os_MkdirAll path))), fs)
      else
        let seg = \<lparr> seg_Path = path,
                    LogPath = filepath_Join [path, ''segment.log''],
                    IndexPath = filepath_Join [path, ''segment.index''],
                    TimeIndex = filepath_Join [path, ''segment.timeindex''],
                    position = 0, nextOffset = startOffset,
                    offsets = fmempty, timeOffsets = fmempty \<rparr>
        in case os_OpenCreate e (LogPath seg) fs of
             (Some err, fs1) \<Rightarrow> (Inl (ErrWrap ''open log'' (ErrOs err)), fs1)
           | (None, fs1) \<Rightarrow>
               if \<not> os_ok e (Os_Stat (LogPath seg))
               then (Inl (ErrWrap ''stat log'' (ErrOs (IOFault (Os_Stat (LogPath seg))))), fs1)
               else
                 let seg1 = seg\<lparr>position := int (length (map_get [] fs1 (LogPath seg)))\<rparr>
                 in case os_OpenCreate e (IndexPath seg1) fs1 of
                      (Some err, fs2) \<Rightarrow> (Inl (ErrWrap ''open index'' (ErrOs err)), fs2)
                    | (None, fs2) \<Rightarrow>
                        (case loadIndexes e fs2 seg1 of
                           Inl err \<Rightarrow> (Inl (ErrWrap ''load indexes'' err), fs2)
                         | Inr seg2 \<Rightarrow>
                             (Inr (if nextOffset seg2 < startOffset then seg2\<lparr>nextOffset := startOffset\<rparr> else seg2),
                              fs2)))"

definition index_entries :: "(int, int) fmap \<Rightarrow> indexEntry list" where
  "index_entries m = map (\<lambda>k. \<lparr> ie_Offset = k, ie_Position = map_get 0 m k \<rparr>) (sorted_keys m)"

definition time_entries :: "(int, int) fmap \<Rightarrow> timeIndexEntry list" where
  "time_entries m = map (\<lambda>k. \<lparr> te_Timestamp = k, te_Offset = map_get 0 m k \<rparr>) (sorted_keys m)"

definition persistIndexes :: "env \<Rightarrow> fs \<Rightarrow> Segment \<Rightarrow> os_error option \<times> fs" where
  "persistIndexes e fs s =
     (case os_WriteFile e (IndexPath s) (concat (map encodeIndexEntry (index_entries (offsets s)))) fs of
        (Some err, fs1) \<Rightarrow> (Some err, fs1)
      | (None, fs1) \<Rightarrow>
          os_WriteFile e (TimeIndex s) (concat (map encodeTimeEntry (time_entries (timeOffsets s)))) fs1)"

definition seg_Append :: "env \<Rightarrow> Record \<Rightarrow> fs \<Rightarrow> Segment \<Rightarrow> (go_error + int) \<times> fs \<times> Segment" where
  "seg_Append e record fs s =
     (case json_Marshal_Record record of
        None \<Rightarrow> (Inl (ErrWrap ''marshal record'' ErrJson), fs, s)
      | Some payload \<Rightarrow>
          let len = int (length payload); off = nextOffset s; pos = position s;
              prefix = PutUint32 (word_of_int len)
          in if len > 0xFFFFFFFF then (Inl (Err ''record exceeds max payload size''), fs, s)
             else case os_WriteAt e (LogPath s) pos prefix fs of
               (Some err, fs1) \<Rightarrow> (Inl (ErrWrap ''write length prefix'' (ErrOs err)), fs1, s)
             | (None, fs1) \<Rightarrow>
                 (case os_WriteAt e (LogPath s) (wrap64 (pos + 4)) payload fs1 of
                    (Some err, fs2) \<Rightarrow> (Inl (ErrWrap ''write payload'' (ErrOs err)), fs2, s)
                  | (None, fs2) \<Rightarrow>
                      let s1 = s\<lparr>offsets := fmupd off pos (offsets s),
                                 timeOffsets := fmupd (UnixNano (Timestamp record)) off (timeOffsets s),
                                 position := wrap64 (pos + (4 + len)),
                                 nextOffset := wrap64 (off + 1)\<rparr>
                      in case persistIndexes e fs2 s1 of
                           (Some err, fs3) \<Rightarrow> (Inl (ErrWrap ''persist index'' (ErrOs err)), fs3, s1)
                         | (None, fs3) \<Rightarrow> (Inr off, fs3, s1)))"

definition readByOffset :: "env \<Rightarrow> fs \<Rightarrow> Segment \<Rightarrow> int \<Rightarrow> go_error + Record" where
  "readByOffset e fs s off =
     (case fmlookup (offsets s) off of
        None \<Rightarrow> Inl (Err (''offset '' @ fmt_d off @ '' not found in segment''))
      | Some pos \<Rightarrow>
          (case os_ReadAt e (LogPath s) pos 4 fs of
             Inl err \<Rightarrow> Inl (ErrWrap ''read payload length'' (ErrOs err))
           | Inr sizeBuf \<Rightarrow>
               (case os_ReadAt e (LogPath s) (wrap64 (pos + 4)) (uint (Uint32 sizeBuf)) fs of
                  Inl err \<Rightarrow> Inl (ErrWrap ''read payload'' (ErrOs err))
                | Inr payload \<Rightarrow>
                    (case json_Unmarshal_Record payload of
                       None \<Rightarrow> Inl (ErrWrap ''unmarshal record'' ErrJson)
                     | Some rec \<Rightarrow> Inr rec))))"

fun read_keys :: "env \<Rightarrow> fs \<Rightarrow> Segment \<Rightarrow> int \<Rightarrow> int list \<Rightarrow> Record list \<Rightarrow> go_error + Record list" where
  "read_keys e fs s mx [] result = Inr result"
| "read_keys e fs s mx (off # keys) result =
     (if mx \<le> int (length result) then Inr result
      else case readByOffset e fs s off of
             Inl err \<Rightarrow> Inl err
           | Inr rec \<Rightarrow> read_keys e fs s mx keys (result @ [rec]))"

definition seg_ReadRange :: "env \<Rightarrow> fs \<Rightarrow> Segment \<Rightarrow> int \<Rightarrow> int \<Rightarrow> go_error + Record list" where
  "seg_ReadRange e fs s fromOffset mx =
     read_keys e fs s (if mx \<le> 0 then 100 else mx)
       (filter (\<lambda>off. fromOffset \<le> off) (sorted_keys (offsets s))) []"

section \<open>The entry codec\<close>

lemma byte_of_signed_drop:
  assumes "n \<le> 56"
  shows "byte_of (signed_drop_bit n (w :: 64 word)) = byte_of (drop_bit n w)"
proof -
  have "take_bit 8 (uint (signed_drop_bit n w)) = take_bit 8 (uint (drop_bit n w))"
    using assms by (auto intro!: bit_eqI simp: bit_simps split: if_splits)
  then show ?thesis
    unfolding byte_of_def by (metis char_of_take_bit_eq order_refl)
qed


lemma int64ToBytes_be: "int64ToBytes v = be_bytes 8 (word_of_int v :: 64 word)"
  by (simp add: int64ToBytes_def byte_of_signed_drop numeral_eq_Suc drop_bit_drop_bit upt_rec)

lemma length_int64ToBytes [simp]: "length (int64ToBytes v) = 8"
  by (simp add: int64ToBytes_def)

lemma bytesToInt64_be: "bytesToInt64 b = sint (be_word (take 8 b) :: 64 word)"
  by (simp add: bytesToInt64_def be_word_def)

lemma bytesToInt64_int64ToBytes [codec_simps]:
  "int64_range v \<Longrightarrow> bytesToInt64 (int64ToBytes v) = v"
  using wrap64_id [of v]
  by (simp add: bytesToInt64_be int64ToBytes_be be_word_be_bytes take_bit_word_eq_self wrap64_def)

lemma int64_range_bytesToInt64 [simp]: "int64_range (bytesToInt64 b)"
  using sint_ge [of "be_word (take 8 b) :: 64 word"] sint_lt [of "be_word (take 8 b) :: 64 word"]
  by (simp add: bytesToInt64_be int64_range_def)

text \<open>Files that are a sequence of fixed-size entries.\<close>

locale entry_codec =
  fixes enc :: "'a \<Rightarrow> bytes" and dec :: "bytes \<Rightarrow> 'a" and ok :: "'a \<Rightarrow> bool"
  assumes length_enc: "length (enc x) = 16"
    and dec_enc: "ok x \<Longrightarrow> dec (enc x) = x"
begin

lemma chunks16_concat: "length t < 16 \<Longrightarrow> chunks16 (concat (map enc xs) @ t) = map enc xs"
proof (induction xs)
  case Nil
  then show ?case by (simp add: chunks16.simps)
next
  case (Cons x xs)
  then show ?case
    by (subst chunks16.simps) (simp add: length_enc)
qed

lemma decode_all:
  assumes "list_all ok xs" "length t < 16"
  shows "map dec (chunks16 (concat (map enc xs) @ t)) = xs"
  using assms(1) by (simp add: chunks16_concat [OF assms(2)] list_all_iff dec_enc map_idI)

lemma chunks16_take: "chunks16 (take n (concat (map enc xs))) = map enc (take (n div 16) xs)"
proof (induction xs arbitrary: n)
  case Nil
  then show ?case by (simp add: chunks16.simps)
next
  case (Cons x xs)
  show ?case
  proof (cases "n < 16")
    case True
    then show ?thesis
      by (subst chunks16.simps) (simp add: length_enc)
  next
    case False
    then have n: "n div 16 = Suc ((n - 16) div 16)" by (simp add: le_div_geq)
    have "take n (concat (map enc (x # xs))) = enc x @ take (n - 16) (concat (map enc xs))"
      using False by (simp add: length_enc)
    then show ?thesis
      by (subst chunks16.simps) (simp add: length_enc Cons n)
  qed
qed

lemma length_file: "length (concat (map enc xs)) = 16 * length xs"
  by (induction xs) (simp_all add: length_enc)

end

definition decodeIndexEntry :: "bytes \<Rightarrow> indexEntry" where
  "decodeIndexEntry b = \<lparr> ie_Offset = bytesToInt64 (take 8 b), ie_Position = bytesToInt64 (drop 8 b) \<rparr>"

definition decodeTimeEntry :: "bytes \<Rightarrow> timeIndexEntry" where
  "decodeTimeEntry b = \<lparr> te_Timestamp = bytesToInt64 (take 8 b), te_Offset = bytesToInt64 (drop 8 b) \<rparr>"

definition indexEntry_ok :: "indexEntry \<Rightarrow> bool" where
  "indexEntry_ok x \<longleftrightarrow> int64_range (ie_Offset x) \<and> int64_range (ie_Position x)"

definition timeEntry_ok :: "timeIndexEntry \<Rightarrow> bool" where
  "timeEntry_ok x \<longleftrightarrow> int64_range (te_Timestamp x) \<and> int64_range (te_Offset x)"

interpretation offset_file: entry_codec encodeIndexEntry decodeIndexEntry indexEntry_ok
  by unfold_locales
    (auto simp: encodeIndexEntry_def decodeIndexEntry_def indexEntry_ok_def codec_simps)

interpretation time_file: entry_codec encodeTimeEntry decodeTimeEntry timeEntry_ok
  by unfold_locales
    (auto simp: encodeTimeEntry_def decodeTimeEntry_def timeEntry_ok_def codec_simps)

section \<open>The invariant and the log it represents\<close>

definition seg_data :: "fs \<Rightarrow> Segment \<Rightarrow> bytes" where
  "seg_data fs s = map_get [] fs (LogPath s)"

definition frame_len :: "bytes \<Rightarrow> int \<Rightarrow> int" where
  "frame_len log p = uint (Uint32 (take 4 (drop (nat p) log)))"

definition frame_payload :: "bytes \<Rightarrow> int \<Rightarrow> bytes" where
  "frame_payload log p = take (nat (frame_len log p)) (drop (nat p + 4) log)"

definition frame_ok :: "bytes \<Rightarrow> int \<Rightarrow> int \<Rightarrow> bool" where
  "frame_ok log lim p \<longleftrightarrow> 0 \<le> p \<and> p + 4 + frame_len log p \<le> lim \<and>
     json_Unmarshal_Record (frame_payload log p) \<noteq> None"

definition seg_wf :: "fs \<Rightarrow> Segment \<Rightarrow> bool" where
  "seg_wf fs s \<longleftrightarrow>
     LogPath s \<noteq> IndexPath s \<and> LogPath s \<noteq> TimeIndex s \<and> IndexPath s \<noteq> TimeIndex s \<and>
     0 \<le> position s \<and> position s \<le> int (length (seg_data fs s)) \<and> position s < 2 ^ 63 \<and>
     int64_range (nextOffset s) \<and>
     fmpred (\<lambda>k p. int64_range k \<and> k < nextOffset s \<and> frame_ok (seg_data fs s) (position s) p) (offsets s) \<and>
     fmpred (\<lambda>t k. int64_range t \<and> int64_range k) (timeOffsets s)"

definition seg_record :: "bytes \<Rightarrow> int \<Rightarrow> Record" where
  "seg_record log p = the (json_Unmarshal_Record (frame_payload log p))"

definition seg_log :: "fs \<Rightarrow> Segment \<Rightarrow> (int \<times> Record) list" where
  "seg_log fs s =
     map (\<lambda>k. (k, seg_record (seg_data fs s) (map_get 0 (offsets s) k))) (sorted_keys (offsets s))"

text \<open>Room for one more record in the 64-bit counters.\<close>

definition seg_room :: "Segment \<Rightarrow> bool" where
  "seg_room s \<longleftrightarrow> position s + 2 ^ 33 < 2 ^ 63 \<and> nextOffset s + 1 < 2 ^ 63"

lemma frame_len_nonneg [simp]: "0 \<le> frame_len log p"
  by (simp add: frame_len_def)

lemma frame_cong:
  assumes "take (nat lim) log' = take (nat lim) log" "frame_ok log lim p"
  shows "frame_len log' p = frame_len log p" and "frame_payload log' p = frame_payload log p"
    and "frame_ok log' lim p"
proof -
  have p: "0 \<le> p" "p + 4 + frame_len log p \<le> lim"
    using assms(2) by (auto simp: frame_ok_def)
  have "nat p + 4 \<le> nat lim" "nat p + 4 + nat (frame_len log p) \<le> nat lim"
    using p frame_len_nonneg [of log p] by linarith+
  then show *: "frame_len log' p = frame_len log p" "frame_payload log' p = frame_payload log p"
    using drop_take_cong [OF assms(1)] by (simp_all add: frame_len_def frame_payload_def)
  then show "frame_ok log' lim p"
    using assms(2) by (simp add: frame_ok_def)
qed

lemma seg_wf_frame_ok:
  "seg_wf fs s \<Longrightarrow> fmlookup (offsets s) k = Some p \<Longrightarrow>
    int64_range k \<and> k < nextOffset s \<and> frame_ok (seg_data fs s) (position s) p"
  by (auto simp: seg_wf_def dest: fmpredD)

text \<open>Only the committed prefix of the log file matters.\<close>

lemma seg_wf_prefix:
  assumes wf: "seg_wf fs s"
    and pre: "take (nat (position s)) (seg_data fs' s) = take (nat (position s)) (seg_data fs s)"
  shows "seg_wf fs' s" and "seg_log fs' s = seg_log fs s"
proof -
  have "length (take (nat (position s)) (seg_data fs' s)) = nat (position s)"
    unfolding pre using wf by (auto simp: seg_wf_def min_def)
  then have "position s \<le> int (length (seg_data fs' s))"
    using wf by (auto simp: seg_wf_def min_def split: if_splits)
  then show "seg_wf fs' s"
    using wf frame_cong(3) [OF pre] by (auto simp: seg_wf_def fmpred_iff)
  have "seg_record (seg_data fs' s) (map_get 0 (offsets s) k) = seg_record (seg_data fs s) (map_get 0 (offsets s) k)"
    if "k \<in> fmdom' (offsets s)" for k
    using that seg_wf_frame_ok [OF wf] frame_cong(2) [OF pre]
    by (auto simp: fmlookup_dom'_iff map_get_Some seg_record_def)
  then show "seg_log fs' s = seg_log fs s"
    by (simp add: seg_log_def)
qed

lemma seg_wf_other:
  assumes "seg_wf fs s" "fmlookup fs' (LogPath s) = fmlookup fs (LogPath s)"
  shows "seg_wf fs' s" "seg_log fs' s = seg_log fs s"
  using seg_wf_prefix [OF assms(1), of fs'] assms(2) by (simp_all add: seg_data_def map_get_def)

lemma os_WriteAt_prefix:
  assumes "os_WriteAt e p pos b fs = (r, fs')" "n \<le> nat pos" "n \<le> length (map_get [] fs p)"
  shows "take n (map_get [] fs' p) = take n (map_get [] fs p)"
  using assms by (auto simp: os_WriteAt_def Let_def take_write_at split: if_splits fault.splits)

lemma os_WriteAt_other:
  "os_WriteAt e p pos b fs = (r, fs') \<Longrightarrow> q \<noteq> p \<Longrightarrow> fmlookup fs' q = fmlookup fs q"
  by (auto simp: os_WriteAt_def Let_def split: if_splits fault.splits)

lemma os_WriteAt_length:
  "os_WriteAt e p pos b fs = (r, fs') \<Longrightarrow>
    length (map_get [] fs' p) \<le> max (length (map_get [] fs p)) (nat pos + length b)"
  by (auto simp: os_WriteAt_def Let_def length_write_at split: if_splits fault.splits)

lemma os_WriteAt_ok:
  "os_WriteAt e p pos b fs = (None, fs') \<Longrightarrow>
    map_get [] fs' p = write_at (map_get [] fs p) (nat pos) b \<and> 0 \<le> pos"
  by (auto simp: os_WriteAt_def Let_def split: if_splits fault.splits)

lemma os_WriteFile_other:
  "os_WriteFile e p b fs = (r, fs') \<Longrightarrow> q \<noteq> p \<Longrightarrow> fmlookup fs' q = fmlookup fs q"
  by (auto simp: os_WriteFile_def split: fault.splits)

lemma persistIndexes_other:
  assumes "persistIndexes e fs s = (r, fs')" "q \<noteq> IndexPath s" "q \<noteq> TimeIndex s"
  shows "fmlookup fs' q = fmlookup fs q"
  using assms by (auto simp: persistIndexes_def split: prod.splits option.splits) (metis os_WriteFile_other)+


section \<open>Appending\<close>

lemma read_frame:
  assumes "take (4 + length b) (drop p log) = PutUint32 (word_of_nat (length b)) @ b"
    and "length b < 2 ^ 32"
  shows "frame_len log (int p) = int (length b)" and "frame_payload log (int p) = b"
proof -
  have "take 4 (drop p log) = take 4 (take (4 + length b) (drop p log))"
    by (simp add: min_def)
  then have pre: "take 4 (drop p log) = PutUint32 (word_of_nat (length b))"
    unfolding assms(1) by simp
  have "Uint32 (PutUint32 (word_of_nat (length b)) @ []) = word_of_nat (length b)"
    by (rule Uint32_PutUint32)
  then have "frame_len log (int p) = uint (word_of_nat (length b) :: 32 word)"
    by (simp add: frame_len_def pre)
  then show len: "frame_len log (int p) = int (length b)"
    using assms(2) by (simp add: unsigned_of_nat take_bit_nat_eq_self of_nat_take_bit [symmetric])
  have "take (length b) (drop (p + 4) log) = drop 4 (take (4 + length b) (drop p log))"
    by (simp add: drop_take add.commute)
  also have "\<dots> = b"
    unfolding assms(1) by simp
  finally show "frame_payload log (int p) = b"
    by (simp add: frame_payload_def len)
qed

lemma write_frame:
  assumes "p \<le> length log"
  shows "take (4 + length b) (drop p (write_at (write_at log p (PutUint32 w)) (p + 4) b)) = PutUint32 w @ b"
    and "take p (write_at (write_at log p (PutUint32 w)) (p + 4) b) = take p log"
  using assms by (simp_all add: write_at_def min_def)

text \<open>Recording one more frame in the indexes appends one record to the log.\<close>

definition index_frame :: "int \<Rightarrow> int \<Rightarrow> Segment \<Rightarrow> Segment" where
  "index_frame ts len s =
     s\<lparr>offsets := fmupd (nextOffset s) (position s) (offsets s),
       timeOffsets := fmupd ts (nextOffset s) (timeOffsets s),
       position := wrap64 (position s + (4 + len)),
       nextOffset := wrap64 (nextOffset s + 1)\<rparr>"

lemma seg_room_arith:
  assumes "seg_wf fs s" "seg_room s" "len < 2 ^ 32"
  shows "wrap64 (position s + 4) = position s + 4"
    and "wrap64 (position s + (4 + int len)) = position s + 4 + int len"
    and "wrap64 (nextOffset s + 1) = nextOffset s + 1"
  using assms by (auto intro!: wrap64_id simp: seg_wf_def seg_room_def int64_range_def)

lemma index_frame_log:
  assumes wf: "seg_wf fs s" and room: "seg_room s" and len: "length b < 2 ^ 32"
    and frame: "take (4 + length b) (drop (nat (position s)) (seg_data fs s)) = PutUint32 (word_of_nat (length b)) @ b"
    and dec: "json_Unmarshal_Record b = Some r" and ts: "int64_range ts"
    and s': "s' = index_frame ts (int (length b)) s"
  shows "seg_wf fs s'" and "seg_log fs s' = seg_log fs s @ [(nextOffset s, r)]"
proof -
  let ?log = "seg_data fs s"
  have pos: "0 \<le> position s" "position s \<le> int (length ?log)"
    using wf by (auto simp: seg_wf_def)
  have fl: "frame_len ?log (position s) = int (length b)" and fp: "frame_payload ?log (position s) = b"
    using read_frame [OF frame len] pos by auto
  note arith = seg_room_arith [OF wf room len]
  have data: "seg_data fs s' = ?log"
    by (simp add: s' index_frame_def seg_data_def)
  have "length (take (4 + length b) (drop (nat (position s)) ?log)) = 4 + length b"
    unfolding frame by simp
  then have fits: "position s + 4 + int (length b) \<le> int (length ?log)"
    using pos by (auto simp: min_def split: if_splits)
  have grow: "frame_ok ?log (position s) p \<Longrightarrow> frame_ok ?log (position s + 4 + int (length b)) p" for p
    by (simp add: frame_ok_def)
  have new: "frame_ok ?log (position s + 4 + int (length b)) (position s)"
    using pos by (simp add: frame_ok_def fl fp dec)
  have "fmpred (\<lambda>k p. int64_range k \<and> k < nextOffset s + 1 \<and> frame_ok ?log (position s + 4 + int (length b)) p)
      (fmupd (nextOffset s) (position s) (offsets s))"
    using wf new seg_wf_frame_ok [OF wf] grow
    by (intro fmpredI) (fastforce simp: seg_wf_def split: if_splits)
  moreover have "fmpred (\<lambda>t k. int64_range t \<and> int64_range k) (fmupd ts (nextOffset s) (timeOffsets s))"
    using wf ts by (auto simp: seg_wf_def intro!: fmpred_upd)
  moreover have "int64_range (nextOffset s + 1)"
    using wf room by (simp add: seg_wf_def seg_room_def int64_range_def)
  moreover have "position s + 4 + int (length b) < 2 ^ 63"
    using room len by (simp add: seg_room_def)
  ultimately show "seg_wf fs s'"
    using wf fits pos by (simp add: seg_wf_def data) (simp add: s' index_frame_def arith)
  have "k < nextOffset s" if "k \<in> fmdom' (offsets s)" for k
    using that seg_wf_frame_ok [OF wf] by (auto simp: fmlookup_dom'_iff)
  moreover have "nextOffset s \<notin> fmdom' (offsets s)"
    using calculation by blast
  ultimately show "seg_log fs s' = seg_log fs s @ [(nextOffset s, r)]"
    by (simp add: seg_log_def data) (auto simp: s' index_frame_def sorted_keys_snoc seg_record_def fp dec)
qed


lemma UnixNano_range [simp]: "int64_range (UnixNano t)"
  by (simp add: UnixNano_def)

lemma append_written:
  assumes wf: "seg_wf fs s" and room: "seg_room s" and ok: "Record_ok r"
    and m: "json_Marshal_Record r = Some b" and len: "length b < 2 ^ 32"
    and w1: "os_WriteAt e (LogPath s) (position s) (PutUint32 (word_of_nat (length b))) fs = (None, fs1)"
    and w2: "os_WriteAt e (LogPath s) (position s + 4) b fs1 = (None, fs2)"
  shows "seg_wf fs2 (index_frame (UnixNano (Timestamp r)) (int (length b)) s)"
    and "seg_log fs2 (index_frame (UnixNano (Timestamp r)) (int (length b)) s) = seg_log fs s @ [(nextOffset s, r)]"
proof -
  have pos: "0 \<le> position s" "nat (position s) \<le> length (seg_data fs s)" "nat (position s + 4) = nat (position s) + 4"
    using wf by (auto simp: seg_wf_def)
  have data: "seg_data fs2 s =
      write_at (write_at (seg_data fs s) (nat (position s)) (PutUint32 (word_of_nat (length b)))) (nat (position s) + 4) b"
    using os_WriteAt_ok [OF w1] os_WriteAt_ok [OF w2] pos by (simp add: seg_data_def)
  have "seg_wf fs2 s" "seg_log fs2 s = seg_log fs s"
    using seg_wf_prefix [OF wf, of fs2] write_frame(2) [OF pos(2)] by (simp_all add: data)
  then show "seg_wf fs2 (index_frame (UnixNano (Timestamp r)) (int (length b)) s)"
    and "seg_log fs2 (index_frame (UnixNano (Timestamp r)) (int (length b)) s) = seg_log fs s @ [(nextOffset s, r)]"
    using index_frame_log [of fs2 s b r] room len write_frame(1) [OF pos(2), of b]
      record_roundtrip [OF ok m] by (simp_all add: data)
qed

definition append_failed :: "go_error + int \<Rightarrow> bool" where
  "append_failed res \<longleftrightarrow> (\<exists>err. res = Inl err)"

lemma index_frame_paths [simp]:
  "LogPath (index_frame ts n s) = LogPath s" "IndexPath (index_frame ts n s) = IndexPath s"
  "TimeIndex (index_frame ts n s) = TimeIndex s" "seg_Path (index_frame ts n s) = seg_Path s"
  by (simp_all add: index_frame_def)

lemma seg_Append_run:
  assumes wf: "seg_wf fs s" and room: "seg_room s"
    and run: "seg_Append e r fs s = (res, fs', s')"
  obtains (untouched) err where "res = Inl err" "s' = s"
      "take (nat (position s)) (seg_data fs' s) = take (nat (position s)) (seg_data fs s)"
      "length (seg_data fs' s) < length (seg_data fs s) + 2 ^ 33"
      "\<And>q. q \<noteq> LogPath s \<Longrightarrow> fmlookup fs' q = fmlookup fs q"
  | (written) b fs1 fs2 err where "json_Marshal_Record r = Some b" "length b < 2 ^ 32"
      "os_WriteAt e (LogPath s) (position s) (PutUint32 (word_of_nat (length b))) fs = (None, fs1)"
      "os_WriteAt e (LogPath s) (position s + 4) b fs1 = (None, fs2)"
      "length (seg_data fs2 s) < length (seg_data fs s) + 2 ^ 33"
      "\<And>q. q \<noteq> LogPath s \<Longrightarrow> fmlookup fs2 q = fmlookup fs q"
      "s' = index_frame (UnixNano (Timestamp r)) (int (length b)) s"
      "persistIndexes e fs2 s' = (err, fs')"
      "res = (case err of None \<Rightarrow> Inr (nextOffset s) | Some x \<Rightarrow> Inl (ErrWrap ''persist index'' (ErrOs x)))"
proof (cases "json_Marshal_Record r")
  case None
  then show ?thesis using run untouched by (auto simp: seg_Append_def)
next
  case (Some b)
  have pos: "nat (position s) \<le> length (map_get [] fs (LogPath s))"
    using wf by (auto simp: seg_wf_def seg_data_def)
  show ?thesis
  proof (cases "length b < 2 ^ 32")
    case False
    then have "0xFFFFFFFF < int (length b)" by simp
    then show ?thesis using run untouched Some by (auto simp: seg_Append_def Let_def)
  next
    case len: True
    then have len': "\<not> 0xFFFFFFFF < int (length b)" by simp
    note arith = seg_room_arith(1) [OF wf room len]
    obtain r1 fs1 where w1:
        "os_WriteAt e (LogPath s) (position s) (PutUint32 (word_of_nat (length b))) fs = (r1, fs1)"
      by (cases "os_WriteAt e (LogPath s) (position s) (PutUint32 (word_of_nat (length b))) fs") auto
    obtain r2 fs2 where w2: "os_WriteAt e (LogPath s) (position s + 4) b fs1 = (r2, fs2)"
      by (cases "os_WriteAt e (LogPath s) (position s + 4) b fs1") auto
    have p1: "take (nat (position s)) (seg_data fs1 s) = take (nat (position s)) (seg_data fs s)"
      using os_WriteAt_prefix [OF w1 order_refl pos] by (simp add: seg_data_def)
    have pos1: "nat (position s) \<le> length (seg_data fs1 s)"
      using arg_cong [OF p1, of length] pos by (simp add: seg_data_def min_def split: if_splits)
    have p2: "take (nat (position s)) (seg_data fs2 s) = take (nat (position s)) (seg_data fs s)"
      using os_WriteAt_prefix [OF w2, of "nat (position s)"] pos1 p1 by (simp add: seg_data_def)
    have "length (seg_data fs1 s) \<le> length (seg_data fs s) + 4"
      using os_WriteAt_length [OF w1] pos by (simp add: seg_data_def)
    moreover from this have "length (seg_data fs2 s) \<le> length (seg_data fs s) + 4 + length b"
      using os_WriteAt_length [OF w2] pos by (simp add: seg_data_def)
    ultimately have size: "length (seg_data fs1 s) < length (seg_data fs s) + 2 ^ 33"
        "length (seg_data fs2 s) < length (seg_data fs s) + 2 ^ 33"
      using len by simp_all
    have other: "fmlookup fs1 q = fmlookup fs q \<and> fmlookup fs2 q = fmlookup fs q" if "q \<noteq> LogPath s" for q
      using os_WriteAt_other [OF w1 that] os_WriteAt_other [OF w2 that] by simp
    note run' = run [unfolded seg_Append_def Let_def arith, simplified Some option.case if_not_P [OF len']
        of_int_of_nat_eq w1 prod.case]
    show ?thesis
    proof (cases "r1 = None \<and> r2 = None")
      case True
      then show ?thesis using run' written [OF Some len] w1 w2 size other
        by (auto simp: index_frame_def split: prod.splits option.splits)
    next
      case False
      then show ?thesis using run' untouched w2 p1 p2 size other
        by (auto split: option.splits)
    qed
  qed
qed

lemma append_visible:
  assumes wf: "seg_wf fs s" and room: "seg_room s" and ok: "Record_ok r"
    and run: "seg_Append e r fs s = (res, fs', s')"
  shows "seg_wf fs' s'"
    and "seg_log fs' s' = seg_log fs s \<and> append_failed res \<and> s' = s \<or>
      seg_log fs' s' = seg_log fs s @ [(nextOffset s, r)] \<and> nextOffset s' = nextOffset s + 1 \<and>
        (res = Inr (nextOffset s) \<or> append_failed res)"
proof -
  have "seg_wf fs' s' \<and> (seg_log fs' s' = seg_log fs s \<and> append_failed res \<and> s' = s \<or>
      seg_log fs' s' = seg_log fs s @ [(nextOffset s, r)] \<and> nextOffset s' = nextOffset s + 1 \<and>
        (res = Inr (nextOffset s) \<or> append_failed res))"
    using wf room run
  proof (cases rule: seg_Append_run)
    case (untouched err)
    from seg_wf_prefix [OF wf untouched(3)] untouched(1,2) show ?thesis
      by (simp add: append_failed_def)
  next
    case (written b fs1 fs2 err)
    have sep: "LogPath s \<noteq> IndexPath s" "LogPath s \<noteq> TimeIndex s"
      using wf by (simp_all add: seg_wf_def)
    note w = append_written [OF wf room ok written(1-4), folded written(7)]
    have "fmlookup fs' (LogPath s') = fmlookup fs2 (LogPath s')"
      using persistIndexes_other [OF written(8)] sep by (simp add: written(7))
    from seg_wf_other [OF w(1) this] w(2)
    have "seg_wf fs' s' \<and> seg_log fs' s' = seg_log fs s @ [(nextOffset s, r)]"
      by simp
    moreover have "nextOffset s' = nextOffset s + 1"
      using seg_room_arith(3) [OF wf room written(2)] by (simp add: written(7) index_frame_def)
    ultimately show ?thesis
      using written(9) by (auto simp: append_failed_def split: option.splits)
  qed
  then show "seg_wf fs' s'" and "seg_log fs' s' = seg_log fs s \<and> append_failed res \<and> s' = s \<or>
      seg_log fs' s' = seg_log fs s @ [(nextOffset s, r)] \<and> nextOffset s' = nextOffset s + 1 \<and>
        (res = Inr (nextOffset s) \<or> append_failed res)"
    by auto
qed

lemma os_WriteAt_quiet: "quiet e \<Longrightarrow> 0 \<le> pos \<Longrightarrow> \<exists>fs'. os_WriteAt e p pos b fs = (None, fs')"
  by (simp add: os_WriteAt_def)

lemma os_WriteFile_quiet [simp]: "quiet e \<Longrightarrow> os_WriteFile e p b fs = (None, fmupd p b fs)"
  by (simp add: os_WriteFile_def)

lemma seg_Append_quiet:
  assumes wf: "seg_wf fs s" and room: "seg_room s" and e: "quiet e"
    and m: "json_Marshal_Record r = Some b" and len: "length b < 2 ^ 32"
  shows "\<exists>fs' s'. seg_Append e r fs s = (Inr (nextOffset s), fs', s')"
proof -
  have pos: "0 \<le> position s" using wf by (simp add: seg_wf_def)
  obtain fs1 where w1: "os_WriteAt e (LogPath s) (position s) (PutUint32 (word_of_nat (length b))) fs = (None, fs1)"
    using os_WriteAt_quiet [OF e pos] by blast
  obtain fs2 where w2: "os_WriteAt e (LogPath s) (position s + 4) b fs1 = (None, fs2)"
    using os_WriteAt_quiet [OF e, of "position s + 4"] pos by fastforce
  have "\<not> 0xFFFFFFFF < int (length b)" using len by simp
  then show ?thesis
    using e by (simp add: seg_Append_def m Let_def w1 w2 seg_room_arith(1) [OF wf room len] persistIndexes_def)
qed

section \<open>Reading\<close>

lemma frame_in_file:
  assumes wf: "seg_wf fs s" and p: "fmlookup (offsets s) k = Some p"
  shows "0 \<le> p" and "p + 4 \<le> int (length (seg_data fs s))"
    and "p + 4 + frame_len (seg_data fs s) p \<le> int (length (seg_data fs s))"
    and "wrap64 (p + 4) = p + 4" and "nat (p + 4) = nat p + 4"
proof -
  have f: "frame_ok (seg_data fs s) (position s) p" and pos: "position s \<le> int (length (seg_data fs s))" "position s < 2 ^ 63"
    using seg_wf_frame_ok [OF wf p] wf by (auto simp: seg_wf_def)
  then have r: "0 \<le> p" "p + 4 + frame_len (seg_data fs s) p \<le> position s"
    by (auto simp: frame_ok_def)
  then show "0 \<le> p" "nat (p + 4) = nat p + 4" by simp_all
  show "p + 4 \<le> int (length (seg_data fs s))" "p + 4 + frame_len (seg_data fs s) p \<le> int (length (seg_data fs s))"
    using r(2) pos(1) frame_len_nonneg [of "seg_data fs s" p] by linarith+
  show "wrap64 (p + 4) = p + 4"
    using r pos(2) frame_len_nonneg [of "seg_data fs s" p]
    by (intro wrap64_id) (simp add: int64_range_def del: frame_len_nonneg)
qed

lemma readByOffset_correct:
  assumes wf: "seg_wf fs s" and p: "fmlookup (offsets s) k = Some p"
  shows "(case readByOffset e fs s k of Inl _ \<Rightarrow> \<not> quiet e | Inr r \<Rightarrow> r = seg_record (seg_data fs s) p)"
proof -
  note b = frame_in_file [OF wf p]
  have f: "frame_ok (seg_data fs s) (position s) p" using seg_wf_frame_ok [OF wf p] by simp
  have r1: "os_ReadAt e (LogPath s) p 4 fs =
      (if os_ok e (Os_ReadAt (LogPath s) p 4) then Inr (take 4 (drop (nat p) (seg_data fs s)))
       else Inl (IOFault (Os_ReadAt (LogPath s) p 4)))"
    using b(1,2) by (simp add: os_ReadAt_def Let_def flip: seg_data_def)
  have r2: "os_ReadAt e (LogPath s) (p + 4) (frame_len (seg_data fs s) p) fs =
      (if os_ok e (Os_ReadAt (LogPath s) (p + 4) (frame_len (seg_data fs s) p)) then Inr (frame_payload (seg_data fs s) p)
       else Inl (IOFault (Os_ReadAt (LogPath s) (p + 4) (frame_len (seg_data fs s) p))))"
    using b(1,3,5) by (simp add: os_ReadAt_def frame_payload_def Let_def flip: seg_data_def)
  show ?thesis
    using f r2 by (auto simp: readByOffset_def p b(4) r1 frame_len_def [symmetric] frame_ok_def seg_record_def
        split: sum.splits option.splits if_splits)
qed

lemma read_keys_correct:
  assumes wf: "seg_wf fs s" and ks: "set ks \<subseteq> fmdom' (offsets s)"
  shows "(case read_keys e fs s mx ks acc of
      Inl _ \<Rightarrow> \<not> quiet e
    | Inr rs \<Rightarrow> rs = acc @ take (nat (mx - int (length acc)))
        (map (\<lambda>k. seg_record (seg_data fs s) (map_get 0 (offsets s) k)) ks))"
  using ks
proof (induction ks arbitrary: acc)
  case (Cons k ks)
  obtain p where p: "fmlookup (offsets s) k = Some p"
    using Cons.prems by (auto simp: fmlookup_dom'_iff)
  have n: "nat (mx - int (length acc)) = Suc (nat (mx - int (length acc) - 1))" if "\<not> mx \<le> int (length acc)"
    using that by simp
  show ?case
  proof (cases "readByOffset e fs s k")
    case (Inl err)
    then show ?thesis using readByOffset_correct [OF wf p, of e] by simp
  next
    case (Inr r)
    then have "r = seg_record (seg_data fs s) p"
      using readByOffset_correct [OF wf p, of e] by simp
    then show ?thesis
      using Cons.IH [of "acc @ [r]"] Cons.prems Inr n p
      by (cases "mx \<le> int (length acc)") (auto simp: map_get_Some diff_diff_eq add.commute split: sum.splits)
  qed
qed simp

lemma filter_seg_log:
  "map snd (filter (\<lambda>x. from \<le> fst x) (seg_log fs s)) =
   map (\<lambda>k. seg_record (seg_data fs s) (map_get 0 (offsets s) k)) (filter (\<lambda>k. from \<le> k) (sorted_keys (offsets s)))"
  by (simp add: seg_log_def filter_map comp_def)

lemma ReadRange_correct:
  assumes "seg_wf fs s"
  shows "(case seg_ReadRange e fs s from mx of
      Inl _ \<Rightarrow> \<not> quiet e
    | Inr rs \<Rightarrow> rs = take (nat (if mx \<le> 0 then 100 else mx)) (map snd (filter (\<lambda>x. from \<le> fst x) (seg_log fs s))))"
proof -
  have "set (filter (\<lambda>k. from \<le> k) (sorted_keys (offsets s))) \<subseteq> fmdom' (offsets s)" by auto
  from read_keys_correct [OF assms this, where e = e and mx = "if mx \<le> 0 then 100 else mx" and acc = "[]"] show ?thesis
    by (cases "mx \<le> 0") (auto simp: seg_ReadRange_def filter_seg_log split: sum.splits)
qed


lemma sorted_seg_log: "sorted (map fst (seg_log fs s)) \<and> distinct (map fst (seg_log fs s))"
  by (simp add: seg_log_def comp_def)

section \<open>Reopening\<close>

text \<open>A segment that lives in a directory, with the index files holding its indexes.\<close>

definition seg_at :: "string \<Rightarrow> Segment \<Rightarrow> bool" where
  "seg_at path s \<longleftrightarrow> seg_Path s = path \<and> LogPath s = filepath_Join [path, ''segment.log''] \<and>
     IndexPath s = filepath_Join [path, ''segment.index''] \<and>
     TimeIndex s = filepath_Join [path, ''segment.timeindex'']"

definition seg_synced :: "fs \<Rightarrow> Segment \<Rightarrow> bool" where
  "seg_synced fs s \<longleftrightarrow>
     fmlookup fs (IndexPath s) = Some (concat (map encodeIndexEntry (index_entries (offsets s)))) \<and>
     fmlookup fs (TimeIndex s) = Some (concat (map encodeTimeEntry (time_entries (timeOffsets s)))) \<and>
     fmlookup fs (LogPath s) \<noteq> None"

lemma plain_segment_names [simp]:
  "plain_name ''segment.log''" "plain_name ''segment.index''" "plain_name ''segment.timeindex''"
  by (simp_all add: plain_name_def)

lemma persistIndexes_synced:
  assumes "persistIndexes e fs s = (None, fs')" "IndexPath s \<noteq> TimeIndex s"
    and "LogPath s \<noteq> IndexPath s" "LogPath s \<noteq> TimeIndex s" "fmlookup fs (LogPath s) \<noteq> None"
  shows "seg_synced fs' s"
  using assms
  by (auto simp: persistIndexes_def os_WriteFile_def seg_synced_def split: fault.splits)

lemma load_offset_entry:
  "load_offset (encodeIndexEntry x) s =
     (let s' = s\<lparr>offsets := fmupd (wrap64 (ie_Offset x)) (wrap64 (ie_Position x)) (offsets s)\<rparr>
      in if nextOffset s \<le> wrap64 (ie_Offset x) then s'\<lparr>nextOffset := wrap64 (wrap64 (ie_Offset x) + 1)\<rparr> else s')"
proof -
  have "bytesToInt64 (int64ToBytes v) = wrap64 v" for v
    by (simp add: bytesToInt64_be int64ToBytes_be be_word_be_bytes take_bit_word_eq_self wrap64_def)
  then show ?thesis by (simp add: load_offset_def encodeIndexEntry_def Let_def)
qed

lemma load_offsets_fold:
  assumes "\<forall>k \<in> set ks. int64_range k \<and> k + 1 < 2 ^ 63 \<and> int64_range (f k)" "sorted ks"
  shows "fold load_offset (map (\<lambda>k. encodeIndexEntry \<lparr> ie_Offset = k, ie_Position = f k \<rparr>) ks) s =
     s\<lparr>offsets := fold (\<lambda>k. fmupd k (f k)) ks (offsets s),
       nextOffset := (if ks = [] then nextOffset s else max (nextOffset s) (last ks + 1))\<rparr>"
  using assms
proof (induction ks arbitrary: s)
  case (Cons k ks)
  then have k: "wrap64 k = k" "wrap64 (f k) = f k" "wrap64 (k + 1) = k + 1"
    by (auto simp: int64_range_def)
  have step: "load_offset (encodeIndexEntry \<lparr> ie_Offset = k, ie_Position = f k \<rparr>) s =
      s\<lparr>offsets := fmupd k (f k) (offsets s), nextOffset := max (nextOffset s) (k + 1)\<rparr>"
    by (cases s) (auto simp: load_offset_entry k Let_def max_def)
  have le: "k \<le> last ks" if "ks \<noteq> []"
    using Cons.prems(2) that by simp
  have "max (max (nextOffset s) (k + 1)) (last ks + 1) = max (nextOffset s) (last ks + 1)" if "ks \<noteq> []"
    using le [OF that] by linarith
  then show ?case
    using Cons by (simp add: step)
qed simp

lemma load_times_fold:
  assumes "\<forall>k \<in> set ks. int64_range k \<and> int64_range (f k)"
  shows "fold load_time (map (\<lambda>k. encodeTimeEntry \<lparr> te_Timestamp = k, te_Offset = f k \<rparr>) ks) s =
     s\<lparr>timeOffsets := fold (\<lambda>k. fmupd k (f k)) ks (timeOffsets s)\<rparr>"
  using assms
  by (induction ks arbitrary: s) (simp_all add: load_time_def encodeTimeEntry_def codec_simps)


lemma wf_index_range:
  assumes wf: "seg_wf fs s" and mem: "k \<in> set (sorted_keys (offsets s))"
  shows "int64_range k \<and> k + 1 < 2 ^ 63 \<and> int64_range (map_get 0 (offsets s) k)"
proof -
  obtain p where p: "fmlookup (offsets s) k = Some p"
    using mem by (auto simp: fmlookup_dom'_iff)
  have "0 \<le> p" "p < 2 ^ 63" "int64_range k" "k < nextOffset s" "int64_range (nextOffset s)"
    using seg_wf_frame_ok [OF wf p] wf frame_len_nonneg [of "seg_data fs s" p]
    by (auto simp: frame_ok_def seg_wf_def simp del: frame_len_nonneg)
  then show ?thesis
    by (auto simp: map_get_Some [OF p] int64_range_def)
qed

lemma load_indexes_synced:
  assumes wf: "seg_wf fs s" and sync: "seg_synced fs s" and e: "quiet e"
    and paths: "IndexPath s0 = IndexPath s" "TimeIndex s0 = TimeIndex s" "offsets s0 = fmempty" "timeOffsets s0 = fmempty"
  shows "loadIndexes e fs s0 = Inr (s0\<lparr>offsets := offsets s, timeOffsets := timeOffsets s,
     nextOffset := (if offsets s = fmempty then nextOffset s0
       else max (nextOffset s0) (last (sorted_keys (offsets s)) + 1))\<rparr>)"
proof -
  have off: "\<forall>k \<in> set (sorted_keys (offsets s)). int64_range k \<and> k + 1 < 2 ^ 63 \<and> int64_range (map_get 0 (offsets s) k)"
    using wf_index_range [OF wf] by blast
  have tim: "\<forall>k \<in> set (sorted_keys (timeOffsets s)). int64_range k \<and> int64_range (map_get 0 (timeOffsets s) k)"
    using wf unfolding seg_wf_def fmpred_iff by (auto simp: fmlookup_dom'_iff map_get_Some)
  have empty: "sorted_keys (offsets s) = [] \<longleftrightarrow> offsets s = fmempty"
    by (metis fmdom'_empty fmrestrict_set_dom fmrestrict_set_null set_empty2 set_sorted_keys sorted_keys_empty)
  have "chunks16 (concat (map encodeIndexEntry (index_entries (offsets s)))) = map encodeIndexEntry (index_entries (offsets s))"
    "chunks16 (concat (map encodeTimeEntry (time_entries (timeOffsets s)))) = map encodeTimeEntry (time_entries (timeOffsets s))"
    using offset_file.chunks16_concat [of "[]"] time_file.chunks16_concat [of "[]"] by simp_all
  then show ?thesis
    using sync e load_offsets_fold [of "sorted_keys (offsets s)" "map_get 0 (offsets s)" s0] off
      load_times_fold [OF tim]
    by (simp add: loadIndexes_def os_ReadFile_def paths seg_synced_def index_entries_def time_entries_def comp_def
        fold_sorted_keys empty)
qed


lemma newSegment_paths:
  "newSegment e path start fs = (Inr s, fs') \<Longrightarrow> seg_at path s"
proof -
  have load: "loadIndexes e fs s0 = Inr s1 \<Longrightarrow> seg_at path s0 \<Longrightarrow> seg_at path s1" for fs s0 s1
  proof -
    have "seg_at path (fold load_offset cs s) = seg_at path s" for cs s
      by (induction cs arbitrary: s) (simp_all add: load_offset_def seg_at_def Let_def)
    moreover have "seg_at path (fold load_time cs s) = seg_at path s" for cs s
      by (induction cs arbitrary: s) (simp_all add: load_time_def seg_at_def Let_def)
    ultimately show "loadIndexes e fs s0 = Inr s1 \<Longrightarrow> seg_at path s0 \<Longrightarrow> seg_at path s1"
      by (auto simp: loadIndexes_def Let_def split: sum.splits if_splits)
  qed
  show "newSegment e path start fs = (Inr s, fs') \<Longrightarrow> seg_at path s"
    by (auto simp: newSegment_def Let_def split: if_splits prod.splits option.splits sum.splits dest!: load)
      (auto simp: seg_at_def)
qed

section \<open>Crash consistency\<close>

text \<open>
  The complete entries of the index file are always a prefix of the index: \<^verbatim>\<open>os.WriteFile\<close> truncates
  and rewrites the file, so a failure leaves the old file, or a torn beginning of the new one.
\<close>

definition index_file :: "(int, int) fmap \<Rightarrow> bytes" where
  "index_file m = concat (map encodeIndexEntry (index_entries m))"

definition index_prefix :: "fs \<Rightarrow> Segment \<Rightarrow> nat \<Rightarrow> bool" where
  "index_prefix fs s m \<longleftrightarrow>
     chunks16 (map_get [] fs (IndexPath s)) = map encodeIndexEntry (take m (index_entries (offsets s)))"

definition seg_inv :: "fs \<Rightarrow> Segment \<Rightarrow> bool" where
  "seg_inv fs s \<longleftrightarrow> seg_wf fs s \<and> (\<exists>m. index_prefix fs s m)"

text \<open>Room for \<open>n\<close> more records, and the contents of a segment directory that is not open.\<close>

definition seg_budget :: "nat \<Rightarrow> fs \<Rightarrow> Segment \<Rightarrow> bool" where
  "seg_budget n fs s \<longleftrightarrow>
     int (length (seg_data fs s)) + int n * 2 ^ 33 < 2 ^ 63 \<and> nextOffset s + int n < 2 ^ 63"

lemma seg_budget_room: "seg_wf fs s \<Longrightarrow> seg_budget (Suc n) fs s \<Longrightarrow> seg_room s"
  by (auto simp: seg_budget_def seg_room_def seg_wf_def algebra_simps)

lemma index_entries_snoc:
  assumes "\<And>k'. k' \<in> fmdom' m \<Longrightarrow> k' < k"
  shows "index_entries (fmupd k p m) = index_entries m @ [\<lparr> ie_Offset = k, ie_Position = p \<rparr>]"
  using assms by (auto simp: index_entries_def sorted_keys_snoc [OF assms])

lemma take_prefix: "\<exists>k. take n xs = take k (xs @ ys)"
  by (metis append.right_neutral append_eq_conv_conj take_append take_take)

lemma index_prefix_take: "map_get [] fs (IndexPath s) = take n (index_file (offsets s)) \<Longrightarrow> \<exists>m. index_prefix fs s m"
  using offset_file.chunks16_take [of n "index_entries (offsets s)"] by (auto simp: index_prefix_def index_file_def)

lemma os_WriteFile_torn:
  assumes "os_WriteFile e p b fs = (r, fs')"
  shows "map_get [] fs' p = map_get [] fs p \<or> (\<exists>n. map_get [] fs' p = take n b)"
  using assms by (auto simp: os_WriteFile_def split: fault.splits) (metis take_all order_refl)

lemma persistIndexes_torn:
  assumes "persistIndexes e fs s = (r, fs')" "IndexPath s \<noteq> TimeIndex s"
  shows "map_get [] fs' (IndexPath s) = map_get [] fs (IndexPath s) \<or>
    (\<exists>n. map_get [] fs' (IndexPath s) = take n (index_file (offsets s)))"
proof -
  obtain r1 fs1 where w: "os_WriteFile e (IndexPath s) (index_file (offsets s)) fs = (r1, fs1)"
    by (cases "os_WriteFile e (IndexPath s) (index_file (offsets s)) fs") auto
  then have "fmlookup fs' (IndexPath s) = fmlookup fs1 (IndexPath s)"
    using assms by (auto simp: persistIndexes_def index_file_def split: option.splits intro: os_WriteFile_other)
  then show ?thesis
    using os_WriteFile_torn [OF w] by (simp add: map_get_def)
qed

lemma append_inv:
  assumes inv: "seg_inv fs s" and budget: "seg_budget (Suc n) fs s" and ok: "Record_ok r"
    and run: "seg_Append e r fs s = (res, fs', s')"
  shows "seg_inv fs' s'" and "seg_budget n fs' s'"
proof -
  have wf: "seg_wf fs s" using inv by (simp add: seg_inv_def)
  note room = seg_budget_room [OF wf budget]
  obtain i where i: "index_prefix fs s i"
    using inv by (auto simp: seg_inv_def)
  have sep: "LogPath s \<noteq> IndexPath s" "LogPath s \<noteq> TimeIndex s" "IndexPath s \<noteq> TimeIndex s"
    using wf by (simp_all add: seg_wf_def)
  have keys: "k < nextOffset s" if "k \<in> fmdom' (offsets s)" for k
    using that seg_wf_frame_ok [OF wf] by (auto simp: fmlookup_dom'_iff)
  note wf' = append_visible(1) [OF wf room ok run]
  have "(\<exists>m. index_prefix fs' s' m) \<and> seg_budget n fs' s'"
    using wf room run
  proof (cases rule: seg_Append_run)
    case (untouched err)
    then have "map_get [] fs' (IndexPath s) = map_get [] fs (IndexPath s)"
      using sep(1) by (simp add: map_get_def)
    then show ?thesis
      using untouched(2,4) i budget by (auto simp: seg_budget_def index_prefix_def algebra_simps)
  next
    case (written b fs1 fs2 err)
    have ext: "index_entries (offsets s') = index_entries (offsets s) @ [\<lparr> ie_Offset = nextOffset s, ie_Position = position s \<rparr>]"
      using index_entries_snoc [OF keys] by (simp add: written(7) index_frame_def)
    obtain k where k: "take i (index_entries (offsets s)) = take k (index_entries (offsets s'))"
      unfolding ext using take_prefix by metis
    have "map_get [] fs2 (IndexPath s') = map_get [] fs (IndexPath s)"
      using written(6) [of "IndexPath s"] sep(1) by (simp add: written(7) map_get_def)
    then have "\<exists>m. index_prefix fs2 s' m"
      using i k by (auto simp: index_prefix_def)
    then have "\<exists>m. index_prefix fs' s' m"
      using persistIndexes_torn [OF written(8)] sep(3) index_prefix_take [of fs' s'] by (auto simp: written(7) index_prefix_def)
    moreover have "fmlookup fs' (LogPath s) = fmlookup fs2 (LogPath s)"
      using persistIndexes_other [OF written(8)] sep by (simp add: written(7))
    then have "seg_data fs' s' = seg_data fs2 s"
      by (simp add: seg_data_def map_get_def written(7))
    moreover have "nextOffset s' = nextOffset s + 1"
      using seg_room_arith(3) [OF wf room written(2)] by (simp add: written(7) index_frame_def)
    ultimately show ?thesis
      using written(5) budget by (auto simp: seg_budget_def algebra_simps)
  qed
  then show "seg_inv fs' s'" and "seg_budget n fs' s'"
    using wf' by (auto simp: seg_inv_def)
qed

lemma seg_Append_other:
  assumes "seg_wf fs s" "seg_room s" "seg_Append e r fs s = (res, fs', s')"
    and "q \<noteq> LogPath s" "q \<noteq> IndexPath s" "q \<noteq> TimeIndex s"
  shows "fmlookup fs' q = fmlookup fs q"
  using assms(1-3)
proof (cases rule: seg_Append_run)
  case (untouched err)
  then show ?thesis using assms(4) by simp
next
  case (written b fs1 fs2 err)
  then show ?thesis
    using persistIndexes_other [OF written(8), of q] assms(4-6) by simp
qed

lemma seg_Append_paths:
  assumes "seg_wf fs s" "seg_room s" "seg_Append e r fs s = (res, fs', s')"
  shows "LogPath s' = LogPath s" "IndexPath s' = IndexPath s" "TimeIndex s' = TimeIndex s" "seg_at path s' = seg_at path s"
  using assms by (cases rule: seg_Append_run; simp add: seg_at_def)+


section \<open>Opening\<close>

lemma sorted_keys_fold:
  assumes "sorted ks" "distinct ks"
  shows "sorted_keys (fold (\<lambda>k. fmupd k (f k)) ks fmempty) = ks"
proof -
  have "fmdom' (fold (\<lambda>k. fmupd k (f k)) ks fmempty) = set ks"
    by (auto simp: fmlookup_dom'_iff fmlookup_fold_fmupd split: if_splits)
  then show ?thesis
    using assms by (simp add: sorted_keys_def sorted_list_of_set.idem_if_sorted_distinct)
qed

lemma map_get_fold: "k \<in> set ks \<Longrightarrow> map_get d (fold (\<lambda>k. fmupd k (f k)) ks m) k = f k"
  by (simp add: map_get_def fmlookup_fold_fmupd)

text \<open>The offset index restricted to its first entries.\<close>

definition index_take :: "nat \<Rightarrow> (int, int) fmap \<Rightarrow> (int, int) fmap" where
  "index_take m idx = fold (\<lambda>k. fmupd k (map_get 0 idx k)) (take m (sorted_keys idx)) fmempty"

lemma sorted_keys_index_take: "sorted_keys (index_take m idx) = take m (sorted_keys idx)"
  unfolding index_take_def
  by (rule sorted_keys_fold) (simp_all add: sorted_wrt_take distinct_take)

lemma index_entries_take: "index_entries (index_take m idx) = take m (index_entries idx)"
  unfolding index_entries_def sorted_keys_index_take take_map
  by (rule map_cong) (simp_all add: index_take_def map_get_fold)

lemma fmlookup_index_take: "fmlookup (index_take m idx) k = Some p \<Longrightarrow> fmlookup idx k = Some p"
  by (auto simp: index_take_def fmlookup_fold_fmupd map_get_def fmlookup_dom'_iff dest!: in_set_takeD split: if_splits option.splits)

lemma load_time_range:
  "fmpred (\<lambda>t k. int64_range t \<and> int64_range k) (timeOffsets s) \<Longrightarrow>
   fmpred (\<lambda>t k. int64_range t \<and> int64_range k) (timeOffsets (fold load_time cs s))"
  by (induction cs arbitrary: s) (simp_all add: load_time_def Let_def fmpred_upd)

lemma fold_load_time_same:
  "offsets (fold load_time cs s) = offsets s" "position (fold load_time cs s) = position s"
  "nextOffset (fold load_time cs s) = nextOffset s" "seg_at p (fold load_time cs s) = seg_at p s"
  by (induction cs arbitrary: s) (simp_all add: load_time_def Let_def seg_at_def)


lemma load_indexes_prefix:
  assumes wf: "seg_wf fs s" and idx: "index_prefix fs s m"
    and paths: "IndexPath s0 = IndexPath s" "offsets s0 = fmempty" "timeOffsets s0 = fmempty"
    and exist: "fmlookup fs (IndexPath s) \<noteq> None" and run: "loadIndexes e fs s0 = Inr s2"
  shows "offsets s2 = index_take m (offsets s)" and "position s2 = position s0"
    and "nextOffset s2 = (let ks = take m (sorted_keys (offsets s))
      in if ks = [] then nextOffset s0 else max (nextOffset s0) (last ks + 1))"
    and "fmpred (\<lambda>t k. int64_range t \<and> int64_range k) (timeOffsets s2)"
proof -
  let ?ks = "take m (sorted_keys (offsets s))"
  have off: "\<forall>k \<in> set ?ks. int64_range k \<and> k + 1 < 2 ^ 63 \<and> int64_range (map_get 0 (offsets s) k)"
    using wf_index_range [OF wf] by (auto dest!: in_set_takeD)
  define s1 where "s1 = s0\<lparr>offsets := index_take m (offsets s),
      nextOffset := (if ?ks = [] then nextOffset s0 else max (nextOffset s0) (last ?ks + 1))\<rparr>"
  have chunks: "chunks16 (map_get [] fs (IndexPath s)) =
      map (\<lambda>k. encodeIndexEntry \<lparr> ie_Offset = k, ie_Position = map_get 0 (offsets s) k \<rparr>) ?ks"
    using idx by (simp add: index_prefix_def index_entries_def take_map comp_def)
  have "sorted ?ks" by (simp add: sorted_wrt_take)
  then have "fold load_offset (chunks16 (map_get [] fs (IndexPath s))) s0 = s1"
    unfolding chunks by (subst load_offsets_fold [OF off]) (simp_all add: s1_def paths index_take_def)
  moreover obtain data where "fmlookup fs (IndexPath s) = Some data" using exist by auto
  ultimately have "\<exists>cs. s2 = fold load_time cs s1"
    using run by (auto simp: loadIndexes_def os_ReadFile_def paths map_get_def Let_def
        split: if_splits option.splits sum.splits intro: exI [of _ "[]"])
  then obtain cs where s2: "s2 = fold load_time cs s1" by blast
  have "timeOffsets s1 = fmempty" by (simp add: s1_def paths)
  with load_time_range [of s1 cs]
  show "fmpred (\<lambda>t k. int64_range t \<and> int64_range k) (timeOffsets s2)" by (simp add: s2)
  show "offsets s2 = index_take m (offsets s)" "position s2 = position s0"
    "nextOffset s2 = (let ks = take m (sorted_keys (offsets s))
      in if ks = [] then nextOffset s0 else max (nextOffset s0) (last ks + 1))"
    by (simp_all add: s2 fold_load_time_same s1_def)
qed


lemma seg_inv_cong:
  assumes "seg_inv fs s" "map_get [] fs' (LogPath s) = map_get [] fs (LogPath s)"
    "map_get [] fs' (IndexPath s) = map_get [] fs (IndexPath s)"
  shows "seg_inv fs' s" "seg_log fs' s = seg_log fs s" "seg_budget n fs' s = seg_budget n fs s"
  using assms seg_wf_prefix [of fs s fs'] by (simp_all add: seg_inv_def seg_data_def index_prefix_def seg_budget_def)

lemma os_OpenCreate_same: "os_OpenCreate e p fs = (r, fs') \<Longrightarrow> map_get [] fs' q = map_get [] fs q"
  by (auto simp: os_OpenCreate_def map_get_def split: if_splits)

lemma os_OpenCreate_exists: "os_OpenCreate e p fs = (None, fs') \<Longrightarrow> fmlookup fs' p \<noteq> None"
  by (auto simp: os_OpenCreate_def split: if_splits)

definition fresh_segment :: "string \<Rightarrow> int \<Rightarrow> int \<Rightarrow> Segment" where
  "fresh_segment path pos start =
     \<lparr> seg_Path = path, LogPath = filepath_Join [path, ''segment.log''],
       IndexPath = filepath_Join [path, ''segment.index''],
       TimeIndex = filepath_Join [path, ''segment.timeindex''],
       position = pos, nextOffset = start, offsets = fmempty, timeOffsets = fmempty \<rparr>"

lemma newSegment_run:
  assumes "newSegment e path start fs = (res, fs')"
  shows "map_get [] fs' q = map_get [] fs q"
    and "res = Inr s2 \<Longrightarrow> \<exists>s1. fmlookup fs' (filepath_Join [path, ''segment.index'']) \<noteq> None \<and>
      loadIndexes e fs' (fresh_segment path (int (length (map_get [] fs (filepath_Join [path, ''segment.log''])))) start) = Inr s1 \<and>
      s2 = (if nextOffset s1 < start then s1\<lparr>nextOffset := start\<rparr> else s1)"
proof -
  obtain r1 fs1 where o1: "os_OpenCreate e (filepath_Join [path, ''segment.log'']) fs = (r1, fs1)"
    by (cases "os_OpenCreate e (filepath_Join [path, ''segment.log'']) fs") auto
  obtain r2 fs2 where o2: "os_OpenCreate e (filepath_Join [path, ''segment.index'']) fs1 = (r2, fs2)"
    by (cases "os_OpenCreate e (filepath_Join [path, ''segment.index'']) fs1") auto
  note opened = os_OpenCreate_same [OF o1] os_OpenCreate_same [OF o2]
  show "map_get [] fs' q = map_get [] fs q"
    using assms opened
    by (cases r1; cases r2) (auto simp: newSegment_def Let_def o1 o2 split: if_splits sum.splits)
  assume "res = Inr s2"
  moreover have "r2 = None \<Longrightarrow> fmlookup fs2 (filepath_Join [path, ''segment.index'']) \<noteq> None"
    using o2 os_OpenCreate_exists by blast
  ultimately show "\<exists>s1. fmlookup fs' (filepath_Join [path, ''segment.index'']) \<noteq> None \<and>
      loadIndexes e fs' (fresh_segment path (int (length (map_get [] fs (filepath_Join [path, ''segment.log''])))) start) = Inr s1 \<and>
      s2 = (if nextOffset s1 < start then s1\<lparr>nextOffset := start\<rparr> else s1)"
    using assms opened
    by (cases r1; cases r2) (auto simp: newSegment_def Let_def o1 o2 fresh_segment_def split: if_splits sum.splits)
qed

lemma os_OpenCreate_quiet: "quiet e \<Longrightarrow> \<exists>fs'. os_OpenCreate e p fs = (None, fs')"
  by (simp add: os_OpenCreate_def)

lemma loadIndexes_quiet: "quiet e \<Longrightarrow> \<exists>s'. loadIndexes e fs s = Inr s'"
  by (simp add: loadIndexes_def os_ReadFile_def Let_def split: option.splits)

lemma newSegment_quiet:
  assumes e: "quiet e"
  shows "\<exists>s2 fs'. newSegment e path start fs = (Inr s2, fs')"
proof -
  obtain fs1 where o1: "os_OpenCreate e (filepath_Join [path, ''segment.log'']) fs = (None, fs1)"
    using os_OpenCreate_quiet [OF e] by blast
  obtain fs2 where o2: "os_OpenCreate e (filepath_Join [path, ''segment.index'']) fs1 = (None, fs2)"
    using os_OpenCreate_quiet [OF e] by blast
  obtain s' where "loadIndexes e fs2 (fresh_segment path
      (int (length (map_get [] fs1 (filepath_Join [path, ''segment.log''])))) start) = Inr s'"
    using loadIndexes_quiet [OF e] by blast
  then show ?thesis
    using e by (simp add: newSegment_def o1 o2 fresh_segment_def)
qed

text \<open>
  Opening a directory gives back the log the index file lists, at any point where an append may have
  failed or the process may have stopped.  The committed position becomes the size of the log file,
  past any torn frame.
\<close>

lemma newSegment_open:
  assumes inv: "seg_inv fs s" and at: "seg_at path s" and idx: "index_prefix fs s m"
    and size: "int (length (seg_data fs s)) < 2 ^ 63" and start: "int64_range start"
    and run: "newSegment e path start fs = (Inr s2, fs')"
  shows "seg_inv fs' s2" and "seg_log fs' s2 = take m (seg_log fs s)" and "seg_data fs' s2 = seg_data fs s"
    and "nextOffset s2 = (let ks = take m (sorted_keys (offsets s)) in if ks = [] then start else max start (last ks + 1))"
    and "offsets s2 = index_take m (offsets s)"
proof -
  note same = newSegment_run(1) [OF run] and at2 = newSegment_paths [OF run]
  have paths: "filepath_Join [path, ''segment.log''] = LogPath s" "filepath_Join [path, ''segment.index''] = IndexPath s"
      "filepath_Join [path, ''segment.timeindex''] = TimeIndex s"
    and paths2: "LogPath s2 = LogPath s" "IndexPath s2 = IndexPath s" "TimeIndex s2 = TimeIndex s"
    using at at2 by (simp_all add: seg_at_def)
  define s0 where "s0 = fresh_segment path (int (length (seg_data fs s))) start"
  obtain s1 where exist: "fmlookup fs' (IndexPath s) \<noteq> None" and load: "loadIndexes e fs' s0 = Inr s1"
    and s2: "s2 = (if nextOffset s1 < start then s1\<lparr>nextOffset := start\<rparr> else s1)"
    using newSegment_run(2) [OF run refl] by (auto simp: paths s0_def seg_data_def)
  have inv': "seg_inv fs' s" and idx': "index_prefix fs' s m" and data': "seg_data fs' s = seg_data fs s"
    and log': "seg_log fs' s = seg_log fs s"
    using seg_inv_cong [OF inv same same] idx by (simp_all add: same index_prefix_def seg_data_def)
  then have wf: "seg_wf fs' s" by (simp add: seg_inv_def)
  let ?ks = "take m (sorted_keys (offsets s))"
  have s0: "IndexPath s0 = IndexPath s" "offsets s0 = fmempty" "timeOffsets s0 = fmempty" "nextOffset s0 = start"
      "position s0 = int (length (seg_data fs s))"
    by (simp_all add: s0_def fresh_segment_def paths)
  note l = load_indexes_prefix [OF wf idx' s0(1-3) exist load]
  have nx1: "nextOffset s1 = (if ?ks = [] then start else max start (last ?ks + 1))"
    using l(3) by (simp add: s0(4) Let_def)
  then have "s2 = s1" by (simp add: s2)
  then show off: "offsets s2 = index_take m (offsets s)"
    and nx: "nextOffset s2 = (let ks = ?ks in if ks = [] then start else max start (last ks + 1))"
    using l(1) nx1 by simp_all
  show data: "seg_data fs' s2 = seg_data fs s" by (simp add: seg_data_def paths2 same)
  show "seg_log fs' s2 = take m (seg_log fs s)"
    unfolding seg_log_def data off sorted_keys_index_take take_map
    by (rule map_cong) (simp_all add: index_take_def map_get_fold)
  have "position s2 = int (length (seg_data fs s))"
    using l(2) \<open>s2 = s1\<close> by (simp add: s0(5))
  have bound: "k < nextOffset s2" if "fmlookup (offsets s2) k = Some p" for k p
  proof -
    have "k \<in> set (sorted_keys (offsets s2))" using that by (simp add: fmdom'I)
    then have k: "k \<in> set ?ks" by (simp only: off sorted_keys_index_take)
    then have "k \<le> last ?ks" by (intro sorted_le_last) (simp_all add: sorted_wrt_take)
    with k show ?thesis by (auto simp: nx Let_def)
  qed
  have frame: "frame_ok (seg_data fs s) (int (length (seg_data fs s))) p \<and> int64_range k"
    if "fmlookup (offsets s2) k = Some p" for k p
  proof -
    have "frame_ok (seg_data fs s) (position s) p" "int64_range k"
      using seg_wf_frame_ok [OF wf fmlookup_index_take [OF that [unfolded off]]] by (simp_all add: data')
    moreover have "position s \<le> int (length (seg_data fs s))"
      using wf by (simp add: seg_wf_def data')
    ultimately show ?thesis unfolding frame_ok_def by linarith
  qed
  have "int64_range (nextOffset s2)"
  proof (cases "?ks = []")
    case True
    then show ?thesis using start unfolding nx Let_def by (simp only: if_True refl)
  next
    case False
    have "int64_range (last ?ks) \<and> last ?ks + 1 < 2 ^ 63"
      using wf_index_range [OF wf in_set_takeD [OF last_in_set [OF False]]] by blast
    moreover have "nextOffset s2 = max start (last ?ks + 1)"
      using False unfolding nx Let_def by (simp only: if_False)
    ultimately show ?thesis
      using start unfolding int64_range_def by linarith
  qed
  moreover have "fmpred (\<lambda>t k. int64_range t \<and> int64_range k) (timeOffsets s2)"
    using l(4) \<open>s2 = s1\<close> by simp
  moreover have "fmpred (\<lambda>k p. int64_range k \<and> k < nextOffset s2 \<and> frame_ok (seg_data fs s) (position s2) p) (offsets s2)"
    using bound frame \<open>position s2 = int (length (seg_data fs s))\<close> by (intro fmpredI) simp
  ultimately have "seg_wf fs' s2"
    using wf size \<open>position s2 = int (length (seg_data fs s))\<close> unfolding seg_wf_def data paths2 by simp
  moreover have "index_prefix fs' s2 m"
    using idx' by (simp add: index_prefix_def paths2 off index_entries_take)
  ultimately show "seg_inv fs' s2" by (auto simp: seg_inv_def)
qed

definition offsets_list :: "Segment \<Rightarrow> int list" where
  "offsets_list s = sorted_keys (offsets s)"

lemma append_acked:
  assumes wf: "seg_wf fs s" and room: "seg_room s" and run: "seg_Append e r fs s = (Inr k, fs', s')"
  shows "index_prefix fs' s' (length (offsets_list s'))"
  using wf room run
proof (cases rule: seg_Append_run)
  case (written b fs1 fs2 err)
  then have p: "persistIndexes e fs2 s' = (None, fs')" by (simp split: option.splits)
  have "IndexPath s' \<noteq> TimeIndex s'"
    using wf by (simp add: seg_wf_def written(7))
  then have "map_get [] fs' (IndexPath s') = index_file (offsets s')"
    using p by (auto simp: persistIndexes_def os_WriteFile_def index_file_def split: fault.splits)
  then show ?thesis
    using offset_file.chunks16_concat [of "[]" "index_entries (offsets s')"]
    by (simp add: index_prefix_def index_file_def offsets_list_def index_entries_def)
qed simp

lemma length_seg_log: "length (seg_log fs s) = length (offsets_list s)"
  by (simp add: seg_log_def offsets_list_def)

lemma seg_size:
  assumes "seg_budget n fs s"
  shows "int (length (seg_data fs s)) < 2 ^ 63"
  using assms by (simp add: seg_budget_def)

lemma append_recovers:
  assumes inv: "seg_inv fs s" and budget: "seg_budget (Suc n) fs s" and ok: "Record_ok r" and at: "seg_at path s"
    and run: "seg_Append e r fs s = (res, fs', s')" and e': "quiet e'"
  shows "\<exists>s2 fs2 m. newSegment e' path 0 fs' = (Inr s2, fs2) \<and> seg_inv fs2 s2 \<and>
     seg_log fs2 s2 = take m (seg_log fs s @ [(nextOffset s, r)]) \<and>
     (\<not> append_failed res \<longrightarrow> seg_log fs2 s2 = seg_log fs s @ [(nextOffset s, r)])"
proof -
  have wf: "seg_wf fs s" using inv by (simp add: seg_inv_def)
  note room = seg_budget_room [OF wf budget]
  note inv' = append_inv [OF inv budget ok run]
  have at': "seg_at path s'" using seg_Append_paths(4) [OF wf room run] at by simp
  have start: "int64_range 0" by (simp add: int64_range_def)
  obtain s2 fs2 where new: "newSegment e' path 0 fs' = (Inr s2, fs2)"
    using newSegment_quiet [OF e'] by blast
  note reopen = newSegment_open [OF inv'(1) at' _ seg_size [OF inv'(2)] start new]
  have shape: "seg_log fs' s' = take j (seg_log fs s @ [(nextOffset s, r)])"
    if "j = (if seg_log fs' s' = seg_log fs s then length (seg_log fs s) else Suc (length (seg_log fs s)))" for j
    using append_visible(2) [OF wf room ok run] that by auto
  show ?thesis
  proof (cases "append_failed res")
    case True
    obtain m where "index_prefix fs' s' m" using inv'(1) by (auto simp: seg_inv_def)
    then show ?thesis
      using new reopen(1,2) [of m] shape [OF refl] True by (metis take_take)
  next
    case False
    then obtain k where res: "res = Inr k" by (cases res) (auto simp: append_failed_def)
    have "seg_log fs' s' = seg_log fs s @ [(nextOffset s, r)]"
      using append_visible(2) [OF wf room ok run] False by auto
    then have "seg_log fs2 s2 = seg_log fs s @ [(nextOffset s, r)]"
      using reopen(2) [OF append_acked [OF wf room run [unfolded res]]] length_seg_log [of fs' s'] by simp
    then show ?thesis
      using new reopen(1) [OF append_acked [OF wf room run [unfolded res]]] by (metis take_all order_refl)
  qed
qed

lemma seg_inv_fresh:
  assumes "map_get [] fs (filepath_Join [path, ''segment.log'']) = []"
    "map_get [] fs (filepath_Join [path, ''segment.index'']) = []" "int64_range start"
  shows "seg_inv fs (fresh_segment path 0 start)" "seg_log fs (fresh_segment path 0 start) = []"
  using assms
  by (simp_all add: seg_inv_def seg_wf_def fresh_segment_def filepath_Join_inject seg_data_def index_prefix_def
      chunks16.simps seg_log_def index_entries_def)

lemma seg_at_fresh [simp]: "seg_at path (fresh_segment path pos start)"
  by (simp add: seg_at_def fresh_segment_def)

section \<open>Properties\<close>

text \<open>The segment and the record the witnesses start from.\<close>

definition sample_segment :: Segment where
  "sample_segment = fresh_segment ''data/t/000000'' 0 0"

definition sample_record :: Record where
  "sample_record = \<lparr> Key = Some ''k'', Value = Some ''v'', Headers = fmupd ''h'' ''x'' fmempty, Timestamp = 0, Offset = 0 \<rparr>"

lemma sample_ok [simp]:
  "seg_inv fmempty sample_segment" "seg_budget (Suc 0) fmempty sample_segment" "Record_ok sample_record"
  "seg_at ''data/t/000000'' sample_segment"
proof -
  show "seg_inv fmempty sample_segment"
    unfolding sample_segment_def by (rule seg_inv_fresh) (simp_all add: int64_range_def)
  show "seg_budget (Suc 0) fmempty sample_segment"
    by (simp add: seg_budget_def sample_segment_def fresh_segment_def seg_data_def)
  have "valid_utf8 ''h''" "valid_utf8 ''x''" by (simp_all add: valid_utf8.simps utf8_width.simps)
  then show "Record_ok sample_record"
    by (auto simp: Record_ok_def sample_record_def int64_range_def intro!: fmpred_upd)
  show "seg_at ''data/t/000000'' sample_segment" by (simp add: sample_segment_def)
qed


text \<open>C2. Whatever calls fail during an append, and wherever a write stops short, the segment invariant
  holds afterwards and the log is the old log, or the old log with exactly the new record at the next
  offset; the former only together with an error, and a returned offset only together with the latter.\<close>

theorem append_all_or_nothing:
  assumes "seg_inv fs s" "seg_budget (Suc n) fs s" "Record_ok r"
  shows "case seg_Append e r fs s of (res, fs', s') \<Rightarrow>
    seg_inv fs' s' \<and> seg_budget n fs' s' \<and>
    (seg_log fs' s' = seg_log fs s \<and> append_failed res \<or>
     seg_log fs' s' = seg_log fs s @ [(nextOffset s, r)] \<and> (append_failed res \<or> res = Inr (nextOffset s)))"
proof -
  obtain res fs' s' where run: "seg_Append e r fs s = (res, fs', s')"
    by (cases "seg_Append e r fs s") auto
  have wf: "seg_wf fs s" using assms(1) by (simp add: seg_inv_def)
  show ?thesis
    using append_inv [OF assms run] append_visible(2) [OF wf seg_budget_room [OF wf assms(2)] assms(3) run]
    by (auto simp: run)
qed

theorem append_all_or_nothing_witness:
  "case seg_Append calm_env sample_record fmempty sample_segment of (res, fs', s') \<Rightarrow>
    seg_inv fs' s' \<and> seg_budget 0 fs' s' \<and>
    (seg_log fs' s' = seg_log fmempty sample_segment \<and> append_failed res \<or>
     seg_log fs' s' = seg_log fmempty sample_segment @ [(nextOffset sample_segment, sample_record)] \<and>
       (append_failed res \<or> res = Inr (nextOffset sample_segment)))"
  by (rule append_all_or_nothing) simp_all


text \<open>Reading returns exactly the records of the log from the given offset on, in offset order and at
  most as many as asked for (100 if the maximum is not positive); only an input/output failure makes it
  return an error.\<close>

theorem ReadRange_refines:
  assumes "seg_inv fs s"
  shows "case seg_ReadRange e fs s from mx of
      Inl _ \<Rightarrow> \<not> quiet e
    | Inr rs \<Rightarrow> rs = take (nat (if mx \<le> 0 then 100 else mx)) (map snd (filter (\<lambda>x. from \<le> fst x) (seg_log fs s)))"
  using assms by (intro ReadRange_correct) (simp add: seg_inv_def)

theorem ReadRange_refines_witness:
  "case seg_ReadRange calm_env fmempty sample_segment 0 10 of
      Inl _ \<Rightarrow> \<not> quiet calm_env
    | Inr rs \<Rightarrow> rs = take (nat (if (10::int) \<le> 0 then 100 else 10)) (map snd (filter (\<lambda>x. 0 \<le> fst x) (seg_log fmempty sample_segment)))"
  by (rule ReadRange_refines) simp


text \<open>C1. After an append that failed or stopped at any point, opening the directory again succeeds and
  yields a prefix of the log including the new record; if the append had returned an offset, the
  reopened segment holds the whole log with the new record.\<close>

theorem append_crash_recovery:
  assumes "seg_inv fs s" "seg_budget (Suc n) fs s" "Record_ok r" "seg_at path s" "quiet e'"
  shows "case seg_Append e r fs s of (res, fs', s') \<Rightarrow>
    \<exists>s2 fs2 m. newSegment e' path 0 fs' = (Inr s2, fs2) \<and> seg_inv fs2 s2 \<and>
      seg_log fs2 s2 = take m (seg_log fs s @ [(nextOffset s, r)]) \<and>
      (\<not> append_failed res \<longrightarrow> seg_log fs2 s2 = seg_log fs s @ [(nextOffset s, r)])"
  using append_recovers [OF assms(1-4) _ assms(5)] by (auto split: prod.split)

theorem append_crash_recovery_witness:
  "case seg_Append calm_env sample_record fmempty sample_segment of (res, fs', s') \<Rightarrow>
    \<exists>s2 fs2 m. newSegment calm_env ''data/t/000000'' 0 fs' = (Inr s2, fs2) \<and> seg_inv fs2 s2 \<and>
      seg_log fs2 s2 = take m (seg_log fmempty sample_segment @ [(nextOffset sample_segment, sample_record)]) \<and>
      (\<not> append_failed res \<longrightarrow> seg_log fs2 s2 = seg_log fmempty sample_segment @ [(nextOffset sample_segment, sample_record)])"
  by (rule append_crash_recovery [where n = 0]) simp_all


text \<open>Writing both index files and loading them again restores both indexes, and the next offset is the
  largest of the start offset and one past the last indexed offset.\<close>

theorem indexes_roundtrip:
  assumes "seg_wf fs s" "quiet e" "quiet e'" "fmlookup fs (LogPath s) \<noteq> None"
  shows "case persistIndexes e fs s of (err, fs') \<Rightarrow> err = None \<and>
    loadIndexes e' fs' (s\<lparr>offsets := fmempty, timeOffsets := fmempty, nextOffset := start\<rparr>) =
      Inr (s\<lparr>nextOffset := (if offsets s = fmempty then start else max start (last (sorted_keys (offsets s)) + 1))\<rparr>)"
proof -
  obtain err fs' where run: "persistIndexes e fs s = (err, fs')"
    by (cases "persistIndexes e fs s")
  have ok: "err = None" using run assms(2) by (auto simp: persistIndexes_def)
  have sep: "IndexPath s \<noteq> TimeIndex s" "LogPath s \<noteq> IndexPath s" "LogPath s \<noteq> TimeIndex s"
    using assms(1) by (simp_all add: seg_wf_def)
  have "seg_wf fs' s"
    using seg_wf_other(1) [OF assms(1) persistIndexes_other [OF run sep(2,3)]] .
  moreover have "seg_synced fs' s"
    using persistIndexes_synced [OF run [unfolded ok] sep assms(4)] .
  ultimately show ?thesis
    using load_indexes_synced [OF _ _ assms(3), of fs' s "s\<lparr>offsets := fmempty, timeOffsets := fmempty, nextOffset := start\<rparr>"]
    by (simp add: run ok)
qed

theorem indexes_roundtrip_witness:
  "case persistIndexes calm_env (fmupd (LogPath sample_segment) [] fmempty) sample_segment of (err, fs') \<Rightarrow> err = None \<and>
    loadIndexes calm_env fs' (sample_segment\<lparr>offsets := fmempty, timeOffsets := fmempty, nextOffset := 3\<rparr>) =
      Inr (sample_segment\<lparr>nextOffset := (if offsets sample_segment = fmempty then 3
        else max 3 (last (sorted_keys (offsets sample_segment)) + 1))\<rparr>)"
proof (rule indexes_roundtrip)
  have "seg_inv (fmupd (LogPath sample_segment) [] fmempty) sample_segment"
    using seg_inv_cong(1) [OF sample_ok(1)] by simp
  then show "seg_wf (fmupd (LogPath sample_segment) [] fmempty) sample_segment"
    by (simp add: seg_inv_def)
qed simp_all

text \<open>The eight-byte big-endian form of an \<^verbatim>\<open>int64\<close> decodes to the same number, negative ones included.\<close>

theorem int64_bytes_roundtrip: "length (int64ToBytes v) = 8 \<and> bytesToInt64 (int64ToBytes v @ rest) = wrap64 v"
  by (simp add: bytesToInt64_be int64ToBytes_be be_word_be_bytes take_bit_word_eq_self wrap64_def)

end
