(* ===== verification/Consumer_Group.thy ===== *)
theory Consumer_Group
  imports Go_Prelude
begin

text \<open>
  The consumer-group coordinator of \<^verbatim>\<open>broker/consumer_group.go\<close>: group membership and the
  round-robin assignment of partitions to members.  Every method takes the coordinator's own
  mutex for its whole body, so each is one atomic step on the record below.  A Go
  \<^verbatim>\<open>map[string]struct{}\<close> is a finite map to \<^typ>\<open>unit\<close>; ranging over it and sorting is
  \<^const>\<open>sorted_keys\<close>.
\<close>

section \<open>State and operations\<close>

record ConsumerGroupCoordinator =
  cg_members :: "(string, (string, unit) fmap) fmap"
  cg_assignments :: "(string, (string, int list) fmap) fmap"

definition NewConsumerGroupCoordinator :: ConsumerGroupCoordinator where
  "NewConsumerGroupCoordinator = \<lparr>cg_members = fmempty, cg_assignments = fmempty\<rparr>"

definition cg_Join :: "string \<Rightarrow> string \<Rightarrow> ConsumerGroupCoordinator \<Rightarrow> ConsumerGroupCoordinator" where
  "cg_Join grp member c =
     c\<lparr>cg_members := fmupd grp (fmupd member () (map_get fmempty (cg_members c) grp)) (cg_members c)\<rparr>"

definition cg_Leave :: "string \<Rightarrow> string \<Rightarrow> ConsumerGroupCoordinator \<Rightarrow> ConsumerGroupCoordinator" where
  "cg_Leave grp member c =
     (case fmlookup (cg_members c) grp of
        None \<Rightarrow> c
      | Some ms \<Rightarrow>
          (let c1 = c\<lparr>cg_members := fmupd grp (fmdrop member ms) (cg_members c)\<rparr>
           in case fmlookup (cg_assignments c1) grp of
                None \<Rightarrow> c1
              | Some a \<Rightarrow> c1\<lparr>cg_assignments := fmupd grp (fmdrop member a) (cg_assignments c1)\<rparr>))"

definition assign_partition ::
    "string list \<Rightarrow> nat \<Rightarrow> (string, int list) fmap \<Rightarrow> (string, int list) fmap" where
  "assign_partition members p a =
     (let m = members ! (p mod length members) in fmupd m (map_get [] a m @ [int p]) a)"

definition cg_Rebalance :: "string \<Rightarrow> int \<Rightarrow> ConsumerGroupCoordinator \<Rightarrow> ConsumerGroupCoordinator" where
  "cg_Rebalance grp partitions c =
     (let members = sorted_keys (map_get fmempty (cg_members c) grp);
          a0 = map_get fmempty (cg_assignments c) grp;
          a1 = fold (\<lambda>m a. fmupd m [] a) members a0;
          a2 = (if members = [] then a1 else fold (assign_partition members) [0..<nat partitions] a1)
      in c\<lparr>cg_assignments := fmupd grp a2 (cg_assignments c)\<rparr>)"

definition cg_Assignment :: "string \<Rightarrow> ConsumerGroupCoordinator \<Rightarrow> (string, int list) fmap" where
  "cg_Assignment grp c = map_get fmempty (cg_assignments c) grp"

text \<open>The members of a group, in the order the rebalance visits them.\<close>

definition group_members :: "string \<Rightarrow> ConsumerGroupCoordinator \<Rightarrow> string list" where
  "group_members grp c = sorted_keys (map_get fmempty (cg_members c) grp)"

text \<open>Only members hold assignments.\<close>

definition cg_inv :: "ConsumerGroupCoordinator \<Rightarrow> bool" where
  "cg_inv c \<longleftrightarrow> (\<forall>g. fmdom' (cg_Assignment g c) \<subseteq> set (group_members g c))"

text \<open>The operations as one event type, for statements about every history.\<close>

datatype cg_event = JoinEv string string | LeaveEv string string | RebalanceEv string int

fun cg_step :: "cg_event \<Rightarrow> ConsumerGroupCoordinator \<Rightarrow> ConsumerGroupCoordinator" where
  "cg_step (JoinEv g m) c = cg_Join g m c"
| "cg_step (LeaveEv g m) c = cg_Leave g m c"
| "cg_step (RebalanceEv g n) c = cg_Rebalance g n c"

definition cg_run :: "cg_event list \<Rightarrow> ConsumerGroupCoordinator" where
  "cg_run es = fold cg_step es NewConsumerGroupCoordinator"

section \<open>Round-robin assignment\<close>

lemma fold_clear_lookup:
  "fmlookup (fold (\<lambda>m a. fmupd m [] a) ms a) m = (if m \<in> set ms then Some [] else fmlookup a m)"
  by (induction ms arbitrary: a) auto

lemma assign_partition_lookup:
  "fmlookup (assign_partition ms p a) m =
     (if m = ms ! (p mod length ms) then Some (map_get [] a m @ [int p]) else fmlookup a m)"
  by (simp add: assign_partition_def Let_def)

lemma fold_assign_lookup:
  assumes "ms \<noteq> []" and "\<And>m. m \<in> set ms \<Longrightarrow> fmlookup a m = Some []"
  shows "fmlookup (fold (assign_partition ms) [0..<k] a) m =
     (if m \<in> set ms then Some (map int (filter (\<lambda>p. ms ! (p mod length ms) = m) [0..<k]))
      else fmlookup a m)"
proof (induction k arbitrary: m)
  case 0
  then show ?case using assms by simp
next
  case (Suc k)
  have "ms ! (k mod length ms) \<in> set ms"
    using assms(1) by simp
  then show ?case
    by (auto simp: Suc assign_partition_lookup map_get_def)
qed

lemma group_members_Rebalance [simp]: "group_members g' (cg_Rebalance g n c) = group_members g' c"
  by (simp add: group_members_def cg_Rebalance_def Let_def)

lemma Assignment_Rebalance_other [simp]:
  "g' \<noteq> g \<Longrightarrow> cg_Assignment g' (cg_Rebalance g n c) = cg_Assignment g' c"
  by (simp add: cg_Assignment_def cg_Rebalance_def Let_def)

lemma Assignment_Rebalance_lookup:
  "fmlookup (cg_Assignment g (cg_Rebalance g n c)) m =
     (if m \<in> set (group_members g c)
      then Some (map int (filter (\<lambda>p. group_members g c ! (p mod length (group_members g c)) = m) [0..<nat n]))
      else fmlookup (cg_Assignment g c) m)"
proof -
  define ms where "ms = group_members g c"
  define a1 where "a1 = fold (\<lambda>m a. fmupd m [] a) ms (cg_Assignment g c)"
  have "cg_Assignment g (cg_Rebalance g n c) =
      (if ms = [] then a1 else fold (assign_partition ms) [0..<nat n] a1)"
    unfolding ms_def a1_def cg_Assignment_def cg_Rebalance_def group_members_def Let_def by simp
  moreover have "fmlookup a1 m' = (if m' \<in> set ms then Some [] else fmlookup (cg_Assignment g c) m')" for m'
    by (simp add: a1_def fold_clear_lookup)
  ultimately show ?thesis
    by (simp add: fold_assign_lookup flip: ms_def)
qed

lemma count_residue:
  assumes "i < n"
  shows "length (filter (\<lambda>p. p mod n = i) [0..<P]) = P div n + (if i < P mod n then 1 else 0)"
proof (induction P)
  case (Suc P)
  then show ?case
    using assms by (auto simp: mod_Suc div_Suc split: if_splits)
qed (use assms in auto)

lemma nth_mod_eq_iff:
  assumes "distinct ms" and "i < length ms"
  shows "ms ! (p mod length ms) = ms ! i \<longleftrightarrow> p mod length ms = i"
proof -
  have "p mod length ms < length ms"
    using assms(2) by (intro mod_less_divisor) auto
  then show ?thesis
    using assms by (simp add: nth_eq_iff_index_eq)
qed

lemma distinct_group_members [simp]: "distinct (group_members g c)"
  by (simp add: group_members_def)

section \<open>Only members hold assignments\<close>

lemma group_members_Join:
  "set (group_members g (cg_Join g' m c)) = (if g = g' then insert m (set (group_members g c)) else set (group_members g c))"
  by (simp add: group_members_def cg_Join_def)

lemma Assignment_Join [simp]: "cg_Assignment g (cg_Join g' m c) = cg_Assignment g c"
  by (simp add: cg_Assignment_def cg_Join_def)

lemma group_members_Leave:
  "set (group_members g (cg_Leave g' m c)) = set (group_members g c) - (if g = g' then {m} else {})"
  by (auto simp: group_members_def cg_Leave_def Let_def map_get_def split: option.splits if_splits)

lemma Assignment_Leave:
  assumes "cg_inv c"
  shows "fmdom' (cg_Assignment g (cg_Leave g' m c)) = fmdom' (cg_Assignment g c) - (if g = g' then {m} else {})"
proof (cases "fmlookup (cg_members c) g'")
  case None
  moreover from this have "group_members g' c = []"
    by (simp add: group_members_def map_get_None)
  ultimately show ?thesis
    using assms by (auto simp: cg_Leave_def cg_inv_def dest!: spec [of _ g])
next
  case (Some ms)
  then show ?thesis
    by (auto simp: cg_Leave_def Let_def cg_Assignment_def map_get_def split: option.splits)
qed

lemma cg_inv_Rebalance: "cg_inv c \<Longrightarrow> cg_inv (cg_Rebalance g n c)"
proof (unfold cg_inv_def, intro allI)
  fix g'
  assume inv: "\<forall>g. fmdom' (cg_Assignment g c) \<subseteq> set (group_members g c)"
  then have "m \<notin> set (group_members g c) \<Longrightarrow> fmlookup (cg_Assignment g c) m = None" for m
    by (auto dest: fmdom'_notD)
  then show "fmdom' (cg_Assignment g' (cg_Rebalance g n c)) \<subseteq> set (group_members g' (cg_Rebalance g n c))"
    using inv by (cases "g' = g") (auto simp: fmlookup_dom'_iff Assignment_Rebalance_lookup split: if_splits)
qed

lemma cg_inv_step: "cg_inv c \<Longrightarrow> cg_inv (cg_step e c)"
proof (cases e)
  case (JoinEv g m)
  then show "cg_inv c \<Longrightarrow> ?thesis"
    by (auto simp: cg_inv_def group_members_Join)
next
  case (LeaveEv g m)
  then show "cg_inv c \<Longrightarrow> ?thesis"
    by (auto simp: cg_inv_def group_members_Leave Assignment_Leave [unfolded cg_inv_def])
next
  case (RebalanceEv g n)
  then show "cg_inv c \<Longrightarrow> ?thesis"
    by (simp add: cg_inv_Rebalance)
qed

lemma cg_inv_fold: "cg_inv c \<Longrightarrow> cg_inv (fold cg_step es c)"
  by (induction es arbitrary: c) (simp_all add: cg_inv_step)

lemma cg_inv_run: "cg_inv (cg_run es)"
  unfolding cg_run_def
  by (rule cg_inv_fold) (simp add: cg_inv_def NewConsumerGroupCoordinator_def cg_Assignment_def)

section \<open>Correctness of a rebalance\<close>

text \<open>C21. Whatever joins, leaves and rebalances came before, rebalancing a group that has at least
  one member gives every partition \<open>0 \<dots> partitions - 1\<close> to exactly one consumer, that
  consumer is a current member of the group, and no consumer holds a partition outside the range.
\<close>

theorem rebalance_exactly_one:
  assumes nonempty: "group_members g (cg_run es) \<noteq> []"
  shows "(\<forall>p. 0 \<le> p \<and> p < n \<longrightarrow>
            (\<exists>!m. p \<in> set (map_get [] (cg_Assignment g (cg_Rebalance g n (cg_run es))) m))) \<and>
         (\<forall>m p. p \<in> set (map_get [] (cg_Assignment g (cg_Rebalance g n (cg_run es))) m) \<longrightarrow>
            m \<in> set (group_members g (cg_run es)) \<and> 0 \<le> p \<and> p < n)"
proof -
  let ?c = "cg_run es"
  let ?ms = "group_members g ?c"
  let ?get = "map_get [] (cg_Assignment g (cg_Rebalance g n ?c))"
  have mem: "p \<in> set (?get m) \<longleftrightarrow> 0 \<le> p \<and> p < n \<and> m = ?ms ! (nat p mod length ?ms)" for m p
  proof (cases "m \<in> set ?ms")
    case True
    then show ?thesis
      by (auto simp: map_get_def Assignment_Rebalance_lookup intro!: image_eqI [of _ _ "nat p"])
  next
    case False
    then have "fmlookup (cg_Assignment g ?c) m = None"
      using cg_inv_run [of es] by (auto simp: cg_inv_def dest: fmdom'_notD)
    with False show ?thesis
      using nonempty by (auto simp: map_get_def Assignment_Rebalance_lookup)
  qed
  then show ?thesis
    using nonempty by auto
qed

theorem rebalance_exactly_one_witness:
  "\<exists>!m. 1 \<in> set (map_get [] (cg_Assignment ''g'' (cg_Rebalance ''g'' 3
     (cg_run [JoinEv ''g'' ''a'', JoinEv ''g'' ''b'', LeaveEv ''g'' ''a'', JoinEv ''g'' ''c'']))) m)"
proof -
  have "group_members ''g'' (cg_run [JoinEv ''g'' ''a'', JoinEv ''g'' ''b'', LeaveEv ''g'' ''a'', JoinEv ''g'' ''c'']) \<noteq> []"
    by code_simp
  from rebalance_exactly_one [OF this, of 3] show ?thesis by simp
qed

text \<open>A rebalance is balanced: each of the \<open>k\<close> members holds \<open>\<lfloor>partitions / k\<rfloor>\<close> partitions or
  one more, in increasing order.
\<close>

theorem rebalance_balanced:
  assumes "m \<in> set (group_members g c)"
  shows "\<exists>ps. fmlookup (cg_Assignment g (cg_Rebalance g n c)) m = Some ps \<and> sorted_wrt (<) ps \<and>
     length ps \<in> {nat n div length (group_members g c), nat n div length (group_members g c) + 1}"
proof -
  let ?ms = "group_members g c"
  obtain i where i: "i < length ?ms" "?ms ! i = m"
    using assms by (auto simp: in_set_conv_nth)
  have "filter (\<lambda>p. ?ms ! (p mod length ?ms) = m) [0..<nat n] = filter (\<lambda>p. p mod length ?ms = i) [0..<nat n]"
    using i nth_mod_eq_iff [of ?ms i] by simp
  moreover have "sorted_wrt (<) (map int (filter P [0..<nat n]))" for P
    by (simp add: sorted_wrt_map sorted_wrt_filter)
  ultimately show ?thesis
    using assms i by (simp add: Assignment_Rebalance_lookup count_residue)
qed

theorem rebalance_balanced_witness:
  "\<exists>ps. fmlookup (cg_Assignment ''g'' (cg_Rebalance ''g'' 3
       (cg_run [JoinEv ''g'' ''a'', JoinEv ''g'' ''b'']))) ''a'' = Some ps \<and>
     sorted_wrt (<) ps \<and> length ps \<in> {3 div 2, 3 div 2 + 1}"
proof -
  have "''a'' \<in> set (group_members ''g'' (cg_run [JoinEv ''g'' ''a'', JoinEv ''g'' ''b'']))"
    and "length (group_members ''g'' (cg_run [JoinEv ''g'' ''a'', JoinEv ''g'' ''b''])) = 2"
    by code_simp+
  then show ?thesis
    using rebalance_balanced [of "''a''" "''g''" "cg_run [JoinEv ''g'' ''a'', JoinEv ''g'' ''b'']" 3]
    by simp
qed

end
