(* ===== verification/Broker_Core.thy ===== *)
theory Broker_Core
  imports Broker_Segment Consumer_Group
begin

text \<open>
  The broker of \<^verbatim>\<open>broker/broker.go\<close> and the tenant wrapper of \<^verbatim>\<open>broker/multitenant.go\<close>: topics, produce,
  consume, fetch, committed consumer offsets, draining.  Every method holds the broker's mutex for its
  whole body (\<^verbatim>\<open>Fetch\<close> takes it once per record), so each is one step from a file system and a broker to
  a result and the new ones.  The broker owns its topics and segments, so the pointers of the Go maps
  are values here and an update writes the topic back.
\<close>

section \<open>State\<close>

record Topic =
  tp_Name :: string
  tp_Partition :: int
  tp_Dir :: string
  tp_Segments :: "Segment list"
  tp_NextOffset :: int

record TxRecord =
  txr_Topic :: string
  txr_Key :: "bytes option"
  txr_Value :: "bytes option"
  txr_Headers :: "(string, string) fmap"

record Transaction =
  tx_ID :: string
  tx_ProducerID :: string
  tx_Epoch :: int
  tx_Status :: string
  tx_CreatedAt :: time
  tx_Records :: "TxRecord list"

record Broker =
  dir :: string
  topics :: "(string, Topic) fmap"
  drainingTill :: time
  producerSeq :: "(string, int) fmap"
  dedupCache :: "(string, Record) fmap"
  txState :: "(string, Transaction) fmap"
  coordinator :: ConsumerGroupCoordinator

definition ErrDraining :: go_error where
  "ErrDraining = Err ''broker is draining''"

definition topic_not_found :: "string \<Rightarrow> go_error" where
  "topic_not_found name = ErrFmt ''topic %q not found'' [name]"

section \<open>Operations\<close>

definition NewBroker :: "env \<Rightarrow> string \<Rightarrow> go_error + Broker" where
  "NewBroker e d =
     (if \<not> os_ok e (Os_MkdirAll d) then Inl (ErrOs (IOFault (Os_MkdirAll d)))
      else Inr \<lparr> dir = d, topics = fmempty, drainingTill = 0, producerSeq = fmempty, dedupCache = fmempty,
                 txState = fmempty, coordinator = NewConsumerGroupCoordinator \<rparr>)"

definition CreateTopic :: "env \<Rightarrow> string \<Rightarrow> fs \<Rightarrow> Broker \<Rightarrow> (go_error + Topic) \<times> fs \<times> Broker" where
  "CreateTopic e name fs b =
     (case fmlookup (topics b) name of
        Some topic \<Rightarrow> (Inr topic, fs, b)
      | None \<Rightarrow>
          let topicDir = filepath_Join [dir b, name]
          in if \<not> os_ok e (Os_MkdirAll topicDir)
             then (Inl (ErrWrap ''create topic dir'' (ErrOs (IOFault (Os_MkdirAll topicDir)))), fs, b)
             else case newSegment e (filepath_Join [topicDir, ''000000'']) 0 fs of
                    (Inl err, fs1) \<Rightarrow> (Inl err, fs1, b)
                  | (Inr seg, fs1) \<Rightarrow>
                      let topic = \<lparr> tp_Name = name, tp_Partition = 0, tp_Dir = topicDir,
                                    tp_Segments = [seg], tp_NextOffset = 0 \<rparr>
                      in (Inr topic, fs1, b\<lparr>topics := fmupd name topic (topics b)\<rparr>))"

definition ListTopics :: "Broker \<Rightarrow> string list" where
  "ListTopics b = sorted_keys (topics b)"

definition isDrainingLocked :: "env \<Rightarrow> Broker \<Rightarrow> bool" where
  "isDrainingLocked e b =
     (if time_IsZero (drainingTill b) then False
      else if env_clock e 0 > drainingTill b then False
      else True)"

definition IsDraining :: "env \<Rightarrow> Broker \<Rightarrow> bool" where
  "IsDraining e b = isDrainingLocked e b"

definition Drain :: "env \<Rightarrow> int \<Rightarrow> Broker \<Rightarrow> Broker" where
  "Drain e d b = b\<lparr>drainingTill := env_clock e 0 + d\<rparr>"

text \<open>\<^verbatim>\<open>append([]byte(nil), b...)\<close>: a copy, nil when there is nothing to copy.\<close>

definition copy_bytes :: "bytes option \<Rightarrow> bytes option" where
  "copy_bytes b = (case b of Some (c # cs) \<Rightarrow> b | _ \<Rightarrow> None)"

definition cloneHeaders :: "(string, string) fmap \<Rightarrow> (string, string) fmap" where
  "cloneHeaders h =
     (if h = fmempty then fmempty else fold (\<lambda>k out. fmupd k (map_get [] h k) out) (sorted_keys h) fmempty)"

definition Produce :: "env \<Rightarrow> string \<Rightarrow> bytes option \<Rightarrow> bytes option \<Rightarrow> (string, string) fmap \<Rightarrow>
    fs \<Rightarrow> Broker \<Rightarrow> (go_error + Record) \<times> fs \<times> Broker" where
  "Produce e topicName key val headers fs b =
     (if isDrainingLocked e b then (Inl ErrDraining, fs, b)
      else case fmlookup (topics b) topicName of
        None \<Rightarrow> (Inl (topic_not_found topicName), fs, b)
      | Some topic \<Rightarrow>
          let record = \<lparr> Key = copy_bytes key, Value = copy_bytes val, Headers = cloneHeaders headers,
                         Timestamp = env_clock e 1, Offset = tp_NextOffset topic \<rparr>
          in if tp_Segments topic = [] then (Inl (ErrPanic ''index out of range''), fs, b)
             else case seg_Append e record fs (last (tp_Segments topic)) of
               (Inl err, fs1, seg) \<Rightarrow>
                 (Inl err, fs1,
                  b\<lparr>topics := fmupd topicName (topic\<lparr>tp_Segments := butlast (tp_Segments topic) @ [seg]\<rparr>) (topics b)\<rparr>)
             | (Inr off, fs1, seg) \<Rightarrow>
                 (Inr (record\<lparr>Offset := off\<rparr>), fs1,
                  b\<lparr>topics := fmupd topicName
                      (topic\<lparr>tp_Segments := butlast (tp_Segments topic) @ [seg], tp_NextOffset := wrap64 (off + 1)\<rparr>)
                      (topics b)\<rparr>))"

fun consume_segments :: "env \<Rightarrow> fs \<Rightarrow> int \<Rightarrow> int \<Rightarrow> Segment list \<Rightarrow> Record list \<Rightarrow> go_error + Record list" where
  "consume_segments e fs fromOffset mx [] result = Inr result"
| "consume_segments e fs fromOffset mx (seg # segs) result =
     (case seg_ReadRange e fs seg fromOffset (mx - int (length result)) of
        Inl err \<Rightarrow> Inl err
      | Inr recs \<Rightarrow>
          (let result' = result @ recs
           in if mx \<le> int (length result') then Inr result'
              else consume_segments e fs fromOffset mx segs result'))"

text \<open>
  \<^verbatim>\<open>make([]Record, 0, max)\<close>: a record takes 88 bytes.  A capacity beyond the address space of 2^48 bytes panics, and an
  allocation the system refuses ends the process.
\<close>

definition make_records :: "env \<Rightarrow> int \<Rightarrow> go_error option" where
  "make_records e mx =
     (if 88 * mx > 2 ^ 48 then Some (ErrPanic ''makeslice: cap out of range'')
      else if \<not> os_ok e (Mem_Alloc (88 * mx)) then Some (ErrPanic ''out of memory'')
      else None)"

definition Consume :: "env \<Rightarrow> string \<Rightarrow> int \<Rightarrow> int \<Rightarrow> fs \<Rightarrow> Broker \<Rightarrow> go_error + Record list" where
  "Consume e topicName fromOffset mx fs b =
     (case fmlookup (topics b) topicName of
        None \<Rightarrow> Inl (topic_not_found topicName)
      | Some topic \<Rightarrow>
          (let mx' = (if mx \<le> 0 then 100 else mx)
           in case make_records e mx' of
                Some err \<Rightarrow> Inl err
              | None \<Rightarrow> consume_segments e fs fromOffset mx' (tp_Segments topic) []))"

text \<open>
  The loop of \<^verbatim>\<open>Fetch\<close> takes the lock once per record, and other goroutines may change the broker in between: iteration
  \<open>i\<close> runs in the environment \<open>es i\<close> on the files and the broker \<open>st i\<close>.
\<close>

function fetch_loop :: "(nat \<Rightarrow> env) \<Rightarrow> (nat \<Rightarrow> fs \<times> Broker) \<Rightarrow> string \<Rightarrow> int \<Rightarrow> int \<Rightarrow> Record list \<Rightarrow>
    Record list \<times> go_error option" where
  "fetch_loop es st topicName maxBytes off acc =
     (case Consume (es (length acc)) topicName off 1 (fst (st (length acc))) (snd (st (length acc))) of
        Inl err \<Rightarrow> (acc, Some err)
      | Inr [] \<Rightarrow> (acc, None)
      | Inr (r # _) \<Rightarrow>
          if maxBytes \<le> int (length (acc @ [r])) then (acc @ [r], None)
          else fetch_loop es st topicName maxBytes (wrap64 (off + 1)) (acc @ [r]))"
  by pat_completeness auto
termination
  by (relation "measure (\<lambda>(es, st, t, mx, off, acc). nat (mx - int (length acc)))") auto

declare fetch_loop.simps [simp del]

definition Fetch :: "(nat \<Rightarrow> env) \<Rightarrow> (nat \<Rightarrow> fs \<times> Broker) \<Rightarrow> string \<Rightarrow> int \<Rightarrow> int \<Rightarrow> Record list \<times> go_error option" where
  "Fetch es st topicName fromOffset maxBytes =
     fetch_loop es st topicName (if maxBytes \<le> 0 then 1024 * 1024 else maxBytes) fromOffset []"

fun fetch_raw_segments :: "env \<Rightarrow> fs \<Rightarrow> int \<Rightarrow> Segment list \<Rightarrow> go_error + (string \<times> int \<times> int)" where
  "fetch_raw_segments e fs off [] = Inl (Err (''offset '' @ fmt_d off @ '' not found''))"
| "fetch_raw_segments e fs off (seg # segs) =
     (case fmlookup (offsets seg) off of
        None \<Rightarrow> fetch_raw_segments e fs off segs
      | Some pos \<Rightarrow>
          (case os_ReadAt e (LogPath seg) pos 4 fs of
             Inl err \<Rightarrow> Inl (ErrWrap ''read payload length'' (ErrOs err))
           | Inr sizeBuf \<Rightarrow> Inr (LogPath seg, wrap64 (pos + 4), uint (Uint32 sizeBuf))))"

text \<open>The file handle \<^verbatim>\<open>FetchRaw\<close> returns is the path of the open log file.\<close>

definition FetchRaw :: "env \<Rightarrow> string \<Rightarrow> int \<Rightarrow> fs \<Rightarrow> Broker \<Rightarrow> go_error + (string \<times> int \<times> int)" where
  "FetchRaw e topicName off fs b =
     (case fmlookup (topics b) topicName of
        None \<Rightarrow> Inl (topic_not_found topicName)
      | Some topic \<Rightarrow> fetch_raw_segments e fs off (tp_Segments topic))"

definition CommitOffset :: "env \<Rightarrow> string \<Rightarrow> string \<Rightarrow> int \<Rightarrow> fs \<Rightarrow> Broker \<Rightarrow> go_error option \<times> fs" where
  "CommitOffset e topicName groupID off fs b =
     (let groupDir = filepath_Join [dir b, ''groups'', groupID]
      in if \<not> os_ok e (Os_MkdirAll groupDir)
         then (Some (ErrWrap ''create group dir'' (ErrOs (IOFault (Os_MkdirAll groupDir)))), fs)
         else case os_WriteFile e (filepath_Join [groupDir, topicName @ ''.offset'']) (fmt_d off) fs of
                (err, fs1) \<Rightarrow> (map_option ErrOs err, fs1))"

text \<open>
  \<^verbatim>\<open>fmt.Sscanf(s, "%d", &off)\<close>: leading (ASCII) spaces other than newlines are skipped, then an optional
  sign and the longest run of decimal digits must form an \<^verbatim>\<open>int64\<close>; what follows is not looked at.
\<close>

definition sscanf_d :: "string \<Rightarrow> int option" where
  "sscanf_d s =
     (let s1 = dropWhile (\<lambda>c. c \<in> set [CHR '' '', CHR 0x09, CHR 0x0B, CHR 0x0C, CHR 0x0D]) s;
          sg = takeWhile (\<lambda>c. c = CHR ''+'' \<or> c = CHR ''-'') (take 1 s1)
      in ParseInt (sg @ takeWhile is_digit (drop (length sg) s1)))"

definition LoadOffset :: "env \<Rightarrow> string \<Rightarrow> string \<Rightarrow> fs \<Rightarrow> Broker \<Rightarrow> go_error + int" where
  "LoadOffset e topicName groupID fs b =
     (case os_ReadFile e (filepath_Join [dir b, ''groups'', groupID, topicName @ ''.offset'']) fs of
        Inl err \<Rightarrow> Inl (ErrOs err)
      | Inr data \<Rightarrow> (case sscanf_d data of None \<Rightarrow> Inl (Err ''expected integer'') | Some off \<Rightarrow> Inr off))"

text \<open>
  The tenant wrapper.  Its own mutex does not exclude the broker's methods; one call alone is this step.
\<close>

definition CreateTopicNS :: "env \<Rightarrow> string \<Rightarrow> string \<Rightarrow> fs \<Rightarrow> Broker \<Rightarrow> (go_error + Topic) \<times> fs \<times> Broker" where
  "CreateTopicNS e namespace name fs b =
     (let nsDir = filepath_Join [dir b, namespace]; topicDir = filepath_Join [nsDir, name]
      in if \<not> os_ok e (Os_MkdirAll nsDir)
         then (Inl (ErrWrap ''create ns dir'' (ErrOs (IOFault (Os_MkdirAll nsDir)))), fs, b)
         else if \<not> os_ok e (Os_MkdirAll topicDir)
         then (Inl (ErrWrap ''create topic dir'' (ErrOs (IOFault (Os_MkdirAll topicDir)))), fs, b)
         else case fmlookup (topics b) name of
           Some topic \<Rightarrow> (Inr topic, fs, b)
         | None \<Rightarrow>
             (case newSegment e (filepath_Join [topicDir, ''000000'']) 0 fs of
                (Inl err, fs1) \<Rightarrow> (Inl err, fs1, b)
              | (Inr seg, fs1) \<Rightarrow>
                  let topic = \<lparr> tp_Name = name, tp_Partition = 0, tp_Dir = topicDir,
                                tp_Segments = [seg], tp_NextOffset = 0 \<rparr>
                  in (Inr topic, fs1, b\<lparr>topics := fmupd name topic (topics b)\<rparr>)))"

section \<open>Topic files\<close>

definition topic_path :: "string \<Rightarrow> string \<Rightarrow> string" where
  "topic_path d name = filepath_Join [filepath_Join [d, name], ''000000'']"

definition topic_files :: "string \<Rightarrow> string \<Rightarrow> string list" where
  "topic_files d name = map (\<lambda>f. filepath_Join [topic_path d name, f]) [''segment.log'', ''segment.index'', ''segment.timeindex'']"

lemma topic_file_path:
  assumes "plain_name name" "plain_name f"
  shows "filepath_Join [topic_path d name, f] = dir_prefix d @ name @ ''/000000/'' @ f"
proof -
  have p: "plain_name ''000000''" by (simp add: plain_name_def)
  have "topic_path d name = dir_prefix (dir_prefix d @ name) @ ''000000''"
    using assms(1) p by (simp add: topic_path_def filepath_Join_plain)
  then have "dir_prefix (topic_path d name) = dir_prefix d @ name @ ''/000000/''"
    using dir_prefix_snoc [OF p, of "dir_prefix d @ name"] dir_prefix_snoc [OF assms(1), of d] by simp
  then show ?thesis
    using assms(2) by (simp add: filepath_Join_plain)
qed

lemma split_at_char:
  "c \<notin> set a \<Longrightarrow> c \<notin> set b \<Longrightarrow> a @ c # x = b @ c # y \<Longrightarrow> a = b \<and> x = y"
proof (induction a arbitrary: b)
  case Nil
  then show ?case by (cases b) auto
next
  case (Cons d a)
  then show ?case by (cases b) auto
qed

lemma topic_files_disjoint:
  assumes "plain_name m" "plain_name n" "m \<noteq> n" "q \<in> set (topic_files d m)"
  shows "q \<notin> set (topic_files d n)"
proof -
  have "dir_prefix d @ m @ ''/000000/'' @ f \<noteq> dir_prefix d @ n @ ''/000000/'' @ g" for f g
    using assms(1-3) split_at_char [of "CHR ''/''" m n] by (auto simp: plain_name_def)
  then show ?thesis
    using assms by (auto simp: topic_files_def topic_file_path)
qed

lemma seg_at_files:
  assumes "seg_at (topic_path d name) s"
  shows "set (topic_files d name) = {LogPath s, IndexPath s, TimeIndex s}"
  using assms by (simp add: topic_files_def seg_at_def)

section \<open>The invariant and the logs of the topics\<close>

definition topic_ok :: "nat \<Rightarrow> fs \<Rightarrow> string \<Rightarrow> string \<Rightarrow> Topic option \<Rightarrow> bool" where
  "topic_ok n fs d name tp \<longleftrightarrow>
     (\<exists>s. seg_at (topic_path d name) s \<and> seg_inv fs s \<and> seg_budget n fs s \<and>
       (case tp of None \<Rightarrow> True | Some t \<Rightarrow> tp_Segments t = [s] \<and> int64_range (tp_NextOffset t)))"

definition broker_inv :: "nat \<Rightarrow> fs \<Rightarrow> Broker \<Rightarrow> bool" where
  "broker_inv n fs b \<longleftrightarrow>
     (\<forall>name \<in> fmdom' (topics b). plain_name name) \<and>
     (\<forall>name. plain_name name \<longrightarrow> topic_ok n fs (dir b) name (fmlookup (topics b) name))"

definition topic_log :: "fs \<Rightarrow> Broker \<Rightarrow> string \<Rightarrow> (int \<times> Record) list option" where
  "topic_log fs b name = map_option (\<lambda>tp. concat (map (seg_log fs) (tp_Segments tp))) (fmlookup (topics b) name)"

lemma seg_budget_less: "seg_budget (Suc n) fs s \<Longrightarrow> seg_budget n fs s"
  by (simp add: seg_budget_def algebra_simps)

lemma topic_ok_less: "topic_ok (Suc n) fs d x tp \<Longrightarrow> topic_ok n fs d x tp"
  by (auto simp: topic_ok_def intro: seg_budget_less)

lemma broker_inv_less: "broker_inv (Suc n) fs b \<Longrightarrow> broker_inv n fs b"
  by (simp add: broker_inv_def topic_ok_less)

lemma broker_inv_topic:
  assumes "broker_inv n fs b" "fmlookup (topics b) name = Some tp"
  shows "plain_name name" "topic_ok n fs (dir b) name (Some tp)"
proof -
  show "plain_name name" using assms fmdom'I [OF assms(2)] by (simp add: broker_inv_def)
  then show "topic_ok n fs (dir b) name (Some tp)"
    using assms by (metis broker_inv_def)
qed

lemma topic_ok_cong:
  assumes ok: "topic_ok n fs d name tp" and same: "\<And>q. q \<in> set (topic_files d name) \<Longrightarrow> map_get [] fs' q = map_get [] fs q"
  shows "topic_ok n fs' d name tp"
    and "tp = Some t \<Longrightarrow> map (seg_log fs') (tp_Segments t) = map (seg_log fs) (tp_Segments t)"
proof -
  obtain s where at: "seg_at (topic_path d name) s" and s: "seg_inv fs s" "seg_budget n fs s"
    and tp: "case tp of None \<Rightarrow> True | Some t \<Rightarrow> tp_Segments t = [s] \<and> int64_range (tp_NextOffset t)"
    using ok by (auto simp: topic_ok_def)
  have "map_get [] fs' (LogPath s) = map_get [] fs (LogPath s)" "map_get [] fs' (IndexPath s) = map_get [] fs (IndexPath s)"
    using same by (simp_all add: seg_at_files [OF at])
  from seg_inv_cong [OF s(1) this] s(2)
  have "seg_inv fs' s" "seg_budget n fs' s" "seg_log fs' s = seg_log fs s" by auto
  then show "topic_ok n fs' d name tp"
    and "tp = Some t \<Longrightarrow> map (seg_log fs') (tp_Segments t) = map (seg_log fs) (tp_Segments t)"
    using at tp by (auto simp: topic_ok_def)
qed

lemma broker_inv_update:
  assumes inv: "broker_inv (Suc n) fs b" and name: "plain_name name"
    and same: "\<And>q. q \<notin> set (topic_files (dir b) name) \<Longrightarrow> map_get [] fs' q = map_get [] fs q"
    and dir: "dir b' = dir b" and tops: "\<And>x. x \<noteq> name \<Longrightarrow> fmlookup (topics b') x = fmlookup (topics b) x"
    and ok: "topic_ok n fs' (dir b) name (fmlookup (topics b') name)"
  shows "broker_inv n fs' b'" and "x \<noteq> name \<Longrightarrow> topic_log fs' b' x = topic_log fs b x"
proof -
  have keep: "map_get [] fs' q = map_get [] fs q" if "plain_name x" "x \<noteq> name" "q \<in> set (topic_files (dir b) x)" for x q
    using same topic_files_disjoint [OF that(1) name that(2,3)] by simp
  have other: "topic_ok n fs' (dir b) x (fmlookup (topics b') x)" if "plain_name x" "x \<noteq> name" for x
    using inv that topic_ok_cong(1) [OF topic_ok_less keep] by (simp add: broker_inv_def tops)
  have plain: "plain_name x" if "x \<in> fmdom' (topics b')" for x
    using that name inv tops [of x] by (cases "x = name") (auto simp: broker_inv_def fmlookup_dom'_iff)
  show "broker_inv n fs' b'"
    unfolding broker_inv_def dir using other ok plain by metis
  show "topic_log fs' b' x = topic_log fs b x" if x: "x \<noteq> name"
  proof (cases "fmlookup (topics b) x")
    case (Some t)
    note t = broker_inv_topic [OF inv Some]
    from topic_ok_cong(2) [OF t(2) keep [OF t(1) x] refl]
    show ?thesis by (simp add: topic_log_def tops [OF x] Some del: map_eq_conv)
  qed (simp add: topic_log_def tops [OF x])
qed


section \<open>Creating topics\<close>

lemma CreateTopic_run:
  assumes inv: "broker_inv (Suc n) fs b" and name: "plain_name name"
    and run: "CreateTopic e name fs b = (res, fs', b')"
  shows "broker_inv n fs' b'" and "dir b' = dir b"
    and "x \<noteq> name \<Longrightarrow> topic_log fs' b' x = topic_log fs b x"
    and "topic_log fs b name = Some l \<Longrightarrow> topic_log fs' b' name = Some l \<and> b' = b \<and> (\<exists>t. res = Inr t)"
    and "res = Inr t \<Longrightarrow> fmlookup (topics b') name = Some t"
    and "res = Inl err \<Longrightarrow> b' = b"
    and "drainingTill b' = drainingTill b"
    and "quiet e \<Longrightarrow> \<exists>t. res = Inr t"
proof -
  have ok: "topic_ok (Suc n) fs (dir b) name (fmlookup (topics b) name)"
    using inv name by (simp add: broker_inv_def)
  then obtain s where at: "seg_at (topic_path (dir b) name) s" and s: "seg_inv fs s" "seg_budget (Suc n) fs s"
    by (auto simp: topic_ok_def)
  obtain r1 fs1 where new: "newSegment e (topic_path (dir b) name) 0 fs = (r1, fs1)"
    by (cases "newSegment e (topic_path (dir b) name) 0 fs") auto
  note same = newSegment_run(1) [OF new]
  have "broker_inv n fs' b' \<and> dir b' = dir b \<and> (x \<noteq> name \<longrightarrow> topic_log fs' b' x = topic_log fs b x)"
  proof (cases "fmlookup (topics b) name = None \<and> os_ok e (Os_MkdirAll (filepath_Join [dir b, name])) \<and> (\<exists>seg. r1 = Inr seg)")
    case True
    then obtain seg where seg: "r1 = Inr seg" by blast
    have b': "fs' = fs1" "dir b' = dir b" "x \<noteq> name \<Longrightarrow> fmlookup (topics b') x = fmlookup (topics b) x"
        "\<exists>t. fmlookup (topics b') name = Some t \<and> tp_Segments t = [seg] \<and> tp_NextOffset t = 0" for x
      using run True new seg by (auto simp: CreateTopic_def topic_path_def Let_def)
    obtain m where m: "index_prefix fs s m" using s(1) by (auto simp: seg_inv_def)
    have start: "int64_range 0" by (simp add: int64_range_def)
    note opened = newSegment_open [OF s(1) at m seg_size [OF s(2)] start new [unfolded seg]]
    have "last (take m (sorted_keys (offsets s))) < nextOffset s" if "take m (sorted_keys (offsets s)) \<noteq> []"
      using in_set_takeD [OF last_in_set [OF that]] s(1) seg_wf_frame_ok [of fs s]
      by (auto simp: seg_inv_def fmlookup_dom'_iff)
    then have "seg_budget n fs1 seg"
      using s(2) by (auto simp: seg_budget_def opened(3,4) Let_def)
    then have "topic_ok n fs' (dir b) name (fmlookup (topics b') name)"
      using b' opened(1) newSegment_paths [OF new [unfolded seg]] by (auto simp: topic_ok_def int64_range_def)
    then show ?thesis
      using broker_inv_update [OF inv name _ b'(2,3)] same b'(1,2) by auto
  next
    case False
    then have b': "b' = b" "map_get [] fs' q = map_get [] fs q" for q
      using run new same by (auto simp: CreateTopic_def topic_path_def Let_def split: option.splits if_splits sum.splits)
    have "topic_ok n fs' (dir b) name (fmlookup (topics b) name)"
      by (rule topic_ok_less [OF topic_ok_cong(1) [OF ok b'(2)]])
    then show ?thesis
      using broker_inv_update [OF inv name b'(2)] b' by auto
  qed
  then show "broker_inv n fs' b'" "dir b' = dir b" "x \<noteq> name \<Longrightarrow> topic_log fs' b' x = topic_log fs b x" by auto
  show "topic_log fs b name = Some l \<Longrightarrow> topic_log fs' b' name = Some l \<and> b' = b \<and> (\<exists>t. res = Inr t)"
    using run by (auto simp: topic_log_def CreateTopic_def)
  show "res = Inr t \<Longrightarrow> fmlookup (topics b') name = Some t" "res = Inl err \<Longrightarrow> b' = b" "drainingTill b' = drainingTill b"
    using run by (auto simp: CreateTopic_def Let_def split: option.splits if_splits prod.splits sum.splits)
  show "quiet e \<Longrightarrow> \<exists>t. res = Inr t"
    using run newSegment_quiet [of e "filepath_Join [filepath_Join [dir b, name], ''000000'']" 0 fs]
    by (auto simp: CreateTopic_def Let_def split: option.splits)
qed

section \<open>Producing\<close>

lemma cloneHeaders_id [simp]: "cloneHeaders h = h"
  by (simp add: cloneHeaders_def fold_sorted_keys)

text \<open>The record \<^verbatim>\<open>Produce\<close> writes, and the condition on the headers under which it is read back unchanged.\<close>

definition produced :: "env \<Rightarrow> bytes option \<Rightarrow> bytes option \<Rightarrow> (string, string) fmap \<Rightarrow> int \<Rightarrow> Record" where
  "produced e key val headers off =
     \<lparr> Key = copy_bytes key, Value = copy_bytes val, Headers = headers, Timestamp = env_clock e 1, Offset = off \<rparr>"

definition headers_ok :: "(string, string) fmap \<Rightarrow> bool" where
  "headers_ok h \<longleftrightarrow> fmpred (\<lambda>k v. valid_utf8 k \<and> valid_utf8 v) h"

text \<open>The outcome of one produce on the logs: nothing, or one record at the end of one topic's log.\<close>

definition produce_effect :: "env \<Rightarrow> string \<Rightarrow> bytes option \<Rightarrow> bytes option \<Rightarrow> (string, string) fmap \<Rightarrow>
    (string \<Rightarrow> (int \<times> Record) list option) \<Rightarrow> go_error + Record \<Rightarrow> (string \<Rightarrow> (int \<times> Record) list option) \<Rightarrow> bool" where
  "produce_effect e name key val headers old res new \<longleftrightarrow>
     (new = old \<and> (\<exists>err. res = Inl err)) \<or>
     (\<exists>l off field. old name = Some l \<and> new = old(name := Some (l @ [(off, produced e key val headers field)])) \<and>
       (\<forall>x \<in> set l. fst x < off) \<and>
       ((\<exists>err. res = Inl err) \<or> res = Inr (produced e key val headers off)))"

lemma produced_ok: "headers_ok h \<Longrightarrow> int64_range off \<Longrightarrow> Record_ok (produced e k v h off)"
  by (simp add: Record_ok_def produced_def headers_ok_def)

lemma seg_log_below: "seg_wf fs s \<Longrightarrow> x \<in> set (seg_log fs s) \<Longrightarrow> fst x < nextOffset s"
  by (auto simp: seg_log_def fmlookup_dom'_iff dest: seg_wf_frame_ok)

lemma Produce_appends:
  assumes inv: "broker_inv (Suc n) fs b" and h: "headers_ok headers"
    and topic: "fmlookup (topics b) name = Some tp" and drain: "\<not> isDrainingLocked e b"
    and run: "Produce e name key val headers fs b = (res, fs', b')"
  obtains s s' r1 where "tp_Segments tp = [s]" "plain_name name" "seg_at (topic_path (dir b) name) s" "seg_inv fs s" "seg_budget (Suc n) fs s"
    "int64_range (tp_NextOffset tp)"
    "seg_Append e (produced e key val headers (tp_NextOffset tp)) fs s = (r1, fs', s')"
    "b' = b\<lparr>topics := fmupd name (tp\<lparr>tp_Segments := [s'],
        tp_NextOffset := (case r1 of Inl _ \<Rightarrow> tp_NextOffset tp | Inr k \<Rightarrow> wrap64 (k + 1))\<rparr>) (topics b)\<rparr>"
    "res = map_sum id (\<lambda>k. produced e key val headers k) r1"
proof -
  note name = broker_inv_topic [OF inv topic]
  from name(2) obtain s where s: "tp_Segments tp = [s]" "seg_at (topic_path (dir b) name) s" "seg_inv fs s" "seg_budget (Suc n) fs s"
      "int64_range (tp_NextOffset tp)"
    by (auto simp: topic_ok_def)
  obtain r1 fs1 s' where a: "seg_Append e (produced e key val headers (tp_NextOffset tp)) fs s = (r1, fs1, s')"
    by (cases "seg_Append e (produced e key val headers (tp_NextOffset tp)) fs s") auto
  have "fs' = fs1" "b' = b\<lparr>topics := fmupd name (tp\<lparr>tp_Segments := [s'],
        tp_NextOffset := (case r1 of Inl _ \<Rightarrow> tp_NextOffset tp | Inr k \<Rightarrow> wrap64 (k + 1))\<rparr>) (topics b)\<rparr>"
      "res = map_sum id (\<lambda>k. produced e key val headers k) r1"
    using run a s(1) drain topic by (cases r1; cases tp; auto simp: Produce_def produced_def)+
  then show ?thesis using that s name a by simp
qed

lemma Produce_run:
  assumes inv: "broker_inv (Suc n) fs b" and h: "headers_ok headers"
    and run: "Produce e name key val headers fs b = (res, fs', b')"
  shows "broker_inv n fs' b'" and "dir b' = dir b"
    and "produce_effect e name key val headers (topic_log fs b) res (topic_log fs' b')"
proof -
  have "broker_inv n fs' b' \<and> dir b' = dir b \<and> produce_effect e name key val headers (topic_log fs b) res (topic_log fs' b')"
  proof (cases "isDrainingLocked e b \<or> fmlookup (topics b) name = None")
    case True
    then have "fs' = fs" "b' = b" "\<exists>err. res = Inl err"
      using run by (auto simp: Produce_def split: if_splits)
    then show ?thesis using broker_inv_less [OF inv] by (simp add: produce_effect_def)
  next
    case False
    then obtain tp where tp: "fmlookup (topics b) name = Some tp" and drain: "\<not> isDrainingLocked e b" by blast
    from Produce_appends [OF inv h tp drain run] obtain s s' r1 where
      s: "tp_Segments tp = [s]" "plain_name name" "seg_at (topic_path (dir b) name) s" "seg_inv fs s" "seg_budget (Suc n) fs s"
        "int64_range (tp_NextOffset tp)"
      and a: "seg_Append e (produced e key val headers (tp_NextOffset tp)) fs s = (r1, fs', s')"
      and b': "b' = b\<lparr>topics := fmupd name (tp\<lparr>tp_Segments := [s'],
        tp_NextOffset := (case r1 of Inl _ \<Rightarrow> tp_NextOffset tp | Inr k \<Rightarrow> wrap64 (k + 1))\<rparr>) (topics b)\<rparr>"
      and res: "res = map_sum id (\<lambda>k. produced e key val headers k) r1" by blast
    have wf: "seg_wf fs s" using s(4) by (simp add: seg_inv_def)
    note room = seg_budget_room [OF wf s(5)] and ok = produced_ok [OF h s(6)]
    note inv' = append_inv [OF s(4,5) ok a] and vis = append_visible(2) [OF wf room ok a]
    have same: "map_get [] fs' q = map_get [] fs q" if "q \<notin> set (topic_files (dir b) name)" for q
      using seg_Append_other [OF wf room a] that by (simp add: seg_at_files [OF s(3)] map_get_def)
    have "topic_ok n fs' (dir b) name (fmlookup (topics b') name)"
      using inv' s(3,6) seg_Append_paths(4) [OF wf room a] by (auto simp: topic_ok_def b' split: sum.splits)
    then have upd: "broker_inv n fs' b'" "\<And>x. x \<noteq> name \<Longrightarrow> topic_log fs' b' x = topic_log fs b x"
      using broker_inv_update [OF inv s(2) same] by (auto simp: b')
    have old: "topic_log fs b name = Some (seg_log fs s)" and new: "topic_log fs' b' name = Some (seg_log fs' s')"
      by (simp_all add: topic_log_def tp s(1) b')
    have logs: "topic_log fs' b' = (topic_log fs b)(name := Some (seg_log fs' s'))"
      using upd(2) new by auto
    have "produce_effect e name key val headers (topic_log fs b) res (topic_log fs' b')"
      using vis
    proof
      assume "seg_log fs' s' = seg_log fs s \<and> append_failed r1 \<and> s' = s"
      then show ?thesis using logs old res by (auto simp: produce_effect_def append_failed_def)
    next
      assume v: "seg_log fs' s' = seg_log fs s @ [(nextOffset s, produced e key val headers (tp_NextOffset tp))] \<and>
        nextOffset s' = nextOffset s + 1 \<and> (r1 = Inr (nextOffset s) \<or> append_failed r1)"
      have below: "\<forall>x \<in> set (seg_log fs s). fst x < nextOffset s" using seg_log_below [OF wf] by blast
      have "(\<exists>err. res = Inl err) \<or> res = Inr (produced e key val headers (nextOffset s))"
        using v res by (auto simp: append_failed_def)
      then show ?thesis
        unfolding produce_effect_def logs using old v below by auto
    qed
    then show ?thesis using upd(1) by (simp add: b')
  qed
  then show "broker_inv n fs' b'" "dir b' = dir b" "produce_effect e name key val headers (topic_log fs b) res (topic_log fs' b')"
    by auto
qed

lemma Produce_quiet:
  assumes inv: "broker_inv (Suc n) fs b" and h: "headers_ok headers" and e: "quiet e"
    and topic: "fmlookup (topics b) name = Some tp" and drain: "\<not> isDrainingLocked e b"
    and m: "json_Marshal_Record (produced e key val headers (tp_NextOffset tp)) = Some bs" and len: "length bs < 2 ^ 32"
  shows "\<exists>off fs' b'. Produce e name key val headers fs b = (Inr (produced e key val headers off), fs', b')"
proof -
  obtain res fs' b' where run: "Produce e name key val headers fs b = (res, fs', b')"
    by (cases "Produce e name key val headers fs b") auto
  from Produce_appends [OF inv h topic drain run] obtain s s' r1 where
    s: "seg_inv fs s" "seg_budget (Suc n) fs s" and a: "seg_Append e (produced e key val headers (tp_NextOffset tp)) fs s = (r1, fs', s')"
    and res: "res = map_sum id (\<lambda>k. produced e key val headers k) r1" by metis
  have wf: "seg_wf fs s" using s(1) by (simp add: seg_inv_def)
  show ?thesis
    using seg_Append_quiet [OF wf seg_budget_room [OF wf s(2)] e m len] a res run by auto
qed

section \<open>Consuming\<close>

lemma make_records_quiet: "quiet e \<Longrightarrow> make_records e mx = (if 88 * mx > 2 ^ 48 then Some (ErrPanic ''makeslice: cap out of range'') else None)"
  by (simp add: make_records_def)

lemma Consume_correct:
  assumes inv: "broker_inv n fs b"
  shows "case Consume e name from mx fs b of
      Inl err \<Rightarrow> topic_log fs b name = None \<and> err = topic_not_found name \<or>
        topic_log fs b name \<noteq> None \<and> (2 ^ 48 < 88 * mx \<and> err = ErrPanic ''makeslice: cap out of range'' \<or> \<not> quiet e)
    | Inr rs \<Rightarrow> 88 * mx \<le> 2 ^ 48 \<and> (\<exists>l. topic_log fs b name = Some l \<and>
        rs = take (nat (if mx \<le> 0 then 100 else mx)) (map snd (filter (\<lambda>x. from \<le> fst x) l)))"
proof (cases "fmlookup (topics b) name")
  case None
  then show ?thesis by (simp add: Consume_def topic_log_def)
next
  case (Some tp)
  note ok = broker_inv_topic(2) [OF inv Some]
  obtain s where s: "tp_Segments tp = [s]" "seg_wf fs s"
    using ok by (auto simp: topic_ok_def seg_inv_def)
  let ?mx = "if mx \<le> 0 then 100 else mx"
  have pos: "\<not> ?mx \<le> 0" by simp
  have log: "topic_log fs b name = Some (seg_log fs s)"
    by (simp add: topic_log_def Some s(1))
  have big: "2 ^ 48 < 88 * ?mx \<longleftrightarrow> 2 ^ 48 < 88 * mx" by simp
  show ?thesis
  proof (cases "make_records e ?mx")
    case None
    then have "Consume e name from mx fs b = seg_ReadRange e fs s from ?mx"
      by (simp add: Consume_def Some s(1) Let_def split: sum.split)
    moreover have "88 * mx \<le> 2 ^ 48" using None big by (auto simp: make_records_def split: if_splits)
    ultimately show ?thesis
      using ReadRange_correct [OF s(2), of e ?mx "from"] pos log
      by (cases "seg_ReadRange e fs s from ?mx") auto
  next
    case (Some err)
    then have "Consume e name from mx fs b = Inl err"
      by (simp add: Consume_def \<open>fmlookup (topics b) name = Some tp\<close> Let_def)
    moreover have "2 ^ 48 < 88 * mx \<and> err = ErrPanic ''makeslice: cap out of range'' \<or> \<not> quiet e"
      using Some big by (auto simp: make_records_def split: if_splits)
    ultimately show ?thesis using log by simp
  qed
qed

lemma Consume_quiet:
  assumes "broker_inv n fs b" "quiet e" "topic_log fs b name = Some l" "88 * mx \<le> 2 ^ 48"
  shows "Consume e name from mx fs b =
    Inr (take (nat (if mx \<le> 0 then 100 else mx)) (map snd (filter (\<lambda>x. from \<le> fst x) l)))"
  using Consume_correct [OF assms(1), of name mx e "from"] assms(2-4)
  by (cases "Consume e name from mx fs b") auto

section \<open>Fetching\<close>

text \<open>Offsets without gaps from a given one on.\<close>

definition gapless :: "int \<Rightarrow> (int \<times> 'r) list \<Rightarrow> bool" where
  "gapless from l \<longleftrightarrow> map fst (filter (\<lambda>x. from \<le> fst x) l) = map (\<lambda>i. from + int i) [0..<length (filter (\<lambda>x. from \<le> fst x) l)]"

lemma gapless_next:
  assumes g: "gapless k l" and t: "filter (\<lambda>x. k \<le> fst x) l = x # xs"
  shows "fst x = k" and "filter (\<lambda>x. k + 1 \<le> fst x) l = xs" and "gapless (k + 1) l"
proof -
  have m: "map fst (x # xs) = map (\<lambda>i. k + int i) [0..<length (x # xs)]"
    using g unfolding gapless_def t .
  have "[0..<length (x # xs)] = 0 # map Suc [0..<length xs]"
    by (simp add: map_Suc_upt upt_conv_Cons del: upt_Suc)
  with m show x: "fst x = k"
    by (simp del: upt_Suc)
  have mxs: "map fst xs = map (\<lambda>i. k + 1 + int i) [0..<length xs]"
    using m \<open>[0..<length (x # xs)] = 0 # map Suc [0..<length xs]\<close> by (simp add: comp_def del: upt_Suc)
  have "\<forall>y \<in> set xs. k + 1 \<le> fst y"
  proof
    fix y assume "y \<in> set xs"
    then have "fst y \<in> set (map fst xs)" by simp
    then show "k + 1 \<le> fst y" unfolding mxs by auto
  qed
  moreover have "filter (\<lambda>x. k + 1 \<le> fst x) l = filter (\<lambda>x. k + 1 \<le> fst x) (filter (\<lambda>x. k \<le> fst x) l)"
    by (auto intro: filter_cong)
  ultimately show tail: "filter (\<lambda>x. k + 1 \<le> fst x) l = xs"
    by (simp add: t x)
  show "gapless (k + 1) l"
    unfolding gapless_def tail by (rule mxs)
qed

lemma gapless_drop: "gapless k l \<Longrightarrow> filter (\<lambda>x. k + int i \<le> fst x) l = drop i (filter (\<lambda>x. k \<le> fst x) l)"
proof (induction i arbitrary: k)
  case (Suc i)
  show ?case
  proof (cases "filter (\<lambda>x. k \<le> fst x) l")
    case Nil
    then show ?thesis by (force simp: filter_empty_conv)
  next
    case (Cons x xs)
    note nx = gapless_next [OF Suc.prems Cons]
    show ?thesis using Suc.IH [OF nx(3)] nx(2) Cons by (simp add: add.assoc)
  qed
qed simp

lemma topic_log_below:
  assumes "broker_inv n fs b" "topic_log fs b name = Some l" "x \<in> set l"
  shows "fst x + 1 < 2 ^ 63"
proof -
  obtain tp where tp: "fmlookup (topics b) name = Some tp" using assms(2) by (auto simp: topic_log_def)
  obtain s where s: "tp_Segments tp = [s]" "seg_inv fs s" "seg_budget n fs s"
    using broker_inv_topic(2) [OF assms(1) tp] by (auto simp: topic_ok_def)
  moreover have "l = seg_log fs s" using assms(2) by (simp add: topic_log_def tp s(1))
  ultimately have "fst x < nextOffset s" using seg_log_below [of fs s x] assms(3) by (simp add: seg_inv_def)
  then show ?thesis using s(3) by (simp add: seg_budget_def)
qed

text \<open>What iteration \<open>i\<close> of a fetch from an offset returns: the first record at or above its own offset.\<close>

definition fetched :: "int \<Rightarrow> (nat \<Rightarrow> (int \<times> Record) list) \<Rightarrow> nat \<Rightarrow> Record list" where
  "fetched from L i = take 1 (map snd (filter (\<lambda>x. from + int i \<le> fst x) (L i)))"

lemma fetch_loop_correct:
  assumes st: "\<And>i. broker_inv n (fst (st i)) (snd (st i)) \<and> topic_log (fst (st i)) (snd (st i)) name = Some (L i)"
    and q: "\<And>i. quiet (es i)" and "from": "- (2 ^ 63) \<le> from"
    and acc: "int64_range (from + int (length acc))" "int (length acc) < mx" "\<forall>i < length acc. fetched from L i = [acc ! i]"
  shows "\<exists>rs. fetch_loop es st name mx (from + int (length acc)) acc = (rs, None) \<and> int (length rs) \<le> mx \<and>
    (\<forall>i < length rs. fetched from L i = [rs ! i]) \<and> (int (length rs) = mx \<or> fetched from L (length rs) = [])"
  using acc
proof (induction "nat (mx - int (length acc))" arbitrary: acc rule: less_induct)
  case less
  let ?i = "length acc"
  have c: "Consume (es ?i) name (from + int ?i) 1 (fst (st ?i)) (snd (st ?i)) = Inr (fetched from L ?i)"
    using Consume_quiet [OF conjunct1 [OF st] q conjunct2 [OF st], where mx = 1] by (simp add: fetched_def)
  show ?case
  proof (cases "fetched from L ?i")
    case Nil
    then show ?thesis using less.prems by (subst fetch_loop.simps) (simp add: c)
  next
    case (Cons r rest)
    moreover have "length (fetched from L ?i) \<le> 1" by (simp add: fetched_def)
    ultimately have one: "fetched from L ?i = [r]" by simp
    have ok: "\<forall>i < length (acc @ [r]). fetched from L i = [(acc @ [r]) ! i]"
      using less.prems(3) one by (auto simp: nth_append less_Suc_eq)
    have "filter (\<lambda>x. from + int ?i \<le> fst x) (L ?i) \<noteq> []" using Cons by (auto simp: fetched_def)
    then obtain x where x: "x \<in> set (L ?i)" "from + int ?i \<le> fst x" by (auto simp: filter_empty_conv)
    have "fst x + 1 < 2 ^ 63" using topic_log_below [OF conjunct1 [OF st] conjunct2 [OF st] x(1)] .
    then have w: "wrap64 (from + int ?i + 1) = from + int (length (acc @ [r]))" "int64_range (from + int (length (acc @ [r])))"
      using x(2) less.prems(1) by (auto simp: int64_range_def)
    show ?thesis
    proof (cases "mx \<le> int (length (acc @ [r]))")
      case True
      with less.prems(2) ok show ?thesis by (subst fetch_loop.simps) (simp add: c one)
    next
      case False
      then have "fetch_loop es st name mx (from + int ?i) acc = fetch_loop es st name mx (from + int (length (acc @ [r]))) (acc @ [r])"
        by (subst fetch_loop.simps) (simp add: c one w(1))
      then show ?thesis using less.hyps [OF _ w(2) _ ok] False less.prems(2) by simp
    qed
  qed
qed

lemma FetchRaw_correct:
  assumes inv: "broker_inv n fs b" and e: "quiet e" and l: "topic_log fs b name = Some l" and r: "(off, r) \<in> set l"
  shows "\<exists>p pos len. FetchRaw e name off fs b = Inr (p, pos, len) \<and> 0 \<le> pos \<and> 0 \<le> len \<and>
    json_Unmarshal_Record (take (nat len) (drop (nat pos) (map_get [] fs p))) = Some r"
proof -
  obtain tp where tp: "fmlookup (topics b) name = Some tp"
    using l by (auto simp: topic_log_def)
  obtain s where s: "tp_Segments tp = [s]" "seg_wf fs s"
    using broker_inv_topic(2) [OF inv tp] by (auto simp: topic_ok_def seg_inv_def)
  have "(off, r) \<in> set (seg_log fs s)"
    using l r by (simp add: topic_log_def tp s(1))
  then obtain p where p: "fmlookup (offsets s) off = Some p" and rec: "r = seg_record (seg_data fs s) p"
    by (auto simp: seg_log_def fmlookup_dom'_iff map_get_Some)
  note w = frame_in_file [OF s(2) p] and f = seg_wf_frame_ok [OF s(2) p]
  have "os_ReadAt e (LogPath s) p 4 fs = Inr (take 4 (drop (nat p) (seg_data fs s)))"
    using w(1,2) e by (simp add: os_ReadAt_def Let_def flip: seg_data_def)
  then have "FetchRaw e name off fs b = Inr (LogPath s, p + 4, frame_len (seg_data fs s) p)"
    by (simp add: FetchRaw_def tp s(1) p w(4) frame_len_def)
  moreover have "json_Unmarshal_Record (frame_payload (seg_data fs s) p) = Some r"
    using f rec by (auto simp: frame_ok_def seg_record_def)
  ultimately show ?thesis
    using w(1,5) by (auto simp: frame_payload_def seg_data_def)
qed

section \<open>Committed offsets\<close>

definition offset_path :: "string \<Rightarrow> string \<Rightarrow> string \<Rightarrow> string" where
  "offset_path d topicName groupID = dir_prefix d @ ''groups/'' @ groupID @ ''/'' @ topicName @ ''.offset''"

lemma plain_offset_name: "CHR ''/'' \<notin> set t \<Longrightarrow> plain_name (t @ ''.offset'')"
  by (cases t) (auto simp: plain_name_def)

lemma offset_paths:
  assumes g: "plain_name g" and t: "CHR ''/'' \<notin> set t"
  shows "filepath_Join [d, ''groups'', g, t @ ''.offset''] = offset_path d t g"
    and "filepath_Join [filepath_Join [d, ''groups'', g], t @ ''.offset''] = offset_path d t g"
proof -
  have p: "plain_name ''groups''" by (simp add: plain_name_def)
  note t' = plain_offset_name [OF t]
  show "filepath_Join [d, ''groups'', g, t @ ''.offset''] = offset_path d t g"
    using g t' p by (subst filepath_Join_plains) (simp_all add: offset_path_def)
  have "filepath_Join [d, ''groups'', g] = dir_prefix (dir_prefix d @ ''groups'') @ g"
    using g p by (subst filepath_Join_plains) (simp_all add: dir_prefix_snoc)
  then have "dir_prefix (filepath_Join [d, ''groups'', g]) = dir_prefix d @ ''groups/'' @ g @ ''/''"
    using dir_prefix_snoc [OF g, of "dir_prefix d @ ''groups''"] dir_prefix_snoc [OF p, of d] by simp
  then show "filepath_Join [filepath_Join [d, ''groups'', g], t @ ''.offset''] = offset_path d t g"
    using t' by (simp add: filepath_Join_plain offset_path_def)
qed

lemma offset_path_inject:
  assumes "plain_name g" "plain_name g'"
  shows "offset_path d t g = offset_path d t' g' \<longleftrightarrow> t = t' \<and> g = g'"
proof
  assume "offset_path d t g = offset_path d t' g'"
  then have "g @ CHR ''/'' # t @ ''.offset'' = g' @ CHR ''/'' # t' @ ''.offset''"
    by (simp add: offset_path_def)
  from split_at_char [OF _ _ this] assms show "t = t' \<and> g = g'"
    by (simp add: plain_name_def)
qed simp

lemma offset_path_not_topic: "plain_name name \<Longrightarrow> offset_path d t g \<notin> set (topic_files d name)"
proof
  assume n: "plain_name name" and "offset_path d t g \<in> set (topic_files d name)"
  then have "\<exists>f \<in> {''segment.log'', ''segment.index'', ''segment.timeindex''}. last (offset_path d t g) = last f"
    by (auto simp: topic_files_def topic_file_path)
  then show False by (auto simp: offset_path_def)
qed

lemma sscanf_fmt: "int64_range x \<Longrightarrow> sscanf_d (fmt_d x) = Some x"
proof -
  assume x: "int64_range x"
  have all: "takeWhile is_digit (nat_dec n) = nat_dec n" for n
    using all_digits_nat_dec [of n] by (simp add: takeWhile_eq_all_conv list_all_iff)
  show ?thesis
  proof (cases "x < 0")
    case True
    then show ?thesis
      using ParseInt_fmt_d [OF x] by (simp add: sscanf_d_def fmt_d_def all)
  next
    case False
    obtain c cs where c: "nat_dec (nat x) = c # cs" by (cases "nat_dec (nat x)") auto
    then have "is_digit c" using hd_nat_dec [of "nat x"] by simp
    then have "c \<notin> set [CHR '' '', CHR 0x09, CHR 0x0B, CHR 0x0C, CHR 0x0D, CHR ''+'', CHR ''-'']"
      by (auto simp: is_digit_def)
    then show ?thesis
      using False ParseInt_fmt_d [OF x] all [of "nat x"] by (simp add: sscanf_d_def fmt_d_def c)
  qed
qed

section \<open>A broker on an empty directory\<close>

definition empty_broker :: "string \<Rightarrow> Broker" where
  "empty_broker d = \<lparr> dir = d, topics = fmempty, drainingTill = 0, producerSeq = fmempty, dedupCache = fmempty,
                 txState = fmempty, coordinator = NewConsumerGroupCoordinator \<rparr>"

lemma empty_broker_inv: "n \<le> 2 ^ 20 \<Longrightarrow> broker_inv n fmempty (empty_broker d)"
proof -
  assume n: "n \<le> 2 ^ 20"
  then have "int n \<le> 2 ^ 20" by simp
  then have b: "seg_budget n fmempty (fresh_segment p 0 0)" for p
    by (simp add: seg_budget_def fresh_segment_def seg_data_def)
  have "seg_inv fmempty (fresh_segment p 0 0)" for p
    by (rule seg_inv_fresh(1)) (simp_all add: int64_range_def)
  then have "topic_ok n fmempty d name None" for name
    using b seg_at_fresh unfolding topic_ok_def option.case by blast
  then show ?thesis by (simp add: broker_inv_def empty_broker_def)
qed

lemma restart_inv: "broker_inv n fs b \<Longrightarrow> broker_inv n fs (empty_broker (dir b))"
  by (fastforce simp: broker_inv_def topic_ok_def empty_broker_def)

section \<open>Properties\<close>

text \<open>The state the witnesses start from: one topic, created in an empty directory.\<close>

definition sample_broker :: "fs \<times> Broker" where
  "sample_broker = snd (CreateTopic calm_env ''t'' fmempty (empty_broker ''data''))"

lemma sample_broker_inv [simp]: "broker_inv (Suc (Suc (Suc 0))) (fst sample_broker) (snd sample_broker)"
proof -
  have "broker_inv (Suc (Suc (Suc (Suc 0)))) fmempty (empty_broker ''data'')"
    by (rule empty_broker_inv) simp
  from CreateTopic_run(1) [OF this, of "''t''" calm_env] show ?thesis
    by (cases "CreateTopic calm_env ''t'' fmempty (empty_broker ''data'')") (simp add: sample_broker_def plain_name_def)
qed

lemma sample_broker_log [simp]: "topic_log (fst sample_broker) (snd sample_broker) ''t'' = Some []"
  by code_simp

lemma sample_broker_draining [simp]: "drainingTill (snd sample_broker) = 0"
  by code_simp

definition sample_topic :: Topic where
  "sample_topic = \<lparr> tp_Name = ''t'', tp_Partition = 0, tp_Dir = ''data/t'', tp_Segments = [sample_segment], tp_NextOffset = 0 \<rparr>"

lemma sample_broker_topic: "fmlookup (topics (snd sample_broker)) ''t'' = Some sample_topic"
  by code_simp

lemma sample_payload:
  "case json_Marshal_Record (produced calm_env (Some ''k'') None fmempty (tp_NextOffset sample_topic)) of
     None \<Rightarrow> False | Some bs \<Rightarrow> length bs < 100"
  by code_simp

lemma headers_ok_empty [simp]: "headers_ok fmempty"
  by (simp add: headers_ok_def)

definition sample_produced :: "fs \<times> Broker" where
  "sample_produced = snd (Produce calm_env ''t'' (Some ''k'') None fmempty (fst sample_broker) (snd sample_broker))"

lemma sample_produced_dir: "dir (snd sample_produced) = ''data''"
  by code_simp

lemma sample_produced_inv [simp]: "broker_inv (Suc (Suc 0)) (fst sample_produced) (snd sample_produced)"
  using Produce_run(1) [OF sample_broker_inv headers_ok_empty, of calm_env "''t''" "Some ''k''" None]
  by (cases "Produce calm_env ''t'' (Some ''k'') None fmempty (fst sample_broker) (snd sample_broker)")
    (simp add: sample_produced_def)

lemma sample_produced_log [simp]:
  "topic_log (fst sample_produced) (snd sample_produced) ''t'' = Some [(0, produced calm_env (Some ''k'') None fmempty 0)]"
  by code_simp

text \<open>C3. A produce, whatever input/output fails in it, keeps the broker invariant and changes the logs of the
  topics in one of two ways: not at all, and then it returns an error; or by exactly one record with the
  given key, value and headers at the end of the named topic's log, at an offset above all earlier ones.
  When it returns a record, the record was appended and carries that offset.\<close>

theorem produce_appends_one_record:
  assumes "broker_inv (Suc n) fs b" "headers_ok headers"
  shows "case Produce e name key val headers fs b of (res, fs', b') \<Rightarrow>
    broker_inv n fs' b' \<and> produce_effect e name key val headers (topic_log fs b) res (topic_log fs' b')"
  using Produce_run [OF assms] by (auto split: prod.split)

theorem produce_appends_one_record_witness:
  "case Produce calm_env ''t'' (Some ''k'') (Some ''v'') fmempty (fst sample_broker) (snd sample_broker) of (res, fs', b') \<Rightarrow>
    broker_inv (Suc (Suc 0)) fs' b' \<and>
    produce_effect calm_env ''t'' (Some ''k'') (Some ''v'') fmempty
      (topic_log (fst sample_broker) (snd sample_broker)) res (topic_log fs' b')"
  by (rule produce_appends_one_record) simp_all

text \<open>C5. Consuming returns the records of the topic's log from the given offset on, in order, at most the
  given number (100 if it is not positive). It fails in three ways only: the topic is unknown; the requested
  number is so large that reserving room for it, 88 bytes per record, is beyond the address space, which panics
  whatever the log holds; or an allocation or a read failed.\<close>

theorem consume_refines_log:
  assumes "broker_inv n fs b"
  shows "case Consume e name from mx fs b of
      Inl err \<Rightarrow> topic_log fs b name = None \<and> err = topic_not_found name \<or>
        topic_log fs b name \<noteq> None \<and> (2 ^ 48 < 88 * mx \<and> err = ErrPanic ''makeslice: cap out of range'' \<or> \<not> quiet e)
    | Inr rs \<Rightarrow> 88 * mx \<le> 2 ^ 48 \<and> (\<exists>l. topic_log fs b name = Some l \<and>
        rs = take (nat (if mx \<le> 0 then 100 else mx)) (map snd (filter (\<lambda>x. from \<le> fst x) l)))"
  by (rule Consume_correct [OF assms])

theorem consume_refines_log_witness:
  "Consume calm_env ''t'' 0 5 (fst sample_broker) (snd sample_broker) = Inr [] \<and>
   Consume calm_env ''t'' 0 (2 ^ 62) (fst sample_broker) (snd sample_broker) = Inl (ErrPanic ''makeslice: cap out of range'')"
proof
  show "Consume calm_env ''t'' 0 5 (fst sample_broker) (snd sample_broker) = Inr []"
    using consume_refines_log [OF sample_broker_inv, of "''t''" 5 calm_env 0] by (auto split: sum.splits)
  show "Consume calm_env ''t'' 0 (2 ^ 62) (fst sample_broker) (snd sample_broker) = Inl (ErrPanic ''makeslice: cap out of range'')"
    using consume_refines_log [OF sample_broker_inv, of "''t''" "2 ^ 62" calm_env 0] by (auto split: sum.splits)
qed

text \<open>C18. When no call fails, the broker is not draining and the record fits, a produce succeeds, the record it returns
  carries the next offset of the segment, and consuming from that offset yields exactly one record: the produced
  one with the same key, value, headers and time, and in its Offset field the topic's own counter. It is the very
  record that was returned when the two counters agree; a topic opened from existing files counts from zero, and
  then they do not.\<close>

theorem produce_then_consume:
  assumes "broker_inv (Suc n) fs b" "headers_ok headers" "quiet e" "quiet e'"
    and "fmlookup (topics b) name = Some tp" "\<not> isDrainingLocked e b"
    and "json_Marshal_Record (produced e key val headers (tp_NextOffset tp)) = Some bs" "length bs < 2 ^ 32"
  shows "case Produce e name key val headers fs b of (res, fs', b') \<Rightarrow>
    \<exists>s. tp_Segments tp = [s] \<and> res = Inr (produced e key val headers (nextOffset s)) \<and>
      Consume e' name (nextOffset s) 0 fs' b' = Inr [produced e key val headers (tp_NextOffset tp)]"
proof -
  obtain off fs' b' where run: "Produce e name key val headers fs b = (Inr (produced e key val headers off), fs', b')"
    using Produce_quiet [OF assms(1-3,5-8)] by blast
  from Produce_appends [OF assms(1,2,5,6) run] obtain s s' r1 where
    s: "tp_Segments tp = [s]" "seg_inv fs s" "seg_budget (Suc n) fs s" and rng: "int64_range (tp_NextOffset tp)"
    and a: "seg_Append e (produced e key val headers (tp_NextOffset tp)) fs s = (r1, fs', s')"
    and b': "b' = b\<lparr>topics := fmupd name (tp\<lparr>tp_Segments := [s'],
        tp_NextOffset := (case r1 of Inl _ \<Rightarrow> tp_NextOffset tp | Inr k \<Rightarrow> wrap64 (k + 1))\<rparr>) (topics b)\<rparr>"
    and res: "Inr (produced e key val headers off) = map_sum id (\<lambda>k. produced e key val headers k) r1" by metis
  have wf: "seg_wf fs s" using s(2) by (simp add: seg_inv_def)
  obtain k where r1: "r1 = Inr k" "off = k" using res by (cases r1) (auto simp: produced_def)
  have v: "seg_log fs' s' = seg_log fs s @ [(nextOffset s, produced e key val headers (tp_NextOffset tp))]" "k = nextOffset s"
    using append_visible(2) [OF wf seg_budget_room [OF wf s(3)] produced_ok [OF assms(2) rng] a]
    by (auto simp: r1 append_failed_def)
  have "filter (\<lambda>x. nextOffset s \<le> fst x) (seg_log fs s) = []"
    using seg_log_below [OF wf] by (force simp: filter_empty_conv)
  then show ?thesis
    using Consume_quiet [OF Produce_run(1) [OF assms(1,2) run] assms(4), of name "seg_log fs' s'" 0 "nextOffset s"] s(1) v r1
    by (simp add: run topic_log_def b')
qed

theorem produce_then_consume_witness:
  "case Produce calm_env ''t'' (Some ''k'') None fmempty (fst sample_broker) (snd sample_broker) of (res, fs', b') \<Rightarrow>
    \<exists>s. tp_Segments sample_topic = [s] \<and> res = Inr (produced calm_env (Some ''k'') None fmempty (nextOffset s)) \<and>
      Consume calm_env ''t'' (nextOffset s) 0 fs' b' = Inr [produced calm_env (Some ''k'') None fmempty (tp_NextOffset sample_topic)]"
proof -
  obtain bs where "json_Marshal_Record (produced calm_env (Some ''k'') None fmempty (tp_NextOffset sample_topic)) = Some bs" "length bs < 2 ^ 32"
    using sample_payload by (auto split: option.splits)
  then show ?thesis
    by (intro produce_then_consume [OF sample_broker_inv _ _ _ sample_broker_topic])
      (simp_all add: isDrainingLocked_def time_IsZero_def)
qed

text \<open>C20. Fetch asks for one offset after the other, and the broker may change between two of them. When nothing fails and
  the topic exists throughout, it returns without an error, and the record of iteration i is the first record at or
  above offset from + i in the log as it was at that moment; it ends after \<^verbatim>\<open>maxBytes\<close> records (the parameter counts
  records, 1048576 if it is not positive) or as soon as there is no such record. On a log that does not change and
  whose offsets have no gap from the requested one on, that is the suffix of the log from that offset on, cut at
  the limit; below the first offset of a log the iterations repeat the first record.\<close>

theorem fetch_walks_offsets:
  assumes "\<forall>i. broker_inv n (fst (st i)) (snd (st i)) \<and> topic_log (fst (st i)) (snd (st i)) name = Some (L i)"
    and "\<forall>i. quiet (es i)" "int64_range from" "mx' = (if mx \<le> 0 then 1048576 else mx)"
  shows "\<exists>rs. Fetch es st name from mx = (rs, None) \<and> int (length rs) \<le> mx' \<and>
    (\<forall>i < length rs. take 1 (map snd (filter (\<lambda>x. from + int i \<le> fst x) (L i))) = [rs ! i]) \<and>
    (int (length rs) = mx' \<or> filter (\<lambda>x. from + int (length rs) \<le> fst x) (L (length rs)) = []) \<and>
    ((\<forall>i. L i = l) \<and> gapless from l \<longrightarrow> rs = take (nat mx') (map snd (filter (\<lambda>x. from \<le> fst x) l)))"
proof -
  have pos: "0 < mx'" and eq: "Fetch es st name from mx = fetch_loop es st name mx' from []"
    using assms(4) by (simp_all add: Fetch_def)
  obtain rs where run: "Fetch es st name from mx = (rs, None)" and rs: "int (length rs) \<le> mx'"
      "\<forall>i < length rs. fetched from L i = [rs ! i]" "int (length rs) = mx' \<or> fetched from L (length rs) = []"
    using fetch_loop_correct [of n st name L es "from" "[]" mx'] assms(1-3) pos unfolding eq by (auto simp: int64_range_def)
  have stop: "int (length rs) = mx' \<or> filter (\<lambda>x. from + int (length rs) \<le> fst x) (L (length rs)) = []"
    using rs(3) by (simp add: fetched_def)
  have "rs = take (nat mx') (map snd (filter (\<lambda>x. from \<le> fst x) l))" if l: "\<forall>i. L i = l" and g: "gapless from l"
  proof (rule nth_equalityI)
    let ?s = "filter (\<lambda>x. from \<le> fst x) l"
    have d: "take 1 (map snd (drop i ?s)) = [rs ! i]" if "i < length rs" for i
      using rs(2) [rule_format, OF that] l by (simp add: fetched_def flip: gapless_drop [OF g])
    have "length rs \<le> length ?s"
    proof (cases rs rule: rev_cases)
      case (snoc ys y)
      then show ?thesis using d [of "length ys"] by (cases "length ys < length ?s") simp_all
    qed simp
    moreover have "int (length rs) = mx' \<or> length ?s \<le> length rs" using stop l gapless_drop [OF g, of "length rs"] by simp
    ultimately show "length rs = length (take (nat mx') (map snd ?s))" using rs(1) by auto
    show "rs ! i = take (nat mx') (map snd ?s) ! i" if "i < length rs" for i
      using d [OF that] that rs(1) \<open>length rs \<le> length ?s\<close> by (simp add: take_Suc hd_map hd_drop_conv_nth split: if_splits)
  qed
  then show ?thesis using run rs(1,2) stop by (auto simp: fetched_def)
qed

theorem fetch_walks_offsets_witness:
  "Fetch (\<lambda>_. calm_env) (\<lambda>_. sample_produced) ''t'' 0 7 = ([produced calm_env (Some ''k'') None fmempty 0], None)"
  using fetch_walks_offsets [of "Suc (Suc 0)" "\<lambda>_. sample_produced" "''t''" "\<lambda>_. [(0, produced calm_env (Some ''k'') None fmempty 0)]"
      "\<lambda>_. calm_env" 0 7 7 "[(0, produced calm_env (Some ''k'') None fmempty 0)]"]
  by (simp add: int64_range_def gapless_def)

text \<open>The file region \<^verbatim>\<open>FetchRaw\<close> reports for an offset of the log holds the JSON of exactly that record.\<close>

theorem fetch_raw_locates_record:
  assumes "broker_inv n fs b" "quiet e" "topic_log fs b name = Some l" "(off, r) \<in> set l"
  shows "\<exists>p pos len. FetchRaw e name off fs b = Inr (p, pos, len) \<and> 0 \<le> pos \<and> 0 \<le> len \<and>
    json_Unmarshal_Record (take (nat len) (drop (nat pos) (map_get [] fs p))) = Some r"
  by (rule FetchRaw_correct [OF assms])

theorem fetch_raw_locates_record_witness:
  "\<exists>p pos len. FetchRaw calm_env ''t'' 0 (fst sample_produced) (snd sample_produced) = Inr (p, pos, len) \<and> 0 \<le> pos \<and> 0 \<le> len \<and>
    json_Unmarshal_Record (take (nat len) (drop (nat pos) (map_get [] (fst sample_produced) p)))
      = Some (produced calm_env (Some ''k'') None fmempty 0)"
  by (rule fetch_raw_locates_record [OF sample_produced_inv quiet_calm_env sample_produced_log]) simp

text \<open>A committed consumer offset is what a later load returns, for every \<^verbatim>\<open>int64\<close>; the commit changes no
  other group's or topic's committed offset and no topic's log.\<close>

theorem commit_offset_roundtrip:
  assumes "broker_inv n fs b" "plain_name g" "CHR ''/'' \<notin> set t" "int64_range off" "quiet e" "quiet e'"
  shows "case CommitOffset e t g off fs b of (err, fs') \<Rightarrow>
    err = None \<and> LoadOffset e' t g fs' b = Inr off \<and> broker_inv n fs' b \<and> topic_log fs' b = topic_log fs b \<and>
    (\<forall>t' g'. plain_name g' \<and> CHR ''/'' \<notin> set t' \<and> (t', g') \<noteq> (t, g) \<longrightarrow>
       LoadOffset e' t' g' fs' b = LoadOffset e' t' g' fs b)"
proof -
  let ?fs = "fmupd (offset_path (dir b) t g) (fmt_d off) fs"
  have run: "CommitOffset e t g off fs b = (None, ?fs)"
    using assms(5) by (simp add: CommitOffset_def offset_paths(2) [OF assms(2,3)])
  have same: "map_get [] ?fs q = map_get [] fs q" if "plain_name x" "q \<in> set (topic_files (dir b) x)" for x q
    using offset_path_not_topic [OF that(1)] that(2) by auto
  have inv: "broker_inv n ?fs b"
    using assms(1) topic_ok_cong(1) [OF _ same] by (simp add: broker_inv_def)
  have "topic_log ?fs b x = topic_log fs b x" for x
  proof (cases "fmlookup (topics b) x")
    case (Some tp)
    note t = broker_inv_topic [OF assms(1) Some]
    from topic_ok_cong(2) [OF t(2) same [OF t(1)] refl] show ?thesis
      by (simp add: topic_log_def Some del: map_eq_conv)
  qed (simp add: topic_log_def)
  moreover have "LoadOffset e' t g ?fs b = Inr off"
    using assms(6) by (simp add: LoadOffset_def offset_paths(1) [OF assms(2,3)] os_ReadFile_def sscanf_fmt [OF assms(4)])
  moreover have "LoadOffset e' t' g' ?fs b = LoadOffset e' t' g' fs b"
    if "plain_name g'" "CHR ''/'' \<notin> set t'" "(t', g') \<noteq> (t, g)" for t' g'
    using that offset_path_inject [OF assms(2) that(1)] by (auto simp: LoadOffset_def offset_paths(1) os_ReadFile_def)
  ultimately show ?thesis
    using inv by (auto simp: run)
qed

theorem commit_offset_roundtrip_witness:
  "case CommitOffset calm_env ''t'' ''g'' (- 7) (fst sample_broker) (snd sample_broker) of (err, fs') \<Rightarrow>
    err = None \<and> LoadOffset calm_env ''t'' ''g'' fs' (snd sample_broker) = Inr (- 7) \<and> broker_inv (Suc (Suc (Suc 0))) fs' (snd sample_broker) \<and>
    topic_log fs' (snd sample_broker) = topic_log (fst sample_broker) (snd sample_broker) \<and>
    (\<forall>t' g'. plain_name g' \<and> CHR ''/'' \<notin> set t' \<and> (t', g') \<noteq> (''t'', ''g'') \<longrightarrow>
       LoadOffset calm_env t' g' fs' (snd sample_broker) = LoadOffset calm_env t' g' (fst sample_broker) (snd sample_broker))"
  by (rule commit_offset_roundtrip) (simp_all add: plain_name_def int64_range_def)

text \<open>While a drain lasts every produce is refused and changes nothing; once the clock has passed the
  deadline, produces behave as on a broker that was never drained.\<close>

theorem drain_refuses_produce:
  assumes "env_clock e0 0 + d \<noteq> 0"
  shows "Produce e name key val headers fs (Drain e0 d b) =
    (if env_clock e 0 \<le> env_clock e0 0 + d then (Inl ErrDraining, fs, Drain e0 d b)
     else case Produce e name key val headers fs (b\<lparr>drainingTill := 0\<rparr>) of
       (res, fs', b') \<Rightarrow> (res, fs', b'\<lparr>drainingTill := env_clock e0 0 + d\<rparr>))"
  using assms
  by (auto simp: Produce_def Drain_def isDrainingLocked_def time_IsZero_def Let_def split: option.splits prod.splits sum.splits)

theorem drain_refuses_produce_witness:
  "Produce calm_env ''t'' None None fmempty (fst sample_broker) (Drain calm_env 5 (snd sample_broker)) =
    (if env_clock calm_env 0 \<le> env_clock calm_env 0 + 5
     then (Inl ErrDraining, fst sample_broker, Drain calm_env 5 (snd sample_broker))
     else case Produce calm_env ''t'' None None fmempty (fst sample_broker) ((snd sample_broker)\<lparr>drainingTill := 0\<rparr>) of
       (res, fs', b') \<Rightarrow> (res, fs', b'\<lparr>drainingTill := env_clock calm_env 0 + 5\<rparr>))"
  by (rule drain_refuses_produce) (simp add: calm_env_def)

lemma restart_segment:
  assumes "broker_inv (Suc (Suc n)) fs b" "headers_ok headers" "quiet e'"
    and "fmlookup (topics b) name = Some tp" "topic_log fs b name = Some l"
    and "Produce e name key val headers fs b = (res, fs1, b1)"
  shows "\<exists>s2 fs2. newSegment e' (topic_path (dir b) name) 0 fs1 = (Inr s2, fs2) \<and>
    (\<exists>m off. seg_log fs2 s2 = take m (l @ [(off, produced e key val headers (tp_NextOffset tp))])) \<and>
    (\<forall>r. res = Inr r \<longrightarrow> seg_log fs2 s2 = l @ [(Offset r, r\<lparr>Offset := tp_NextOffset tp\<rparr>)])"
proof -
  note t = broker_inv_topic [OF assms(1,4)]
  obtain s where s: "tp_Segments tp = [s]" "seg_at (topic_path (dir b) name) s" "seg_inv fs s" "seg_budget (Suc (Suc n)) fs s"
      "int64_range (tp_NextOffset tp)"
    using t(2) by (auto simp: topic_ok_def)
  have l: "l = seg_log fs s" using assms(5) by (simp add: topic_log_def assms(4) s(1))
  show ?thesis
  proof (cases "isDrainingLocked e b")
    case True
    then have same: "fs1 = fs" "res = Inl ErrDraining" using assms(6) by (simp_all add: Produce_def)
    obtain s2 fs2 where new: "newSegment e' (topic_path (dir b) name) 0 fs = (Inr s2, fs2)"
      using newSegment_quiet [OF assms(3)] by blast
    obtain m where m: "index_prefix fs s m" using s(3) by (auto simp: seg_inv_def)
    have "seg_log fs2 s2 = take m (seg_log fs s)"
      by (rule newSegment_open(2) [OF s(3,2) m seg_size [OF s(4)] _ new]) (simp add: int64_range_def)
    with take_prefix [of m "seg_log fs s" "[(0, produced e key val headers (tp_NextOffset tp))]"] show ?thesis
      by (intro exI [of _ s2] exI [of _ fs2]) (auto simp: same new l simp del: take_append)
  next
    case False
    from Produce_appends [OF assms(1,2,4) False assms(6)] s(1) obtain s' r1 where
      a: "seg_Append e (produced e key val headers (tp_NextOffset tp)) fs s = (r1, fs1, s')"
      and res: "res = map_sum id (\<lambda>k. produced e key val headers k) r1" by (metis list.inject)
    from append_recovers [OF s(3,4) produced_ok [OF assms(2) s(5)] s(2) a assms(3)] obtain s2 fs2 m where
      new: "newSegment e' (topic_path (dir b) name) 0 fs1 = (Inr s2, fs2)"
      and r: "seg_log fs2 s2 = take m (seg_log fs s @ [(nextOffset s, produced e key val headers (tp_NextOffset tp))])"
        "\<not> append_failed r1 \<longrightarrow> seg_log fs2 s2 = seg_log fs s @ [(nextOffset s, produced e key val headers (tp_NextOffset tp))]" by blast
    have wf: "seg_wf fs s" using s(3) by (simp add: seg_inv_def)
    have "r1 = Inr k \<Longrightarrow> k = nextOffset s" for k
      using append_visible(2) [OF wf seg_budget_room [OF wf s(4)] produced_ok [OF assms(2) s(5)] a] by (auto simp: append_failed_def)
    then have "res = Inr x \<Longrightarrow> seg_log fs2 s2 = l @ [(Offset x, x\<lparr>Offset := tp_NextOffset tp\<rparr>)]" for x
      using r(2) res by (cases r1) (auto simp: l append_failed_def produced_def)
    with r(1) new show ?thesis by (auto simp: l simp del: take_append)
  qed
qed

text \<open>C6. Restarting after a produce, whatever failed in it: a new broker on the same directory satisfies the invariant, and
  opening the topic in it succeeds with a prefix of the log as it was with the new record. If the produce had
  returned a record, nothing is missing: the reopened topic holds every record of the old log and the new one, at
  the offset that was returned.\<close>

theorem restart_recovers_log:
  assumes "broker_inv (Suc (Suc n)) fs b" "headers_ok headers" "quiet e'"
    and "fmlookup (topics b) name = Some tp" "topic_log fs b name = Some l"
    and "Produce e name key val headers fs b = (res, fs1, b1)"
  shows "case CreateTopic e' name fs1 (empty_broker (dir b)) of (res', fs2, b2) \<Rightarrow>
    broker_inv n fs2 b2 \<and> (\<exists>t. res' = Inr t) \<and>
    (\<exists>m off. topic_log fs2 b2 name = Some (take m (l @ [(off, produced e key val headers (tp_NextOffset tp))]))) \<and>
    (\<forall>r. res = Inr r \<longrightarrow> topic_log fs2 b2 name = Some (l @ [(Offset r, r\<lparr>Offset := tp_NextOffset tp\<rparr>)]))"
proof -
  note t = broker_inv_topic [OF assms(1,4)]
  note p = Produce_run [OF assms(1,2,6)]
  have inv: "broker_inv (Suc n) fs1 (empty_broker (dir b))" using restart_inv [OF p(1)] by (simp add: p(2))
  obtain s2 fs2 where s2: "newSegment e' (topic_path (dir b) name) 0 fs1 = (Inr s2, fs2)"
    and m: "\<exists>m off. seg_log fs2 s2 = take m (l @ [(off, produced e key val headers (tp_NextOffset tp))])"
    and ok: "\<forall>r. res = Inr r \<longrightarrow> seg_log fs2 s2 = l @ [(Offset r, r\<lparr>Offset := tp_NextOffset tp\<rparr>)]"
    using restart_segment [OF assms] by blast
  obtain tp2 b2 where run: "CreateTopic e' name fs1 (empty_broker (dir b)) = (Inr tp2, fs2, b2)"
      and b2: "topic_log fs2 b2 name = Some (seg_log fs2 s2)"
    using s2 assms(3) by (auto simp: CreateTopic_def empty_broker_def topic_path_def topic_log_def Let_def)
  show ?thesis using CreateTopic_run(1) [OF inv t(1) run] m ok by (auto simp: run b2)
qed

theorem restart_recovers_log_witness:
  "\<exists>r fs1 b1. Produce calm_env ''t'' None None fmempty (fst sample_broker) (snd sample_broker) = (Inr r, fs1, b1) \<and>
    (case CreateTopic calm_env ''t'' fs1 (empty_broker (dir (snd sample_broker))) of (res', fs2, b2) \<Rightarrow>
       topic_log fs2 b2 ''t'' = Some [(Offset r, r\<lparr>Offset := tp_NextOffset sample_topic\<rparr>)])"
proof -
  define p where "p = Produce calm_env ''t'' None None fmempty (fst sample_broker) (snd sample_broker)"
  have "fst p = Inr (produced calm_env None None fmempty 0)" unfolding p_def by code_simp
  then obtain fs1 b1 where run: "Produce calm_env ''t'' None None fmempty (fst sample_broker) (snd sample_broker) =
      (Inr (produced calm_env None None fmempty 0), fs1, b1)"
    by (cases p) (auto simp: p_def)
  then show ?thesis
    using restart_recovers_log [OF sample_broker_inv _ quiet_calm_env sample_broker_topic sample_broker_log run]
    by (auto split: prod.splits)
qed

text \<open>A topic opened from an existing directory starts with a topic counter of zero, not with the segment's
  next offset: the first record produced to it is returned with its true offset, but the stored record, the
  one consumers get, carries offset 0.\<close>

theorem reopened_topic_stamps_zero:
  assumes "broker_inv (Suc (Suc n)) fs b" "plain_name name" "fmlookup (topics b) name = None" "headers_ok headers"
    and "CreateTopic e name fs b = (Inr tp, fs1, b1)" "Produce e' name key val headers fs1 b1 = (Inr r, fs2, b2)"
  shows "\<exists>l. topic_log fs1 b1 name = Some l \<and> topic_log fs2 b2 name = Some (l @ [(Offset r, r\<lparr>Offset := 0\<rparr>)])"
proof -
  note inv = CreateTopic_run(1) [OF assms(1,2,5)]
  have tp: "fmlookup (topics b1) name = Some tp" "tp_NextOffset tp = 0"
    using assms(3,5) by (auto simp: CreateTopic_def Let_def split: if_splits prod.splits sum.splits)
  have drain: "\<not> isDrainingLocked e' b1"
    using assms(6) by (auto simp: Produce_def split: if_splits)
  from Produce_appends [OF inv assms(4) tp(1) drain assms(6)] obtain s s' r1 where
    s: "tp_Segments tp = [s]" "seg_inv fs1 s" "seg_budget (Suc n) fs1 s" and rng: "int64_range (tp_NextOffset tp)"
    and a: "seg_Append e' (produced e' key val headers (tp_NextOffset tp)) fs1 s = (r1, fs2, s')"
    and b2: "b2 = b1\<lparr>topics := fmupd name (tp\<lparr>tp_Segments := [s'],
        tp_NextOffset := (case r1 of Inl _ \<Rightarrow> tp_NextOffset tp | Inr k \<Rightarrow> wrap64 (k + 1))\<rparr>) (topics b1)\<rparr>"
    and res: "Inr r = map_sum id (\<lambda>k. produced e' key val headers k) r1" by metis
  have wf: "seg_wf fs1 s" using s(2) by (simp add: seg_inv_def)
  obtain k where r1: "r1 = Inr k" and r: "r = produced e' key val headers k" using res by (cases r1) auto
  have "seg_log fs2 s' = seg_log fs1 s @ [(nextOffset s, produced e' key val headers 0)] \<and> k = nextOffset s"
    using append_visible(2) [OF wf seg_budget_room [OF wf s(3)] produced_ok [OF assms(4) rng] a]
    by (auto simp: r1 append_failed_def tp(2))
  then show ?thesis
    using tp by (simp add: topic_log_def s(1) b2 r produced_def)
qed

theorem reopened_topic_stamps_zero_witness:
  "\<exists>tp fs1 b1 r fs2 b2 l.
    CreateTopic calm_env ''t'' (fst sample_produced) (empty_broker ''data'') = (Inr tp, fs1, b1) \<and>
    Produce calm_env ''t'' None None fmempty fs1 b1 = (Inr r, fs2, b2) \<and> Offset r = 1 \<and>
    topic_log fs2 b2 ''t'' = Some (l @ [(1, r\<lparr>Offset := 0\<rparr>)])"
proof -
  define c where "c = CreateTopic calm_env ''t'' (fst sample_produced) (empty_broker ''data'')"
  define p where "p = Produce calm_env ''t'' None None fmempty (fst (snd c)) (snd (snd c))"
  have "fst p = Inr (produced calm_env None None fmempty 1)"
    unfolding p_def c_def by code_simp
  then obtain fs2 b2 where p: "Produce calm_env ''t'' None None fmempty (fst (snd c)) (snd (snd c)) =
      (Inr (produced calm_env None None fmempty 1), fs2, b2)"
    by (cases p) (auto simp: p_def)
  have inv: "broker_inv (Suc (Suc 0)) (fst sample_produced) (empty_broker ''data'')"
    using restart_inv [OF sample_produced_inv] by (simp add: sample_produced_dir)
  have name: "plain_name ''t''" by (simp add: plain_name_def)
  obtain res fs1 b1 where run: "CreateTopic calm_env ''t'' (fst sample_produced) (empty_broker ''data'') = (res, fs1, b1)"
    by (metis prod_cases3)
  obtain tp where c: "CreateTopic calm_env ''t'' (fst sample_produced) (empty_broker ''data'') = (Inr tp, fs1, b1)"
    using CreateTopic_run(8) [OF inv name run quiet_calm_env] run by blast
  have "fmlookup (topics (empty_broker ''data'')) ''t'' = None" by (simp add: empty_broker_def)
  from reopened_topic_stamps_zero [OF inv name this headers_ok_empty c] p c show ?thesis
    by (fastforce simp: c_def produced_def)
qed

end
