(* ===== verification/Broker_Tx.thy ===== *)
theory Broker_Tx
  imports Broker_Core
begin

text \<open>
  Transactions (\<^verbatim>\<open>broker/transactions.go\<close>) and idempotent producing (\<^verbatim>\<open>broker/idempotent.go\<close>).  Both are
  clients of the topic store of \<^verbatim>\<open>Broker_Core\<close>: what they rely on is the locale \<open>topic_store\<close>, and the
  publishing loop of a commit is analysed once in it.  A commit and an idempotent produce release the
  broker's mutex in between, so each is divided into the parts that hold it.  Composed without interference
  the parts are the operations; the relation \<open>conc_step\<close> interleaves the parts of any number of calls.
\<close>

section \<open>The topic store as an interface\<close>

definition content :: "int \<times> Record \<Rightarrow> bytes option \<times> bytes option \<times> (string, string) fmap" where
  "content x = (Key (snd x), Value (snd x), Headers (snd x))"

definition tx_content :: "TxRecord \<Rightarrow> bytes option \<times> bytes option \<times> (string, string) fmap" where
  "tx_content r = (copy_bytes (txr_Key r), copy_bytes (txr_Value r), txr_Headers r)"

text \<open>A log that was extended by records with the given contents; opening a topic brings its log into view.\<close>

definition grows :: "(int \<times> Record) list option \<Rightarrow> (int \<times> Record) list option \<Rightarrow>
    (bytes option \<times> bytes option \<times> (string, string) fmap) list \<Rightarrow> bool" where
  "grows old new cs \<longleftrightarrow>
     new = old \<and> cs = [] \<or>
     (\<exists>base ext. new = Some (base @ ext) \<and> (old = Some base \<or> old = None) \<and> map content ext = cs)"

lemma grows_refl: "grows l l []"
  by (simp add: grows_def)

lemma grows_trans: "grows a b cs \<Longrightarrow> grows b c ds \<Longrightarrow> grows a c (cs @ ds)"
  by (auto simp: grows_def) (metis append.assoc map_append)+

locale topic_store =
  fixes inv :: "nat \<Rightarrow> 'st \<Rightarrow> bool"
    and log :: "'st \<Rightarrow> string \<Rightarrow> (int \<times> Record) list option"
    and create :: "env \<Rightarrow> string \<Rightarrow> 'st \<Rightarrow> (go_error + 'h) \<times> 'st"
    and prodc :: "env \<Rightarrow> string \<Rightarrow> bytes option \<Rightarrow> bytes option \<Rightarrow> (string, string) fmap \<Rightarrow> 'st \<Rightarrow> (go_error + Record) \<times> 'st"
  assumes inv_less: "inv (Suc n) st \<Longrightarrow> inv n st"
    and create_inv: "inv (Suc n) st \<Longrightarrow> plain_name t \<Longrightarrow> create e t st = (res, st') \<Longrightarrow> inv n st'"
    and create_grows: "inv (Suc n) st \<Longrightarrow> plain_name t \<Longrightarrow> create e t st = (res, st') \<Longrightarrow> grows (log st x) (log st' x) []"
    and prod_inv: "inv (Suc n) st \<Longrightarrow> headers_ok h \<Longrightarrow> prodc e t k v h st = (pres, st') \<Longrightarrow> inv n st'"
    and prod_effect: "inv (Suc n) st \<Longrightarrow> headers_ok h \<Longrightarrow> prodc e t k v h st = (pres, st') \<Longrightarrow>
      produce_effect e t k v h (log st) pres (log st')"

text \<open>The loop of \<^verbatim>\<open>CommitTransaction\<close>: create the topic, produce the record, count; stop at the first error.\<close>

fun publish_loop :: "(env \<Rightarrow> string \<Rightarrow> 'st \<Rightarrow> (go_error + 'h) \<times> 'st) \<Rightarrow>
    (env \<Rightarrow> string \<Rightarrow> bytes option \<Rightarrow> bytes option \<Rightarrow> (string, string) fmap \<Rightarrow> 'st \<Rightarrow> (go_error + Record) \<times> 'st) \<Rightarrow>
    (nat \<Rightarrow> env) \<Rightarrow> TxRecord list \<Rightarrow> nat \<Rightarrow> 'st \<Rightarrow> nat \<times> go_error option \<times> 'st" where
  "publish_loop create prodc es [] committed st = (committed, None, st)"
| "publish_loop create prodc es (r # rs) committed st =
     (case create (es (2 * committed)) (txr_Topic r) st of
        (Inl err, st1) \<Rightarrow> (committed, Some err, st1)
      | (Inr _, st1) \<Rightarrow>
          (case prodc (es (2 * committed + 1)) (txr_Topic r) (txr_Key r) (txr_Value r) (txr_Headers r) st1 of
             (Inl err, st2) \<Rightarrow> (committed, Some err, st2)
           | (Inr _, st2) \<Rightarrow> publish_loop create prodc es rs (Suc committed) st2))"

definition tx_record_ok :: "TxRecord \<Rightarrow> bool" where
  "tx_record_ok r \<longleftrightarrow> plain_name (txr_Topic r) \<and> headers_ok (txr_Headers r)"

text \<open>The contents a list of transaction records adds to one topic.\<close>

definition for_topic :: "string \<Rightarrow> TxRecord list \<Rightarrow> (bytes option \<times> bytes option \<times> (string, string) fmap) list" where
  "for_topic x rs = map tx_content (filter (\<lambda>r. txr_Topic r = x) rs)"

lemma for_topic_Cons: "for_topic x (r # rs) = for_topic x [r] @ for_topic x rs"
  by (simp add: for_topic_def)

context topic_store
begin

lemma inv_add: "inv (m + n) st \<Longrightarrow> inv n st"
  by (induction m) (auto intro: inv_less)

lemma prod_grows:
  assumes "inv (Suc n) st" "headers_ok (txr_Headers r)" "prodc e (txr_Topic r) (txr_Key r) (txr_Value r) (txr_Headers r) st = (res, st')"
  shows "(\<forall>x. grows (log st x) (log st' x) (for_topic x [r])) \<or> (log st' = log st \<and> (\<exists>err. res = Inl err))"
  using prod_effect [OF assms]
  by (auto simp: produce_effect_def grows_def for_topic_def content_def tx_content_def produced_def)

lemma publish_step:
  assumes "inv (Suc (Suc n)) st" "tx_record_ok r" "create e (txr_Topic r) st = (c, st1)"
    and "prodc e' (txr_Topic r) (txr_Key r) (txr_Value r) (txr_Headers r) st1 = (p, st2)"
  shows "inv n st2"
    and "(\<forall>x. grows (log st x) (log st2 x) (for_topic x [r])) \<or> (\<forall>x. grows (log st x) (log st2 x) []) \<and> (\<exists>err. p = Inl err)"
proof -
  have r: "plain_name (txr_Topic r)" "headers_ok (txr_Headers r)" using assms(2) by (simp_all add: tx_record_ok_def)
  note st1 = create_inv [OF assms(1) r(1) assms(3)] and g = create_grows [OF assms(1) r(1) assms(3)]
  show "inv n st2" by (rule prod_inv [OF st1 r(2) assms(4)])
  show "(\<forall>x. grows (log st x) (log st2 x) (for_topic x [r])) \<or> (\<forall>x. grows (log st x) (log st2 x) []) \<and> (\<exists>err. p = Inl err)"
    using prod_grows [OF st1 r(2) assms(4)] g grows_trans [OF g] by fastforce
qed

theorem publish_prefix:
  assumes "inv (2 * length rs + n) st" "list_all tx_record_ok rs"
    and "publish_loop create prodc es rs committed st = (k, err, st')"
  shows "inv n st' \<and> (\<exists>m. m \<le> length rs \<and> (\<forall>x. grows (log st x) (log st' x) (for_topic x (take m rs))) \<and>
     (if err = None then m = length rs \<and> k = committed + m else k \<le> committed + m \<and> committed + m \<le> Suc k))"
  using assms
proof (induction rs arbitrary: committed st)
  case Nil
  then show ?case by (auto simp: grows_refl for_topic_def)
next
  case (Cons r rs)
  obtain c st1 where c: "create (es (2 * committed)) (txr_Topic r) st = (c, st1)" by (metis surj_pair)
  obtain p st2 where p: "prodc (es (2 * committed + 1)) (txr_Topic r) (txr_Key r) (txr_Value r) (txr_Headers r) st1 = (p, st2)"
    by (metis surj_pair)
  have i: "inv (Suc (Suc (2 * length rs + n))) st" and r: "tx_record_ok r" and rs: "list_all tx_record_ok rs"
    using Cons.prems(1,2) by simp_all
  note step = publish_step [OF i r c p]
  note crt = create_inv [OF i _ c] create_grows [OF i _ c]
  have name: "plain_name (txr_Topic r)" using r by (simp add: tx_record_ok_def)
  consider (create_fails) er where "c = Inl er" | (prod_fails) h er where "c = Inr h" "p = Inl er" | (ok) h q where "c = Inr h" "p = Inr q"
    by (cases c; cases p) auto
  then show ?case
  proof cases
    case create_fails
    then have "st' = st1" "err \<noteq> None" "k = committed" using Cons.prems(3) by (auto simp: c)
    then show ?thesis
      using crt [OF name] inv_add [of "Suc (2 * length rs)" n st1] by (auto simp: for_topic_def intro!: exI [of _ 0])
  next
    case prod_fails
    then have st': "st' = st2" "err \<noteq> None" "k = committed" using Cons.prems(3) by (auto simp: c p [simplified])
    have "inv n st2" using step(1) inv_add [of "2 * length rs" n st2] by simp
    moreover obtain m where "m \<le> 1" "\<forall>x. grows (log st x) (log st2 x) (for_topic x (take m (r # rs)))"
      using step(2) by (auto simp: for_topic_def intro: that [of 1] that [of 0])
    ultimately show ?thesis using st' by (intro conjI exI [of _ m]) auto
  next
    case ok
    then have run: "publish_loop create prodc es rs (Suc committed) st2 = (k, err, st')" using Cons.prems(3) by (simp add: c p [simplified])
    have grow: "grows (log st x) (log st2 x) (for_topic x [r])" for x using step(2) ok by auto
    from Cons.IH [OF step(1) rs run] obtain m where m: "inv n st'" "m \<le> length rs"
        "\<forall>x. grows (log st2 x) (log st' x) (for_topic x (take m rs))"
        "if err = None then m = length rs \<and> k = Suc committed + m else k \<le> Suc committed + m \<and> Suc committed + m \<le> Suc k"
      by blast
    have "grows (log st x) (log st' x) (for_topic x (take (Suc m) (r # rs)))" for x
      using grows_trans [OF grow m(3) [rule_format]] by (simp add: for_topic_Cons [of x r "take m rs"])
    then show ?thesis using m by (intro conjI exI [of _ "Suc m"]) (auto split: if_splits)
  qed
qed

end

section \<open>The broker provides it\<close>

definition store_create :: "env \<Rightarrow> string \<Rightarrow> fs \<times> Broker \<Rightarrow> (go_error + Topic) \<times> fs \<times> Broker" where
  "store_create e t st = CreateTopic e t (fst st) (snd st)"

definition store_produce :: "env \<Rightarrow> string \<Rightarrow> bytes option \<Rightarrow> bytes option \<Rightarrow> (string, string) fmap \<Rightarrow>
    fs \<times> Broker \<Rightarrow> (go_error + Record) \<times> fs \<times> Broker" where
  "store_produce e t k v h st = Produce e t k v h (fst st) (snd st)"

definition store_inv :: "nat \<Rightarrow> fs \<times> Broker \<Rightarrow> bool" where
  "store_inv n st = broker_inv n (fst st) (snd st)"

definition store_log :: "fs \<times> Broker \<Rightarrow> string \<Rightarrow> (int \<times> Record) list option" where
  "store_log st = topic_log (fst st) (snd st)"

interpretation broker_store: topic_store store_inv store_log store_create store_produce
proof
  fix n and st :: "fs \<times> Broker" and e t res st' x k v h and pres :: "go_error + Record"
  assume inv: "store_inv (Suc n) st"
  then have i: "broker_inv (Suc n) (fst st) (snd st)" by (simp add: store_inv_def)
  show "store_inv n st" using i broker_inv_less by (simp add: store_inv_def)
  { assume t: "plain_name t" and "store_create e t st = (res, st')"
    then have run: "CreateTopic e t (fst st) (snd st) = (res, fst st', snd st')" by (simp add: store_create_def)
    note c = CreateTopic_run [OF i t run]
    show "store_inv n st'" using c(1) by (simp add: store_inv_def)
    show "grows (store_log st x) (store_log st' x) []"
    proof (cases "x = t \<and> topic_log (fst st) (snd st) t = None")
      case True
      then show ?thesis
        using c(5,6) by (cases res) (auto simp: grows_def store_log_def topic_log_def)
    next
      case False
      then have "topic_log (fst st') (snd st') x = topic_log (fst st) (snd st) x"
        using c(3,4) by (cases "x = t") auto
      then show ?thesis by (simp add: grows_def store_log_def)
    qed }
  { assume h: "headers_ok h" and "store_produce e t k v h st = (pres, st')"
    then have run: "Produce e t k v h (fst st) (snd st) = (pres, fst st', snd st')" by (simp add: store_produce_def)
    show "store_inv n st'" "produce_effect e t k v h (store_log st) pres (store_log st')"
      using Produce_run [OF i h run] by (simp_all add: store_inv_def store_log_def) }
qed

section \<open>Transactions\<close>

definition ErrTxNotFound :: go_error where "ErrTxNotFound = Err ''transaction not found''"

definition ErrTxClosed :: go_error where "ErrTxClosed = Err ''transaction is already closed''"

definition BeginTransaction :: "env \<Rightarrow> string \<Rightarrow> int \<Rightarrow> Broker \<Rightarrow> (go_error + string) \<times> Broker" where
  "BeginTransaction e producerID epoch b =
     (if producerID = [] then (Inl (Err ''producerID is required''), b)
      else
        let txID = producerID @ ''-'' @ fmt_d epoch @ ''-'' @ fmt_d (UnixNano (env_clock e 0));
            tx = \<lparr> tx_ID = txID, tx_ProducerID = producerID, tx_Epoch = epoch, tx_Status = ''open'',
                   tx_CreatedAt = env_clock e 1, tx_Records = [] \<rparr>
        in (Inr txID, b\<lparr>txState := fmupd txID tx (txState b)\<rparr>))"

definition TxProduce :: "string \<Rightarrow> string \<Rightarrow> bytes option \<Rightarrow> bytes option \<Rightarrow> (string, string) fmap \<Rightarrow>
    Broker \<Rightarrow> go_error option \<times> Broker" where
  "TxProduce txID topic key val headers b =
     (if topic = [] then (Some (Err ''topic is required''), b)
      else case fmlookup (txState b) txID of
        None \<Rightarrow> (Some ErrTxNotFound, b)
      | Some tx \<Rightarrow>
          if tx_Status tx \<noteq> ''open'' then (Some ErrTxClosed, b)
          else
            let r = \<lparr> txr_Topic = topic, txr_Key = copy_bytes key, txr_Value = copy_bytes val,
                      txr_Headers = cloneHeaders headers \<rparr>
            in (None, b\<lparr>txState := fmupd txID (tx\<lparr>tx_Records := tx_Records tx @ [r]\<rparr>) (txState b)\<rparr>))"

text \<open>The two parts of \<^verbatim>\<open>CommitTransaction\<close> that hold the lock: taking the records, and setting the final status.\<close>

definition commit_begin :: "string \<Rightarrow> Broker \<Rightarrow> (go_error + TxRecord list) \<times> Broker" where
  "commit_begin txID b =
     (case fmlookup (txState b) txID of
        None \<Rightarrow> (Inl ErrTxNotFound, b)
      | Some tx \<Rightarrow>
          if tx_Status tx \<noteq> ''open'' then (Inl ErrTxClosed, b)
          else (Inr (tx_Records tx), b\<lparr>txState := fmupd txID (tx\<lparr>tx_Status := ''committing''\<rparr>) (txState b)\<rparr>))"

definition commit_finish :: "string \<Rightarrow> Broker \<Rightarrow> Broker" where
  "commit_finish txID b =
     (case fmlookup (txState b) txID of
        None \<Rightarrow> b
      | Some tx \<Rightarrow> b\<lparr>txState := fmupd txID (tx\<lparr>tx_Status := ''committed''\<rparr>) (txState b)\<rparr>)"

definition CommitTransaction :: "(nat \<Rightarrow> env) \<Rightarrow> string \<Rightarrow> fs \<Rightarrow> Broker \<Rightarrow> nat \<times> go_error option \<times> fs \<times> Broker" where
  "CommitTransaction es txID fs b =
     (case commit_begin txID b of
        (Inl err, b1) \<Rightarrow> (0, Some err, fs, b1)
      | (Inr records, b1) \<Rightarrow>
          (case publish_loop store_create store_produce es records 0 (fs, b1) of
             (committed, Some err, st) \<Rightarrow> (committed, Some err, st)
           | (committed, None, (fs2, b2)) \<Rightarrow> (committed, None, fs2, commit_finish txID b2)))"

definition AbortTransaction :: "string \<Rightarrow> Broker \<Rightarrow> go_error option \<times> Broker" where
  "AbortTransaction txID b =
     (case fmlookup (txState b) txID of
        None \<Rightarrow> (Some ErrTxNotFound, b)
      | Some tx \<Rightarrow>
          if tx_Status tx \<noteq> ''open'' then (Some ErrTxClosed, b)
          else (None, b\<lparr>txState := fmupd txID (tx\<lparr>tx_Status := ''aborted'', tx_Records := []\<rparr>) (txState b)\<rparr>))"

definition ConsumeReadCommitted :: "env \<Rightarrow> string \<Rightarrow> int \<Rightarrow> int \<Rightarrow> fs \<Rightarrow> Broker \<Rightarrow> go_error + Record list" where
  "ConsumeReadCommitted e topicName fromOffset mx fs b = Consume e topicName fromOffset mx fs b"

section \<open>Idempotent produce\<close>

definition ErrOutOfOrderSequence :: go_error where
  "ErrOutOfOrderSequence = Err ''out-of-order producer sequence''"

definition seqKey :: "string \<Rightarrow> string \<Rightarrow> string" where
  "seqKey topicName producerID = topicName @ ''|'' @ producerID"

definition dedupKey :: "string \<Rightarrow> string \<Rightarrow> int \<Rightarrow> string" where
  "dedupKey topicName producerID sequence = seqKey topicName producerID @ ''|'' @ fmt_d sequence"

text \<open>
  The part of \<^verbatim>\<open>ProduceIdempotent\<close> before the produce, \<^verbatim>\<open>Some\<close> when the call returns there, and the part after a produce
  that succeeded.
\<close>

definition idem_lookup :: "string \<Rightarrow> string \<Rightarrow> int \<Rightarrow> Broker \<Rightarrow> (go_error + Record \<times> bool) option" where
  "idem_lookup topicName producerID sequence b =
     (if producerID = [] then Some (Inl (Err ''producerID is required''))
      else case fmlookup (dedupCache b) (dedupKey topicName producerID sequence) of
        Some cached \<Rightarrow> Some (Inr (cached, True))
      | None \<Rightarrow>
          if (case fmlookup (producerSeq b) (seqKey topicName producerID) of None \<Rightarrow> False | Some lst \<Rightarrow> sequence < lst)
          then Some (Inl ErrOutOfOrderSequence)
          else None)"

definition idem_store :: "string \<Rightarrow> string \<Rightarrow> int \<Rightarrow> Record \<Rightarrow> Broker \<Rightarrow> Broker" where
  "idem_store topicName producerID sequence rec b =
     (let b1 = (if map_get 0 (producerSeq b) (seqKey topicName producerID) < sequence
                then b\<lparr>producerSeq := fmupd (seqKey topicName producerID) sequence (producerSeq b)\<rparr> else b)
      in b1\<lparr>dedupCache := fmupd (dedupKey topicName producerID sequence) rec (dedupCache b1)\<rparr>)"

definition ProduceIdempotent :: "env \<Rightarrow> string \<Rightarrow> bytes option \<Rightarrow> bytes option \<Rightarrow> (string, string) fmap \<Rightarrow>
    string \<Rightarrow> int \<Rightarrow> fs \<Rightarrow> Broker \<Rightarrow> (go_error + Record \<times> bool) \<times> fs \<times> Broker" where
  "ProduceIdempotent e topicName key val headers producerID sequence fs b =
     (case idem_lookup topicName producerID sequence b of
        Some res \<Rightarrow> (res, fs, b)
      | None \<Rightarrow>
          (case Produce e topicName key val headers fs b of
             (Inl err, fs1, b1) \<Rightarrow> (Inl err, fs1, b1)
           | (Inr rec, fs1, b1) \<Rightarrow> (Inr (rec, False), fs1, idem_store topicName producerID sequence rec b1)))"

section \<open>What each operation leaves alone\<close>

lemma CreateTopic_frame:
  "CreateTopic e t fs b = (res, fs', b') \<Longrightarrow>
    txState b' = txState b \<and> producerSeq b' = producerSeq b \<and> dedupCache b' = dedupCache b"
  by (auto simp: CreateTopic_def Let_def split: option.splits if_splits prod.splits sum.splits)

lemma Produce_frame:
  "Produce e t k v h fs b = (res, fs', b') \<Longrightarrow>
    txState b' = txState b \<and> producerSeq b' = producerSeq b \<and> dedupCache b' = dedupCache b"
  by (auto simp: Produce_def Let_def split: option.splits if_splits prod.splits sum.splits)

lemma publish_frame:
  "publish_loop store_create store_produce es rs i (fs, b) = (k, err, fs', b') \<Longrightarrow>
    txState b' = txState b \<and> producerSeq b' = producerSeq b \<and> dedupCache b' = dedupCache b"
proof (induction rs arbitrary: i fs b)
  case (Cons r rs)
  obtain c fs1 b1 where c: "CreateTopic (es (2 * i)) (txr_Topic r) fs b = (c, fs1, b1)" by (rule prod_cases3)
  obtain p fs2 b2 where p: "Produce (es (Suc (2 * i))) (txr_Topic r) (txr_Key r) (txr_Value r) (txr_Headers r) fs1 b1 = (p, fs2, b2)"
    by (rule prod_cases3)
  have step: "publish_loop store_create store_produce es (r # rs) i (fs, b) =
      (case c of Inl err \<Rightarrow> (i, Some err, fs1, b1)
       | Inr _ \<Rightarrow> case p of Inl err \<Rightarrow> (i, Some err, fs2, b2)
         | Inr _ \<Rightarrow> publish_loop store_create store_produce es rs (Suc i) (fs2, b2))"
    by (simp add: store_create_def store_produce_def c p split: sum.split)
  show ?case
    using Cons.prems [unfolded step] Cons.IH [of "Suc i" fs2 b2] CreateTopic_frame [OF c] Produce_frame [OF p]
    by (auto split: sum.splits)
qed simp

lemma topic_log_txState [simp]:
  "topic_log fs (b\<lparr>txState := x\<rparr>) = topic_log fs b" "broker_inv n fs (b\<lparr>txState := x\<rparr>) = broker_inv n fs b"
  by (auto simp: topic_log_def broker_inv_def)

lemma topic_log_seq [simp]:
  "topic_log fs (b\<lparr>producerSeq := y\<rparr>) = topic_log fs b" "broker_inv n fs (b\<lparr>producerSeq := y\<rparr>) = broker_inv n fs b"
  "topic_log fs (b\<lparr>dedupCache := z\<rparr>) = topic_log fs b" "broker_inv n fs (b\<lparr>dedupCache := z\<rparr>) = broker_inv n fs b"
  by (auto simp: topic_log_def broker_inv_def)

section \<open>Interleaved calls\<close>

text \<open>
  A call that has released the lock and has not returned yet: an idempotent produce before or after its produce, a commit
  before or after creating the topic of its next record.  A commit holds a pointer to its transaction; when the same
  identifier is begun again, the map points to a new transaction and the commit is detached from it.
\<close>

datatype call =
    Idem_Produce string "bytes option" "bytes option" "(string, string) fmap" string int
  | Idem_Store string string int Record
  | Commit_Create string bool "TxRecord list"
  | Commit_Produce string bool TxRecord "TxRecord list"

fun detach :: "string \<Rightarrow> call \<Rightarrow> call" where
  "detach i (Commit_Create j a rs) = Commit_Create j (a \<and> j \<noteq> i) rs"
| "detach i (Commit_Produce j a r rs) = Commit_Produce j (a \<and> j \<noteq> i) r rs"
| "detach i c = c"

definition finished :: "nat \<Rightarrow> call list \<Rightarrow> call list" where
  "finished j cs = take j cs @ drop (Suc j) cs"

type_synonym conc = "fs \<times> Broker \<times> call list"

text \<open>One critical section of some call, labelled with the transaction identifier it begins, if it begins one.\<close>

inductive conc_step :: "conc \<Rightarrow> string option \<Rightarrow> conc \<Rightarrow> bool" where
  create: "CreateTopic e t fs b = (res, fs', b') \<Longrightarrow> conc_step (fs, b, cs) None (fs', b', cs)"
| produce: "Produce e t k v h fs b = (pres, fs', b') \<Longrightarrow> conc_step (fs, b, cs) None (fs', b', cs)"
| drain: "conc_step (fs, b, cs) None (fs, Drain e d b, cs)"
| commit_offset: "CommitOffset e t g off fs b = (err, fs') \<Longrightarrow> conc_step (fs, b, cs) None (fs', b, cs)"
| begin_tx: "BeginTransaction e p ep b = (Inr i, b') \<Longrightarrow> conc_step (fs, b, cs) (Some i) (fs, b', map (detach i) cs)"
| tx_produce: "TxProduce i t k v h b = (err, b') \<Longrightarrow> conc_step (fs, b, cs) None (fs, b', cs)"
| abort: "AbortTransaction i b = (err, b') \<Longrightarrow> conc_step (fs, b, cs) None (fs, b', cs)"
| commit_start: "commit_begin i b = (Inr rs, b') \<Longrightarrow> conc_step (fs, b, cs) None (fs, b', cs @ [Commit_Create i True rs])"
| commit_create: "j < length cs \<Longrightarrow> cs ! j = Commit_Create i a (r # rs) \<Longrightarrow> CreateTopic e (txr_Topic r) fs b = (res, fs', b') \<Longrightarrow>
    cs' = (case res of Inl err \<Rightarrow> finished j cs | Inr tp \<Rightarrow> cs[j := Commit_Produce i a r rs]) \<Longrightarrow>
    conc_step (fs, b, cs) None (fs', b', cs')"
| commit_produce: "j < length cs \<Longrightarrow> cs ! j = Commit_Produce i a r rs \<Longrightarrow>
    Produce e (txr_Topic r) (txr_Key r) (txr_Value r) (txr_Headers r) fs b = (pres, fs', b') \<Longrightarrow>
    cs' = (case pres of Inl err \<Rightarrow> finished j cs | Inr x \<Rightarrow> cs[j := Commit_Create i a rs]) \<Longrightarrow>
    conc_step (fs, b, cs) None (fs', b', cs')"
| commit_end: "j < length cs \<Longrightarrow> cs ! j = Commit_Create i a [] \<Longrightarrow>
    conc_step (fs, b, cs) None (fs, if a then commit_finish i b else b, finished j cs)"
| idem_start: "idem_lookup t p s b = None \<Longrightarrow> conc_step (fs, b, cs) None (fs, b, cs @ [Idem_Produce t k v h p s])"
| idem_produce: "j < length cs \<Longrightarrow> cs ! j = Idem_Produce t k v h p s \<Longrightarrow> Produce e t k v h fs b = (pres, fs', b') \<Longrightarrow>
    cs' = (case pres of Inl err \<Rightarrow> finished j cs | Inr r \<Rightarrow> cs[j := Idem_Store t p s r]) \<Longrightarrow>
    conc_step (fs, b, cs) None (fs', b', cs')"
| idem_end: "j < length cs \<Longrightarrow> cs ! j = Idem_Store t p s r \<Longrightarrow>
    conc_step (fs, b, cs) None (fs, idem_store t p s r b, finished j cs)"

inductive conc_run :: "conc \<Rightarrow> string list \<Rightarrow> conc \<Rightarrow> bool" where
  stay: "conc_run st [] st"
| step: "conc_run st begun st1 \<Longrightarrow> conc_step st1 lbl st2 \<Longrightarrow>
    conc_run st (begun @ (case lbl of None \<Rightarrow> [] | Some i \<Rightarrow> [i])) st2"

lemma set_finished: "set (finished j cs) \<subseteq> set cs"
  by (auto simp: finished_def dest: in_set_takeD in_set_dropD)

lemma set_step_calls:
  "j < length cs \<Longrightarrow> cs' = (case res of Inl err \<Rightarrow> finished j cs | Inr x \<Rightarrow> cs[j := f x]) \<Longrightarrow> c \<in> set cs' \<Longrightarrow>
    c \<in> set cs \<or> (\<exists>x. c = f x)"
  using set_finished [of j cs] by (auto split: sum.splits dest!: set_update_subset_insert [THEN subsetD])

text \<open>The uninterrupted operations are among the interleavings.\<close>

lemma finished_last [simp]: "finished (length cs) (cs @ [c]) = cs"
  by (simp add: finished_def)

lemma conc_more: "conc_run st begun st1 \<Longrightarrow> conc_step st1 None st2 \<Longrightarrow> conc_run st begun st2"
  using conc_run.step [of st begun st1 None st2] by simp

lemma conc_trans: "conc_run st1 bs st2 \<Longrightarrow> conc_run st begun st1 \<Longrightarrow> conc_run st (begun @ bs) st2"
  by (induction rule: conc_run.induct) (auto dest: conc_run.step simp flip: append_assoc)

lemma publish_run:
  "publish_loop store_create store_produce es rs n (fs, b) = (k, err, fs', b') \<Longrightarrow>
    conc_run (fs, b, cs @ [Commit_Create i a rs]) [] (fs', b', if err = None then cs @ [Commit_Create i a []] else cs)"
proof (induction rs arbitrary: n fs b)
  case Nil
  then show ?case by (simp add: conc_run.stay)
next
  case (Cons r rs)
  obtain c fs1 b1 where c: "CreateTopic (es (2 * n)) (txr_Topic r) fs b = (c, fs1, b1)" by (rule prod_cases3)
  obtain p fs2 b2 where p: "Produce (es (Suc (2 * n))) (txr_Topic r) (txr_Key r) (txr_Value r) (txr_Headers r) fs1 b1 = (p, fs2, b2)"
    by (rule prod_cases3)
  note 1 = conc_more [OF conc_run.stay conc_step.commit_create [where j = "length cs", OF _ _ c refl]]
  note 2 = conc_more [OF _ conc_step.commit_produce [where j = "length cs", OF _ _ p refl]]
  have first: "conc_run (fs, b, cs @ [Commit_Create i a (r # rs)]) []
      (fs1, b1, case c of Inl err \<Rightarrow> cs | Inr tp \<Rightarrow> cs @ [Commit_Produce i a r rs])"
    using 1 [of "cs @ [Commit_Create i a (r # rs)]" i a rs] by (simp split: sum.splits)
  show ?case
  proof (cases c)
    case (Inl er)
    then show ?thesis using first Cons.prems by (auto simp: store_create_def c)
  next
    case (Inr tp)
    with first have "conc_run (fs, b, cs @ [Commit_Create i a (r # rs)]) [] (fs1, b1, cs @ [Commit_Produce i a r rs])" by simp
    then have second: "conc_run (fs, b, cs @ [Commit_Create i a (r # rs)]) []
        (fs2, b2, case p of Inl err \<Rightarrow> cs | Inr x \<Rightarrow> cs @ [Commit_Create i a rs])"
      using 2 [of "(fs, b, cs @ [Commit_Create i a (r # rs)])" "[]" "cs @ [Commit_Produce i a r rs]" i a rs] by (simp split: sum.splits)
    then show ?thesis using Cons.prems Inr Cons.IH [of "Suc n" fs2 b2] conc_trans [OF _ second]
      by (cases p) (auto simp: store_create_def store_produce_def c p)
  qed
qed

lemma CommitTransaction_cases:
  assumes "CommitTransaction es i fs b = (k, err, fs', b')"
  obtains er where "commit_begin i b = (Inl er, b)" "err = Some er" "fs' = fs" "b' = b" "k = 0"
    | rs b1 b2 where "commit_begin i b = (Inr rs, b1)"
        "publish_loop store_create store_produce es rs 0 (fs, b1) = (k, err, fs', b2)"
        "b' = (if err = None then commit_finish i b2 else b2)"
proof (cases "commit_begin i b")
  case (Pair res b1)
  show ?thesis
  proof (cases res)
    case (Inl er)
    then have "b1 = b" using Pair by (auto simp: commit_begin_def split: option.splits if_splits)
    then show ?thesis using that(1) assms Pair Inl by (auto simp: CommitTransaction_def)
  next
    case (Inr rs)
    obtain k2 err2 fs2 b2 where "publish_loop store_create store_produce es rs 0 (fs, b1) = (k2, err2, fs2, b2)" by (rule prod_cases4)
    then show ?thesis using that(2) [of rs b1 b2] assms Pair Inr by (cases err2) (auto simp: CommitTransaction_def)
  qed
qed

lemma commit_is_run:
  assumes "CommitTransaction es i fs b = (k, err, fs', b')"
  shows "conc_run (fs, b, cs) [] (fs', b', cs)"
  using assms
proof (cases rule: CommitTransaction_cases)
  case (2 rs b1 b2)
  from conc_trans [OF publish_run [OF 2(2)] conc_more [OF conc_run.stay conc_step.commit_start [OF 2(1)]]]
  have "conc_run (fs, b, cs) [] (fs', b2, if err = None then cs @ [Commit_Create i True []] else cs)" by simp
  then show ?thesis
    using conc_more [OF _ conc_step.commit_end [of "length cs" "cs @ [Commit_Create i True []]" i True fs' b2]] 2(3)
    by (cases err) auto
qed (simp add: conc_run.stay)

lemma idempotent_is_run:
  assumes "ProduceIdempotent e t k v h p s fs b = (res, fs', b')"
  shows "conc_run (fs, b, cs) [] (fs', b', cs)"
proof (cases "idem_lookup t p s b")
  case None
  obtain pr fs1 b1 where run: "Produce e t k v h fs b = (pr, fs1, b1)" by (rule prod_cases3)
  note 1 = conc_more [OF conc_run.stay conc_step.idem_start [OF None, of fs cs k v h]]
  note 2 = conc_more [OF 1 conc_step.idem_produce [where j = "length cs", OF _ _ run refl]]
  show ?thesis
  proof (cases pr)
    case (Inl err)
    then show ?thesis using 2 assms None run by (auto simp: ProduceIdempotent_def)
  next
    case (Inr r)
    then have "conc_run (fs, b, cs) [] (fs1, b1, cs @ [Idem_Store t p s r])" using 2 by simp
    then show ?thesis
      using conc_more [OF _ conc_step.idem_end [of "length cs" "cs @ [Idem_Store t p s r]" t p s r fs1 b1]] Inr assms None run
      by (auto simp: ProduceIdempotent_def)
  qed
qed (use assms in \<open>auto simp: ProduceIdempotent_def intro: conc_run.stay\<close>)

section \<open>What no step takes back\<close>

lemma begin_frame:
  "BeginTransaction e p ep b = (Inr i, b') \<Longrightarrow> \<exists>tx. b' = b\<lparr>txState := fmupd i tx (txState b)\<rparr>"
  by (auto simp: BeginTransaction_def Let_def split: if_splits)

lemma tx_frames:
  "TxProduce i t k v h b = (err, b') \<Longrightarrow> dedupCache b' = dedupCache b \<and> producerSeq b' = producerSeq b"
  "AbortTransaction i b = (err, b') \<Longrightarrow> dedupCache b' = dedupCache b \<and> producerSeq b' = producerSeq b"
  "BeginTransaction e p ep b = (ires, b') \<Longrightarrow> dedupCache b' = dedupCache b \<and> producerSeq b' = producerSeq b"
  "commit_begin i b = (cres, b') \<Longrightarrow> dedupCache b' = dedupCache b \<and> producerSeq b' = producerSeq b"
  "dedupCache (commit_finish i b) = dedupCache b \<and> producerSeq (commit_finish i b) = producerSeq b"
  "dedupCache (Drain e d b) = dedupCache b \<and> producerSeq (Drain e d b) = producerSeq b \<and> txState (Drain e d b) = txState b"
  "txState (idem_store t p s r b) = txState b"
  by (auto simp: TxProduce_def AbortTransaction_def BeginTransaction_def commit_begin_def commit_finish_def Drain_def
      idem_store_def Let_def split: option.splits if_splits)

text \<open>A closed transaction: only its status changes, from committing to committed.\<close>

definition closed_as :: "Transaction \<Rightarrow> Transaction \<Rightarrow> bool" where
  "closed_as tx tx' \<longleftrightarrow> tx' = tx \<or> tx_Status tx = ''committing'' \<and> tx' = tx\<lparr>tx_Status := ''committed''\<rparr>"

definition attached :: "string \<Rightarrow> call \<Rightarrow> bool" where
  "attached i c \<longleftrightarrow> (\<exists>rs. c = Commit_Create i True rs) \<or> (\<exists>r rs. c = Commit_Produce i True r rs)"

definition conc_inv :: "conc \<Rightarrow> bool" where
  "conc_inv st \<longleftrightarrow> (case st of (fs, b, cs) \<Rightarrow> \<forall>i. (\<exists>c \<in> set cs. attached i c) \<longrightarrow>
     (\<exists>tx. fmlookup (txState b) i = Some tx \<and> tx_Status tx \<in> {''committing'', ''committed''}))"

lemma attached_simps [simp]:
  "attached i (Commit_Create j a rs) \<longleftrightarrow> a \<and> j = i" "attached i (Commit_Produce j a r rs) \<longleftrightarrow> a \<and> j = i"
  "\<not> attached i (Idem_Produce t k v h p s)" "\<not> attached i (Idem_Store t p s x)"
  "attached i (detach j c) \<longleftrightarrow> attached i c \<and> i \<noteq> j"
  by (cases c; auto simp: attached_def)+

lemma attached_step:
  assumes "conc_step (fs, b, cs) lbl (fs', b', cs')" "c' \<in> set cs'" "attached i c'"
  shows "lbl \<noteq> Some i \<and> ((\<exists>c \<in> set cs. attached i c) \<or> (\<exists>rs. commit_begin i b = (Inr rs, b')))"
  using assms
proof (cases rule: conc_step.cases)
  case (commit_create j i' a r rs e res)
  from set_step_calls [OF commit_create(2,5) assms(2)] nth_mem [OF commit_create(2)] show ?thesis
    using assms(3) commit_create by fastforce
next
  case (commit_produce j i' a r rs e pres)
  from set_step_calls [OF commit_produce(2,5) assms(2)] nth_mem [OF commit_produce(2)] show ?thesis
    using assms(3) commit_produce by fastforce
next
  case (idem_produce j t k v h p s e pres)
  from set_step_calls [OF idem_produce(2,5) assms(2)] show ?thesis
    using assms(3) idem_produce by auto
next
  case (commit_end j i' a)
  then show ?thesis using assms(2,3) set_finished [of j cs] by auto
next
  case (idem_end j t p s r)
  then show ?thesis using assms(2,3) set_finished [of j cs] by auto
qed auto

lemma closed_step:
  assumes "conc_step (fs, b, cs) lbl (fs', b', cs')" "conc_inv (fs, b, cs)" "lbl \<noteq> Some i"
    and "fmlookup (txState b) i = Some tx" "tx_Status tx \<noteq> ''open''"
  shows "\<exists>tx'. fmlookup (txState b') i = Some tx' \<and> closed_as tx tx'"
  using assms(1)
proof (cases rule: conc_step.cases)
  case (begin_tx e p ep i')
  then show ?thesis using assms(3,4) by (auto simp: closed_as_def dest!: begin_frame)
next
  case (tx_produce i' t k v h err)
  then show ?thesis
    using assms(4,5) by (auto simp: TxProduce_def Let_def closed_as_def split: if_splits option.splits)
next
  case (abort i' err)
  then show ?thesis
    using assms(4,5) by (auto simp: AbortTransaction_def closed_as_def split: if_splits option.splits)
next
  case (commit_start i' rs)
  then show ?thesis
    using assms(4,5) by (auto simp: commit_begin_def closed_as_def split: if_splits option.splits)
next
  case (commit_end j i' a)
  have "a \<and> i' = i \<Longrightarrow> tx_Status tx \<in> {''committing'', ''committed''}"
    using assms(2,4) nth_mem [OF commit_end(5)] commit_end(6) by (fastforce simp: conc_inv_def)
  then show ?thesis
    using assms(4) by (cases tx) (auto simp: commit_end commit_finish_def closed_as_def split: option.splits)
qed (use assms(4) in \<open>auto simp: closed_as_def tx_frames dest!: CreateTopic_frame Produce_frame\<close>)

lemma conc_inv_step:
  assumes "conc_inv (fs, b, cs)" "conc_step (fs, b, cs) lbl (fs', b', cs')"
  shows "conc_inv (fs', b', cs')"
  unfolding conc_inv_def prod.case
proof (intro allI impI)
  fix i assume "\<exists>c \<in> set cs'. attached i c"
  then obtain c' where "c' \<in> set cs'" "attached i c'" by blast
  from attached_step [OF assms(2) this]
  show "\<exists>tx. fmlookup (txState b') i = Some tx \<and> tx_Status tx \<in> {''committing'', ''committed''}"
  proof (elim conjE disjE)
    assume l: "lbl \<noteq> Some i" and "\<exists>c \<in> set cs. attached i c"
    then obtain tx where tx: "fmlookup (txState b) i = Some tx" "tx_Status tx \<in> {''committing'', ''committed''}"
      using assms(1) by (auto simp: conc_inv_def)
    then show ?thesis using closed_step [OF assms(2,1) l tx(1)] by (auto simp: closed_as_def)
  qed (auto simp: commit_begin_def split: option.splits if_splits)
qed

lemma conc_run_inv: "conc_run st begun st' \<Longrightarrow> conc_inv st \<Longrightarrow> conc_inv st'"
proof (induction rule: conc_run.induct)
  case (step st begun st1 lbl st2)
  then show ?case by (cases st1; cases st2) (auto intro: conc_inv_step)
qed

lemma closed_run:
  assumes "conc_run st begun st'" "conc_inv st" "i \<notin> set begun" "fmlookup (txState (fst (snd st))) i = Some tx" "tx_Status tx \<noteq> ''open''"
  shows "\<exists>tx'. fmlookup (txState (fst (snd st'))) i = Some tx' \<and> closed_as tx tx'"
  using assms
proof (induction rule: conc_run.induct)
  case (stay st)
  then show ?case by (simp add: closed_as_def)
next
  case (step st begun st1 lbl st2)
  then obtain tx1 where tx1: "fmlookup (txState (fst (snd st1))) i = Some tx1" "closed_as tx tx1" by auto
  then have "tx_Status tx1 \<noteq> ''open''" using step.prems(4) by (auto simp: closed_as_def)
  moreover have "lbl \<noteq> Some i" using step.prems(2) by auto
  ultimately obtain tx2 where "fmlookup (txState (fst (snd st2))) i = Some tx2" "closed_as tx1 tx2"
    using closed_step [of "fst st1" "fst (snd st1)" "snd (snd st1)" lbl "fst st2" "fst (snd st2)" "snd (snd st2)" i tx1]
      step.hyps(2) conc_run_inv [OF step.hyps(1) step.prems(1)] tx1(1) by auto
  then show ?case using tx1(2) by (auto simp: closed_as_def)
qed

text \<open>The cache and the sequence numbers of idempotent producers.\<close>

fun in_flight :: "string \<Rightarrow> call \<Rightarrow> bool" where
  "in_flight key (Idem_Produce t k v h p s) = (dedupKey t p s = key)"
| "in_flight key (Idem_Store t p s r) = (dedupKey t p s = key)"
| "in_flight key c = False"

lemma in_flight_detach [simp]: "in_flight key (detach i c) = in_flight key c"
  by (cases c) auto

definition seq_le :: "(string, int) fmap \<Rightarrow> (string, int) fmap \<Rightarrow> bool" where
  "seq_le m m' \<longleftrightarrow> (\<forall>k l. fmlookup m k = Some l \<longrightarrow> (\<exists>l'. l \<le> l' \<and> fmlookup m' k = Some l'))"

lemma idem_store_simps:
  "fmlookup (dedupCache (idem_store t p s r b)) key = (if key = dedupKey t p s then Some r else fmlookup (dedupCache b) key)"
  "seq_le (producerSeq b) (producerSeq (idem_store t p s r b))"
  by (auto simp: idem_store_def seq_le_def Let_def map_get_def split: option.splits)

lemma cache_step:
  assumes "conc_step (fs, b, cs) lbl (fs', b', cs')"
  shows "seq_le (producerSeq b) (producerSeq b')"
    and "fmlookup (dedupCache b) key = Some r \<Longrightarrow> \<exists>r'. fmlookup (dedupCache b') key = Some r'"
    and "fmlookup (dedupCache b) key = Some r \<Longrightarrow> \<forall>c \<in> set cs. \<not> in_flight key c \<Longrightarrow>
      fmlookup (dedupCache b') key = Some r \<and> (\<forall>c \<in> set cs'. \<not> in_flight key c)"
proof -
  have "seq_le m m" for m by (auto simp: seq_le_def)
  note keep = this tx_frames(5-7) idem_store_simps and frames = CreateTopic_frame Produce_frame tx_frames(1-4)
  show "seq_le (producerSeq b) (producerSeq b')"
    using assms by (cases rule: conc_step.cases) (auto simp: keep dest!: frames)
  show "\<exists>r'. fmlookup (dedupCache b') key = Some r'" if "fmlookup (dedupCache b) key = Some r"
    using assms that by (cases rule: conc_step.cases) (auto simp: keep dest!: frames)
  assume k: "fmlookup (dedupCache b) key = Some r" "\<forall>c \<in> set cs. \<not> in_flight key c"
  show "fmlookup (dedupCache b') key = Some r \<and> (\<forall>c \<in> set cs'. \<not> in_flight key c)"
    using assms
  proof (cases rule: conc_step.cases)
    case (commit_create j i a x rs e res)
    from set_step_calls [OF commit_create(2,5)] show ?thesis using k CreateTopic_frame [OF commit_create(4)] by fastforce
  next
    case (commit_produce j i a x rs e pres)
    from set_step_calls [OF commit_produce(2,5)] show ?thesis using k Produce_frame [OF commit_produce(4)] by fastforce
  next
    case (idem_produce j t k' v h p s e pres)
    from set_step_calls [OF idem_produce(2,5)] nth_mem [OF idem_produce(2)] show ?thesis
      using k Produce_frame [OF idem_produce(4)] idem_produce(3) by fastforce
  next
    case (idem_end j t p s x)
    then show ?thesis using k set_finished [of j cs] nth_mem [of j cs] by (fastforce simp: idem_store_simps)
  next
    case (commit_end j i a)
    then show ?thesis using k set_finished [of j cs] by (auto simp: tx_frames)
  next
    case (idem_start t p s)
    then show ?thesis using k by (auto simp: idem_lookup_def split: if_splits option.splits)
  qed (use k in \<open>auto simp: keep dest!: frames\<close>)
qed

lemma cache_run:
  assumes "conc_run st begun st'"
  shows "seq_le (producerSeq (fst (snd st))) (producerSeq (fst (snd st')))"
    and "fmlookup (dedupCache (fst (snd st))) key = Some r \<Longrightarrow> \<exists>r'. fmlookup (dedupCache (fst (snd st'))) key = Some r'"
    and "fmlookup (dedupCache (fst (snd st))) key = Some r \<Longrightarrow> \<forall>c \<in> set (snd (snd st)). \<not> in_flight key c \<Longrightarrow>
      fmlookup (dedupCache (fst (snd st'))) key = Some r \<and> (\<forall>c \<in> set (snd (snd st')). \<not> in_flight key c)"
proof -
  have trans: "seq_le a b \<Longrightarrow> seq_le b c \<Longrightarrow> seq_le a c" for a b c unfolding seq_le_def by (meson order_trans)
  have step: "conc_step st1 lbl st2 \<Longrightarrow> conc_step (fst st1, fst (snd st1), snd (snd st1)) lbl (fst st2, fst (snd st2), snd (snd st2))"
    for st1 lbl st2 by simp
  show "seq_le (producerSeq (fst (snd st))) (producerSeq (fst (snd st')))"
    using assms by induction (auto simp: seq_le_def [of x x for x] intro: trans cache_step(1) [OF step])
  show "\<exists>r'. fmlookup (dedupCache (fst (snd st'))) key = Some r'" if "fmlookup (dedupCache (fst (snd st))) key = Some r"
    using assms that by induction (auto dest: cache_step(2) [OF step])
  show "fmlookup (dedupCache (fst (snd st'))) key = Some r \<and> (\<forall>c \<in> set (snd (snd st')). \<not> in_flight key c)"
    if "fmlookup (dedupCache (fst (snd st))) key = Some r" "\<forall>c \<in> set (snd (snd st)). \<not> in_flight key c"
    using assms that by induction (auto dest: cache_step(3) [OF step])
qed

section \<open>Keys of the deduplication cache\<close>

lemma no_bar_fmt: "CHR ''|'' \<notin> set (fmt_d x)"
proof -
  have "CHR ''|'' \<notin> set (nat_dec n)" for n
    using all_digits_nat_dec [of n] by (auto simp: list_all_iff is_digit_def)
  then show ?thesis by (simp add: fmt_d_def)
qed

lemma split_at_last_char:
  assumes "c \<notin> set x" "c \<notin> set y" "a @ c # x = b @ c # y"
  shows "a = b \<and> x = y"
proof -
  have "rev x @ c # rev a = rev y @ c # rev b"
    using arg_cong [OF assms(3), of rev] by simp
  from split_at_char [OF _ _ this] assms(1,2) show ?thesis by simp
qed

lemma dedupKey_inject:
  assumes "CHR ''|'' \<notin> set t" "CHR ''|'' \<notin> set t'"
  shows "dedupKey t p s = dedupKey t' p' s' \<longleftrightarrow> t = t' \<and> p = p' \<and> s = s'"
proof
  assume "dedupKey t p s = dedupKey t' p' s'"
  then have "(t @ ''|'' @ p) @ CHR ''|'' # fmt_d s = (t' @ ''|'' @ p') @ CHR ''|'' # fmt_d s'"
    by (simp add: dedupKey_def seqKey_def)
  from split_at_last_char [OF no_bar_fmt no_bar_fmt this]
  have "t @ CHR ''|'' # p = t' @ CHR ''|'' # p'" "s = s'" by (auto dest: fmt_d_inject)
  with split_at_char [OF assms this(1)] show "t = t' \<and> p = p' \<and> s = s'" by simp
qed simp

section \<open>Properties\<close>

text \<open>C4. Committing an open transaction publishes its buffered records to their topics, in order. Without an
  error every record was published exactly once, the count says so and the transaction is committed. With
  an error a prefix was published, the reported count is that prefix's length or one less, and the
  transaction is left in the state committing.\<close>

theorem commit_publishes_prefix:
  assumes "broker_inv (2 * length (tx_Records tx) + n) fs b" "fmlookup (txState b) i = Some tx" "tx_Status tx = ''open''"
    and "list_all tx_record_ok (tx_Records tx)"
  shows "case CommitTransaction es i fs b of (k, err, fs', b') \<Rightarrow>
    broker_inv n fs' b' \<and>
    (\<exists>m \<le> length (tx_Records tx).
      (\<forall>x. grows (topic_log fs b x) (topic_log fs' b' x) (for_topic x (take m (tx_Records tx)))) \<and>
      (if err = None then m = length (tx_Records tx) \<and> k = m else k \<le> m \<and> m \<le> Suc k)) \<and>
    fmlookup (txState b') i = Some (tx\<lparr>tx_Status := (if err = None then ''committed'' else ''committing'')\<rparr>)"
proof -
  let ?b1 = "b\<lparr>txState := fmupd i (tx\<lparr>tx_Status := ''committing''\<rparr>) (txState b)\<rparr>"
  obtain k err fs2 b2 where run: "publish_loop store_create store_produce es (tx_Records tx) 0 (fs, ?b1) = (k, err, fs2, b2)"
    by (rule prod_cases4)
  have "store_inv (2 * length (tx_Records tx) + n) (fs, ?b1)"
    using assms(1) by (simp add: store_inv_def)
  note p = broker_store.publish_prefix [OF this assms(4) run, unfolded store_inv_def store_log_def]
  have f: "txState b2 = fmupd i (tx\<lparr>tx_Status := ''committing''\<rparr>) (txState b)"
    using publish_frame [OF run] by simp
  have "CommitTransaction es i fs b = (k, err, fs2,
      if err = None then b2\<lparr>txState := fmupd i (tx\<lparr>tx_Status := ''committed''\<rparr>) (txState b2)\<rparr> else b2)"
    using assms(2,3) run f by (cases err) (simp_all add: CommitTransaction_def commit_begin_def commit_finish_def)
  then show ?thesis
    using p f by (cases err) auto
qed

definition sample_tx :: Transaction where
  "sample_tx = \<lparr> tx_ID = ''x'', tx_ProducerID = ''p'', tx_Epoch = 0, tx_Status = ''open'', tx_CreatedAt = 0,
     tx_Records = [\<lparr> txr_Topic = ''t'', txr_Key = Some ''k'', txr_Value = None, txr_Headers = fmempty \<rparr>] \<rparr>"

definition sample_tx_broker :: Broker where
  "sample_tx_broker = (snd sample_broker)\<lparr>txState := fmupd ''x'' sample_tx fmempty\<rparr>"

theorem commit_publishes_prefix_witness:
  "case CommitTransaction (\<lambda>_. calm_env) ''x'' (fst sample_broker) sample_tx_broker of (k, err, fs', b') \<Rightarrow>
    broker_inv 1 fs' b' \<and>
    (\<exists>m \<le> length (tx_Records sample_tx).
      (\<forall>x. grows (topic_log (fst sample_broker) sample_tx_broker x) (topic_log fs' b' x) (for_topic x (take m (tx_Records sample_tx)))) \<and>
      (if err = None then m = length (tx_Records sample_tx) \<and> k = m else k \<le> m \<and> m \<le> Suc k)) \<and>
    fmlookup (txState b') ''x'' = Some (sample_tx\<lparr>tx_Status := (if err = None then ''committed'' else ''committing'')\<rparr>)"
proof (rule commit_publishes_prefix)
  show "broker_inv (2 * length (tx_Records sample_tx) + 1) (fst sample_broker) sample_tx_broker"
    using sample_broker_inv by (simp add: sample_tx_broker_def sample_tx_def numeral_eq_Suc)
qed (simp_all add: sample_tx_broker_def sample_tx_def tx_record_ok_def plain_name_def)

text \<open>C16. A transaction that is not open any more (aborted, committed, or caught in committing) is final, whatever critical
  sections of concurrent calls follow, as long as its identifier is not begun again: its records, producer and times
  never change, its status changes at most once more, from committing to committed, and adding to it, committing
  it or aborting it is refused without effect. The calls start from a new broker and may overlap in any way.\<close>

theorem closed_transaction_is_final:
  assumes "conc_run (fs0, empty_broker d, []) begun0 (fs, b, cs)"
    and "fmlookup (txState b) i = Some tx" "tx_Status tx \<noteq> ''open''"
    and "conc_run (fs, b, cs) begun (fs', b', cs')" "i \<notin> set begun" "t \<noteq> []"
  shows "(\<exists>tx'. fmlookup (txState b') i = Some tx' \<and>
      (tx' = tx \<or> tx_Status tx = ''committing'' \<and> tx' = tx\<lparr>tx_Status := ''committed''\<rparr>)) \<and>
    CommitTransaction es i fs' b' = (0, Some ErrTxClosed, fs', b') \<and>
    AbortTransaction i b' = (Some ErrTxClosed, b') \<and>
    TxProduce i t k v h b' = (Some ErrTxClosed, b')"
proof -
  have "conc_inv (fs, b, cs)" by (rule conc_run_inv [OF assms(1)]) (simp add: conc_inv_def)
  from closed_run [OF assms(4) this assms(5), of tx] assms(2,3) obtain tx' where
    tx': "fmlookup (txState b') i = Some tx'" "closed_as tx tx'" by auto
  then have "tx_Status tx' \<noteq> ''open''" using assms(3) by (auto simp: closed_as_def)
  then show ?thesis
    using tx' assms(6) by (auto simp: CommitTransaction_def commit_begin_def AbortTransaction_def TxProduce_def closed_as_def)
qed

theorem closed_transaction_is_final_witness:
  "\<exists>i b1 b2. BeginTransaction calm_env ''p'' 7 (empty_broker ''d'') = (Inr i, b1) \<and> AbortTransaction i b1 = (None, b2) \<and>
    CommitTransaction (\<lambda>_. calm_env) i fmempty b2 = (0, Some ErrTxClosed, fmempty, b2)"
proof -
  obtain i b1 where bg: "BeginTransaction calm_env ''p'' 7 (empty_broker ''d'') = (Inr i, b1)"
    by (simp add: BeginTransaction_def Let_def)
  then obtain tx where tx: "fmlookup (txState b1) i = Some tx" "tx_Status tx = ''open''"
    by (auto simp: BeginTransaction_def Let_def)
  define b2 where "b2 = snd (AbortTransaction i b1)"
  have ab: "AbortTransaction i b1 = (None, b2)" "fmlookup (txState b2) i = Some (tx\<lparr>tx_Status := ''aborted'', tx_Records := []\<rparr>)"
    using tx by (simp_all add: b2_def AbortTransaction_def)
  have "conc_run (fmempty, empty_broker ''d'', []) [i] (fmempty, b1, [])"
    using conc_run.step [OF conc_run.stay conc_step.begin_tx [OF bg, of fmempty "[]"]] by simp
  then have run: "conc_run (fmempty, empty_broker ''d'', []) [i] (fmempty, b2, [])"
    using conc_run.step [OF _ conc_step.abort [OF ab(1), of fmempty "[]"]] by fastforce
  have "CommitTransaction (\<lambda>_. calm_env) i fmempty b2 = (0, Some ErrTxClosed, fmempty, b2)"
    using closed_transaction_is_final [OF run ab(2) _ conc_run.stay, of "''t''" "\<lambda>_. calm_env"] by simp
  then show ?thesis using bg ab(1) by blast
qed

text \<open>Beginning, filling and aborting a transaction touch no topic and no file; after an abort the
  buffered records are gone.\<close>

theorem abort_publishes_nothing:
  "(case BeginTransaction e p ep b of (_, b') \<Rightarrow> topics b' = topics b) \<and>
   (case TxProduce i t k v h b of (_, b') \<Rightarrow> topics b' = topics b) \<and>
   (case AbortTransaction i b of (err, b') \<Rightarrow> topics b' = topics b \<and>
      (err = None \<longrightarrow> map_option tx_Records (fmlookup (txState b') i) = Some [] \<and>
         map_option tx_Status (fmlookup (txState b') i) = Some ''aborted''))"
  by (auto simp: BeginTransaction_def TxProduce_def AbortTransaction_def Let_def split: option.splits)

theorem abort_publishes_nothing_witness:
  "(case BeginTransaction calm_env ''p'' 1 sample_tx_broker of (_, b') \<Rightarrow> topics b' = topics sample_tx_broker) \<and>
   (case TxProduce ''x'' ''t'' None None fmempty sample_tx_broker of (_, b') \<Rightarrow> topics b' = topics sample_tx_broker) \<and>
   (case AbortTransaction ''x'' sample_tx_broker of (err, b') \<Rightarrow> topics b' = topics sample_tx_broker \<and>
      (err = None \<longrightarrow> map_option tx_Records (fmlookup (txState b') ''x'') = Some [] \<and>
         map_option tx_Status (fmlookup (txState b') ''x'') = Some ''aborted''))"
  by (rule abort_publishes_nothing)

text \<open>C17. Once an idempotent produce has returned a record, repeating it with the same topic, producer and sequence number,
  in any later state and whatever other calls overlap, appends nothing and returns a record marked as a duplicate.
  It is the same record if no other call with that key was under way when the first one returned; a call that was
  under way may still replace the cached record by its own.\<close>

theorem idempotent_retry_is_noop:
  assumes "p \<noteq> []" "b1 = idem_store t p s r b0 \<or> idem_lookup t p s b1 = Some (Inr (r, True))"
    and "conc_run (fs1, b1, cs) begun (fs2, b2, cs')"
  shows "\<exists>r'. ProduceIdempotent e t k v h p s fs2 b2 = (Inr (r', True), fs2, b2) \<and>
    ((\<forall>c \<in> set cs. \<not> in_flight (dedupKey t p s) c) \<longrightarrow> r' = r)"
proof -
  have key: "fmlookup (dedupCache b1) (dedupKey t p s) = Some r"
    using assms(1,2) by (auto simp: idem_store_simps idem_lookup_def split: option.splits if_splits)
  then obtain r' where r': "fmlookup (dedupCache b2) (dedupKey t p s) = Some r'"
    using cache_run(2) [OF assms(3)] by auto
  moreover have "(\<forall>c \<in> set cs. \<not> in_flight (dedupKey t p s) c) \<longrightarrow> r' = r"
    using cache_run(3) [OF assms(3)] key r' by auto
  ultimately show ?thesis using assms(1) by (simp add: ProduceIdempotent_def idem_lookup_def)
qed

definition sample_idem :: "(go_error + Record \<times> bool) \<times> fs \<times> Broker" where
  "sample_idem = ProduceIdempotent calm_env ''t'' (Some ''k'') None fmempty ''p'' 4 (fst sample_broker) (snd sample_broker)"

lemma sample_idem_ok: "fst sample_idem = Inr (produced calm_env (Some ''k'') None fmempty 0, False)"
  by code_simp

lemma sample_idem_run:
  "ProduceIdempotent calm_env ''t'' (Some ''k'') None fmempty ''p'' 4 (fst sample_broker) (snd sample_broker) =
    (Inr (produced calm_env (Some ''k'') None fmempty 0, False), fst (snd sample_idem), snd (snd sample_idem))"
  using sample_idem_ok by (simp add: sample_idem_def prod_eq_iff)

lemma sample_idem_cached:
  "idem_lookup ''t'' ''p'' 4 (snd (snd sample_idem)) = Some (Inr (produced calm_env (Some ''k'') None fmempty 0, True))"
  by code_simp

theorem idempotent_retry_is_noop_witness:
  "ProduceIdempotent calm_env ''t'' None None fmempty ''p'' 4 (fst (snd sample_idem)) (snd (snd sample_idem)) =
    (Inr (produced calm_env (Some ''k'') None fmempty 0, True), fst (snd sample_idem), snd (snd sample_idem))"
  using idempotent_retry_is_noop [OF _ disjI2 [OF sample_idem_cached] conc_run.stay [of "(fst (snd sample_idem), snd (snd sample_idem), [])"],
      of calm_env None None fmempty] by simp

text \<open>After a positive sequence number was accepted, a smaller one that is not cached is refused in every
  later state, without effect.\<close>

theorem idempotent_out_of_order_refused:
  assumes "ProduceIdempotent e t k v h p s fs b = (Inr (r, False), fs1, b1)" "0 < s"
    and "conc_run (fs1, b1, cs) begun (fs2, b2, cs')" "s' < s" "fmlookup (dedupCache b2) (dedupKey t p s') = None"
  shows "ProduceIdempotent e' t k' v' h' p s' fs2 b2 = (Inl ErrOutOfOrderSequence, fs2, b2)"
proof -
  have p: "p \<noteq> []" using assms(1) by (auto simp: ProduceIdempotent_def idem_lookup_def)
  have "\<exists>l. s \<le> l \<and> fmlookup (producerSeq b1) (seqKey t p) = Some l"
    using assms(1,2) p
    by (auto simp: ProduceIdempotent_def idem_lookup_def idem_store_def Let_def map_get_def split: option.splits if_splits prod.splits sum.splits)
  then obtain l where "s \<le> l" "fmlookup (producerSeq b2) (seqKey t p) = Some l"
    using cache_run(1) [OF assms(3)] unfolding seq_le_def by (auto, meson order_trans)
  then show ?thesis using p assms(4,5) by (simp add: ProduceIdempotent_def idem_lookup_def)
qed

theorem idempotent_out_of_order_refused_witness:
  "ProduceIdempotent calm_env ''t'' None None fmempty ''p'' 3 (fst (snd sample_idem)) (snd (snd sample_idem)) =
    (Inl ErrOutOfOrderSequence, fst (snd sample_idem), snd (snd sample_idem))"
proof (rule idempotent_out_of_order_refused [OF sample_idem_run])
  show "fmlookup (dedupCache (snd (snd sample_idem))) (dedupKey ''t'' ''p'' 3) = None" by code_simp
qed (simp, rule conc_run.stay, simp)

text \<open>C11. What one idempotent produce does when no other call overlaps it, for topic names without a vertical bar. A call
  whose topic, producer and sequence number are cached returns the cached record marked as a duplicate and changes
  nothing. Otherwise, a sequence number below the producer's last one is refused and changes nothing. Otherwise it
  is a produce of the given key, value and headers, with all its outcomes: on success exactly that record is at the
  end of the topic's log, it is returned as new, and an immediate retry returns it as a duplicate; on an error no
  cache entry is added. The cache entries of other topics, producers and sequence numbers are never touched.\<close>

theorem idempotent_appends_once:
  assumes "broker_inv (Suc n) fs b" "headers_ok h" "CHR ''|'' \<notin> set t" "p \<noteq> []"
  shows "case ProduceIdempotent e t k v h p s fs b of (res, fs', b') \<Rightarrow>
    broker_inv n fs' b' \<and>
    (case fmlookup (dedupCache b) (dedupKey t p s) of
       Some c \<Rightarrow> res = Inr (c, True) \<and> fs' = fs \<and> b' = b
     | None \<Rightarrow>
         if \<exists>lst. fmlookup (producerSeq b) (seqKey t p) = Some lst \<and> s < lst
         then res = Inl ErrOutOfOrderSequence \<and> fs' = fs \<and> b' = b
         else \<exists>pr. produce_effect e t k v h (topic_log fs b) pr (topic_log fs' b') \<and>
           (case pr of
              Inl err \<Rightarrow> res = Inl err \<and> dedupCache b' = dedupCache b
            | Inr r \<Rightarrow> res = Inr (r, False) \<and>
                (\<forall>e' k' v' h'. ProduceIdempotent e' t k' v' h' p s fs' b' = (Inr (r, True), fs', b')))) \<and>
    (\<forall>t' p' s'. CHR ''|'' \<notin> set t' \<and> (t', p', s') \<noteq> (t, p, s) \<longrightarrow>
       fmlookup (dedupCache b') (dedupKey t' p' s') = fmlookup (dedupCache b) (dedupKey t' p' s'))"
proof -
  obtain pr fs1 b1 where run: "Produce e t k v h fs b = (pr, fs1, b1)" by (rule prod_cases3)
  note eff = Produce_run [OF assms(1,2) run] and f = Produce_frame [OF run]
  have other: "dedupKey t' p' s' \<noteq> dedupKey t p s" if "CHR ''|'' \<notin> set t'" "(t', p', s') \<noteq> (t, p, s)" for t' p' s'
    using dedupKey_inject [OF assms(3) that(1), of p s p' s'] that(2) by auto
  have store: "topic_log fs1 (idem_store t p s r b1) = topic_log fs1 b1" "broker_inv n fs1 (idem_store t p s r b1) = broker_inv n fs1 b1" for r
    by (simp_all add: idem_store_def Let_def)
  show ?thesis
  proof (cases "idem_lookup t p s b")
    case None
    then have go: "fmlookup (dedupCache b) (dedupKey t p s) = None" "\<not> (\<exists>lst. fmlookup (producerSeq b) (seqKey t p) = Some lst \<and> s < lst)"
      by (auto simp: idem_lookup_def split: option.splits if_splits)
    show ?thesis
    proof (cases pr)
      case (Inl err)
      then show ?thesis using eff f go by (auto simp: ProduceIdempotent_def None run intro!: exI [of _ pr])
    next
      case (Inr r)
      have "ProduceIdempotent e' t k' v' h' p s fs1 (idem_store t p s r b1) = (Inr (r, True), fs1, idem_store t p s r b1)" for e' k' v' h'
        by (simp add: ProduceIdempotent_def idem_lookup_def idem_store_simps assms(4))
      then show ?thesis
        using eff f go other Inr by (auto simp: ProduceIdempotent_def None run store idem_store_simps intro!: exI [of _ pr])
    qed
  next
    case (Some res)
    then have "ProduceIdempotent e t k v h p s fs b = (res, fs, b)" by (simp add: ProduceIdempotent_def)
    then show ?thesis
      using Some assms(4) broker_inv_less [OF assms(1)] by (auto simp: idem_lookup_def split: option.splits if_splits)
  qed
qed

theorem idempotent_appends_once_witness:
  "fst (ProduceIdempotent calm_env ''t'' None None fmempty ''p'' 4 (fst (snd sample_idem)) (snd (snd sample_idem))) =
     Inr (produced calm_env (Some ''k'') None fmempty 0, True) \<and>
   fst (ProduceIdempotent calm_env ''t'' None None fmempty ''p'' 3 (fst (snd sample_idem)) (snd (snd sample_idem))) =
     Inl ErrOutOfOrderSequence"
proof -
  have "broker_inv (Suc (Suc 0)) (fst (snd sample_idem)) (snd (snd sample_idem))"
    using idempotent_appends_once [OF sample_broker_inv, where h = fmempty and t = "''t''" and p = "''p''" and e = calm_env and k = "Some ''k''" and v = None and s = 4] by (simp add: sample_idem_run case_prod_beta)
  note spec = idempotent_appends_once [OF this, where h = fmempty and t = "''t''" and p = "''p''" and e = calm_env and k = None and v = None]
  have "fmlookup (dedupCache (snd (snd sample_idem))) (dedupKey ''t'' ''p'' 4) = Some (produced calm_env (Some ''k'') None fmempty 0)"
    "fmlookup (dedupCache (snd (snd sample_idem))) (dedupKey ''t'' ''p'' 3) = None"
    "fmlookup (producerSeq (snd (snd sample_idem))) (seqKey ''t'' ''p'') = Some 4" by code_simp+
  then show ?thesis using spec [where s = 4] spec [where s = 3] by (auto split: prod.splits)
qed

end
