(* ===== verification/Management_Api.thy ===== *)
theory Management_Api
  imports Go_Http Broker_Tx
begin

text \<open>
  The management server of \<^verbatim>\<open>management/api/server.go\<close>: every handler, the routing table and the wrappers for the
  API key, the metrics and the audit log.  A handler is a step on the files and the broker.  Calls into the
  metrics library and the log, which nothing reads back, are recorded in order in \<open>w_calls\<close>.  The \<open>i\<close>-th broker
  call of a request runs in the environment \<open>es i\<close>.  The metrics library and the tracing wrapper are third-party
  code and are arguments.
\<close>

section \<open>State\<close>

datatype metric =
    ReqTotal_Inc string string string
  | ReqDuration_Observe string string
  | ProduceThroughput_Inc string
  | ConsumerLag_Set string string float64
  | WindowCloseLatency_Observe float64
  | Audit_Log string string nat

record world =
  w_fs :: fs
  w_broker :: Broker
  w_calls :: "metric list"

type_synonym handler = "(nat \<Rightarrow> env) \<Rightarrow> request \<Rightarrow> world \<Rightarrow> response \<times> world"

record Server =
  apiKey :: string

definition NewServerWithAPIKey :: "string \<Rightarrow> Server" where
  "NewServerWithAPIKey key = \<lparr> apiKey = key \<rparr>"

definition NewServer :: Server where
  "NewServer = NewServerWithAPIKey []"

definition with_broker :: "world \<Rightarrow> fs \<Rightarrow> Broker \<Rightarrow> world" where
  "with_broker w fs b = w\<lparr>w_fs := fs, w_broker := b\<rparr>"

definition emit :: "metric \<Rightarrow> world \<Rightarrow> world" where
  "emit m w = w\<lparr>w_calls := w_calls w @ [m]\<rparr>"

definition writeJSON :: "nat \<Rightarrow> json option \<Rightarrow> response" where
  "writeJSON status v = \<lparr> rs_Status = status, rs_Body = Document v \<rparr>"

definition not_allowed :: response where
  "not_allowed = http_Error ''method not allowed'' 405"

section \<open>Handlers\<close>

definition handleHealth :: handler where
  "handleHealth es r w = (\<lparr> rs_Status = 200, rs_Body = Text ''ok'' \<rparr>, w)"

definition topics_doc :: "Broker \<Rightarrow> json" where
  "topics_doc b = json_map [(''topics'', JArr (map json_str (ListTopics b)))]"

definition handleTopics :: handler where
  "handleTopics es r w =
     (if rq_Method r = ''GET'' then (writeJSON 200 (Some (topics_doc (w_broker w))), w)
      else if rq_Method r = ''POST'' then
        (case Decode [''name''] (rq_Body r) of
           None \<Rightarrow> (http_Error ''invalid topic payload'' 400, w)
         | Some req \<Rightarrow>
             if p_name req = [] then (http_Error ''invalid topic payload'' 400, w)
             else case CreateTopic (es 0) (p_name req) (w_fs w) (w_broker w) of
                    (Inl err, fs1, b1) \<Rightarrow> (http_Fail err 500, with_broker w fs1 b1)
                  | (Inr _, fs1, b1) \<Rightarrow>
                      (writeJSON 201 (Some (json_map [(''topic'', json_str (p_name req))])), with_broker w fs1 b1))
      else (not_allowed, w))"

definition handleProduce :: handler where
  "handleProduce es r w =
     (if rq_Method r \<noteq> ''POST'' then (not_allowed, w)
      else case Decode [''topic'', ''key'', ''value'', ''headers''] (rq_Body r) of
        None \<Rightarrow> (http_Error ''invalid produce payload'' 400, w)
      | Some req \<Rightarrow>
          if p_topic req = [] then (http_Error ''invalid produce payload'' 400, w)
          else case CreateTopic (es 0) (p_topic req) (w_fs w) (w_broker w) of
            (Inl err, fs1, b1) \<Rightarrow> (http_Fail err 500, with_broker w fs1 b1)
          | (Inr _, fs1, b1) \<Rightarrow>
              (case Produce (es 1) (p_topic req) (Some (p_key req)) (Some (p_value req)) (p_headers req) fs1 b1 of
                 (Inl err, fs2, b2) \<Rightarrow>
                   (http_Fail err (if err = ErrDraining then 409 else 500), with_broker w fs2 b2)
               | (Inr rec, fs2, b2) \<Rightarrow>
                   (writeJSON 200 (Record_doc rec), emit (ProduceThroughput_Inc (p_topic req)) (with_broker w fs2 b2))))"

definition handleProduceIdempotent :: handler where
  "handleProduceIdempotent es r w =
     (if rq_Method r \<noteq> ''POST'' then (not_allowed, w)
      else case Decode [''topic'', ''key'', ''value'', ''headers'', ''producer_id'', ''sequence''] (rq_Body r) of
        None \<Rightarrow> (http_Error ''invalid idempotent produce payload'' 400, w)
      | Some req \<Rightarrow>
          if p_topic req = [] \<or> p_producer_id req = [] then (http_Error ''invalid idempotent produce payload'' 400, w)
          else case CreateTopic (es 0) (p_topic req) (w_fs w) (w_broker w) of
            (Inl err, fs1, b1) \<Rightarrow> (http_Fail err 500, with_broker w fs1 b1)
          | (Inr _, fs1, b1) \<Rightarrow>
              (case ProduceIdempotent (es 1) (p_topic req) (Some (p_key req)) (Some (p_value req)) (p_headers req)
                      (p_producer_id req) (p_sequence req) fs1 b1 of
                 (Inl err, fs2, b2) \<Rightarrow> (http_Fail err 409, with_broker w fs2 b2)
               | (Inr (rec, dup), fs2, b2) \<Rightarrow>
                   (writeJSON 200 (map_option (\<lambda>d. json_map [(''duplicate'', JBool dup), (''record'', d)]) (Record_doc rec)),
                    emit (ProduceThroughput_Inc (p_topic req)) (with_broker w fs2 b2))))"

definition query_offset :: "request \<Rightarrow> int option" where
  "query_offset r = (if Query_Get r ''offset'' = [] then Some 0 else ParseInt (Query_Get r ''offset''))"

definition query_max :: "request \<Rightarrow> int option" where
  "query_max r =
     (if Query_Get r ''max'' = [] then Some 100
      else case ParseInt (Query_Get r ''max'') of
             None \<Rightarrow> None | Some parsed \<Rightarrow> if parsed \<le> 0 then None else Some parsed)"

definition handleConsume :: handler where
  "handleConsume es r w =
     (if rq_Method r \<noteq> ''GET'' then (not_allowed, w)
      else let topic = Query_Get r ''topic'' in
        if topic = [] then (http_Error ''topic is required'' 400, w)
        else case query_offset r of
          None \<Rightarrow> (http_Error ''invalid offset'' 400, w)
        | Some off \<Rightarrow>
            (case query_max r of
               None \<Rightarrow> (http_Error ''invalid max'' 400, w)
             | Some mx \<Rightarrow>
                 (case Consume (es 0) topic off mx (w_fs w) (w_broker w) of
                    Inl err \<Rightarrow> (http_Fail err 404, w)
                  | Inr recs \<Rightarrow> (writeJSON 200 (map_option JArr (Records_docs recs)), w))))"

text \<open>The gauge is set from the first record at or after the committed offset.\<close>

definition lag_metric :: "payload \<Rightarrow> go_error + Record list \<Rightarrow> world \<Rightarrow> world" where
  "lag_metric req records w =
     (case records of
        Inr (r # _) \<Rightarrow>
          (let lag = wrap64 (Offset r - p_offset req)
           in emit (ConsumerLag_Set (p_topic req) (p_group req) (f_of_int (if lag < 0 then 0 else lag))) w)
      | _ \<Rightarrow> w)"

definition handleCommitOffset :: handler where
  "handleCommitOffset es r w =
     (if rq_Method r \<noteq> ''POST'' then (not_allowed, w)
      else case Decode [''topic'', ''group'', ''offset''] (rq_Body r) of
        None \<Rightarrow> (http_Error ''invalid offset commit payload'' 400, w)
      | Some req \<Rightarrow>
          if p_topic req = [] \<or> p_group req = [] then (http_Error ''invalid offset commit payload'' 400, w)
          else case CommitOffset (es 0) (p_topic req) (p_group req) (p_offset req) (w_fs w) (w_broker w) of
            (Some err, fs1) \<Rightarrow> (http_Fail err 500, with_broker w fs1 (w_broker w))
          | (None, fs1) \<Rightarrow>
              (case Consume (es 1) (p_topic req) (p_offset req) 1 fs1 (w_broker w) of
                 Inl (ErrPanic m) \<Rightarrow> (http_Fail (ErrPanic m) 500, with_broker w fs1 (w_broker w))
               | records \<Rightarrow>
                   (writeJSON 200 (Some (json_map [(''status'', json_str ''committed'')])),
                    lag_metric req records (with_broker w fs1 (w_broker w)))))"

definition handleOffset :: handler where
  "handleOffset es r w =
     (if rq_Method r \<noteq> ''GET'' then (not_allowed, w)
      else let topic = Query_Get r ''topic''; grp = Query_Get r ''group'' in
        if topic = [] \<or> grp = [] then (http_Error ''topic and group are required'' 400, w)
        else case LoadOffset (es 0) topic grp (w_fs w) (w_broker w) of
          Inl err \<Rightarrow> (http_Fail err 404, w)
        | Inr off \<Rightarrow>
            (writeJSON 200 (Some (json_map [(''topic'', json_str topic), (''group'', json_str grp), (''offset'', json_int off)])), w))"

definition handleDrain :: handler where
  "handleDrain es r w =
     (if rq_Method r \<noteq> ''POST'' then (not_allowed, w)
      else case Decode [''duration_seconds''] (rq_Body r) of
        None \<Rightarrow> (http_Error ''invalid drain payload'' 400, w)
      | Some req \<Rightarrow>
          if p_duration_seconds req \<le> 0 \<or> p_duration_seconds req > 3600
          then (http_Error ''duration_seconds must be in range 1..3600'' 400, w)
          else (writeJSON 200 (Some (json_map [(''status'', json_str ''draining''),
                    (''duration_seconds'', json_int (p_duration_seconds req))])),
                with_broker w (w_fs w) (Drain (es 0) (p_duration_seconds req * 1000000000) (w_broker w))))"

definition handleTxBegin :: handler where
  "handleTxBegin es r w =
     (if rq_Method r \<noteq> ''POST'' then (not_allowed, w)
      else case Decode [''producer_id'', ''epoch''] (rq_Body r) of
        None \<Rightarrow> (http_Error ''invalid tx begin payload'' 400, w)
      | Some req \<Rightarrow>
          if p_producer_id req = [] then (http_Error ''invalid tx begin payload'' 400, w)
          else case BeginTransaction (es 0) (p_producer_id req) (p_epoch req) (w_broker w) of
            (Inl err, b1) \<Rightarrow> (http_Fail err 500, with_broker w (w_fs w) b1)
          | (Inr txID, b1) \<Rightarrow>
              (writeJSON 200 (Some (json_map [(''tx_id'', json_str txID)])), with_broker w (w_fs w) b1))"

definition handleTxProduce :: handler where
  "handleTxProduce es r w =
     (if rq_Method r \<noteq> ''POST'' then (not_allowed, w)
      else case Decode [''tx_id'', ''topic'', ''key'', ''value'', ''headers''] (rq_Body r) of
        None \<Rightarrow> (http_Error ''invalid tx produce payload'' 400, w)
      | Some req \<Rightarrow>
          if p_tx_id req = [] \<or> p_topic req = [] then (http_Error ''invalid tx produce payload'' 400, w)
          else case CreateTopic (es 0) (p_topic req) (w_fs w) (w_broker w) of
            (Inl err, fs1, b1) \<Rightarrow> (http_Fail err 500, with_broker w fs1 b1)
          | (Inr _, fs1, b1) \<Rightarrow>
              (case TxProduce (p_tx_id req) (p_topic req) (Some (p_key req)) (Some (p_value req)) (p_headers req) b1 of
                 (Some err, b2) \<Rightarrow> (http_Fail err 409, with_broker w fs1 b2)
               | (None, b2) \<Rightarrow>
                   (writeJSON 200 (Some (json_map [(''status'', json_str ''buffered'')])), with_broker w fs1 b2)))"

definition handleTxCommit :: handler where
  "handleTxCommit es r w =
     (if rq_Method r \<noteq> ''POST'' then (not_allowed, w)
      else case Decode [''tx_id''] (rq_Body r) of
        None \<Rightarrow> (http_Error ''invalid tx commit payload'' 400, w)
      | Some req \<Rightarrow>
          if p_tx_id req = [] then (http_Error ''invalid tx commit payload'' 400, w)
          else case CommitTransaction es (p_tx_id req) (w_fs w) (w_broker w) of
            (n, Some err, fs1, b1) \<Rightarrow> (http_Fail err 409, with_broker w fs1 b1)
          | (n, None, fs1, b1) \<Rightarrow>
              (writeJSON 200 (Some (json_map [(''status'', json_str ''committed''), (''records'', json_int (int n))])),
               with_broker w fs1 b1))"

definition handleTxAbort :: handler where
  "handleTxAbort es r w =
     (if rq_Method r \<noteq> ''POST'' then (not_allowed, w)
      else case Decode [''tx_id''] (rq_Body r) of
        None \<Rightarrow> (http_Error ''invalid tx abort payload'' 400, w)
      | Some req \<Rightarrow>
          if p_tx_id req = [] then (http_Error ''invalid tx abort payload'' 400, w)
          else case AbortTransaction (p_tx_id req) (w_broker w) of
            (Some err, b1) \<Rightarrow> (http_Fail err 409, with_broker w (w_fs w) b1)
          | (None, b1) \<Rightarrow>
              (writeJSON 200 (Some (json_map [(''status'', json_str ''aborted'')])), with_broker w (w_fs w) b1))"

definition handleGraphQL :: handler where
  "handleGraphQL es r w =
     (if rq_Method r \<noteq> ''POST'' then (not_allowed, w)
      else case Decode [''query''] (rq_Body r) of
        None \<Rightarrow> (http_Error ''invalid graphql payload'' 400, w)
      | Some req \<Rightarrow>
          let q = ToLower (p_query req) in
          if Contains q ''topics'' then (writeJSON 200 (Some (json_map [(''data'', topics_doc (w_broker w))])), w)
          else if Contains q ''health''
          then (writeJSON 200 (Some (json_map [(''data'', json_map [(''health'', json_str ''ok'')])])), w)
          else (http_Error ''unsupported graphql query'' 400, w))"

definition f_negative :: "float64 \<Rightarrow> bool" where
  "f_negative x = (case x of F_Fin s m e \<Rightarrow> s \<and> m \<noteq> 0 | F_Inf s \<Rightarrow> s | F_NaN \<Rightarrow> False)"

definition handleWindowClose :: handler where
  "handleWindowClose es r w =
     (if rq_Method r \<noteq> ''POST'' then (not_allowed, w)
      else case Decode [''latency_ms''] (rq_Body r) of
        None \<Rightarrow> (http_Error ''invalid payload'' 400, w)
      | Some req \<Rightarrow>
          if f_negative (p_latency_ms req) then (http_Error ''invalid payload'' 400, w)
          else (writeJSON 200 (Some (json_map [(''status'', json_str ''observed'')])),
                emit (WindowCloseLatency_Observe (f_div (p_latency_ms req) (f_of_int 1000))) w))"

section \<open>Wrappers and routing\<close>

definition withAuth :: "handler \<Rightarrow> string \<Rightarrow> handler" where
  "withAuth nxt key =
     (if TrimSpace key = [] then nxt
      else (\<lambda>es r w.
        if URL_Path r = ''/health'' \<or> URL_Path r = ''/metrics'' then nxt es r w
        else if Header_Get r ''X-Api-Key'' \<noteq> key then (http_Error ''unauthorized'' 401, w)
        else nxt es r w))"

text \<open>
  The metrics library: its page, and the label values it accepts.  \<^verbatim>\<open>WithLabelValues\<close> panics on others; its documentation has
  it accept any values that are valid UTF-8, \<open>utf8_labels\<close>.  The server recovers the panic and drops the connection.
  Labels taken from decoded JSON are always valid; the path of a request need not be.
\<close>

record prometheus =
  prom_page :: handler
  prom_accepts :: "string list \<Rightarrow> bool"

definition utf8_labels :: "prometheus \<Rightarrow> bool" where
  "utf8_labels prom \<longleftrightarrow> (\<forall>ls. list_all valid_utf8 ls \<longrightarrow> prom_accepts prom ls)"

definition dropped :: response where
  "dropped = \<lparr> rs_Status = 0, rs_Body = Dropped \<rparr>"

definition withMetrics :: "prometheus \<Rightarrow> handler \<Rightarrow> handler" where
  "withMetrics prom nxt = (\<lambda>es r w.
     case nxt es r w of (resp, w1) \<Rightarrow>
       if rs_Body resp = Dropped then (resp, w1)
       else
         let status = fmt_d (int (rs_Status resp))
         in if \<not> prom_accepts prom [rq_Method r, URL_Path r, status] then (dropped, w1)
            else
              let w2 = emit (ReqTotal_Inc (rq_Method r) (URL_Path r) status) w1
              in if \<not> prom_accepts prom [rq_Method r, URL_Path r] then (dropped, w2)
                 else (resp, emit (ReqDuration_Observe (rq_Method r) (URL_Path r)) w2))"

definition withAuditLog :: "handler \<Rightarrow> handler" where
  "withAuditLog nxt = (\<lambda>es r w.
     case nxt es r w of (resp, w1) \<Rightarrow>
       if rs_Body resp = Dropped then (resp, w1)
       else (resp, emit (Audit_Log (rq_Method r) (URL_Path r) (rs_Status resp)) w1))"

definition routes :: "handler \<Rightarrow> (string \<times> handler) list" where
  "routes promhttp =
     [(''/metrics'', promhttp), (''/health'', handleHealth), (''/topics'', handleTopics), (''/produce'', handleProduce),
      (''/produce/idempotent'', handleProduceIdempotent), (''/consume'', handleConsume),
      (''/offset/commit'', handleCommitOffset), (''/offset'', handleOffset), (''/admin/drain'', handleDrain),
      (''/tx/begin'', handleTxBegin), (''/tx/produce'', handleTxProduce), (''/tx/commit'', handleTxCommit),
      (''/tx/abort'', handleTxAbort), (''/graphql'', handleGraphQL), (''/admin/window-close'', handleWindowClose)]"

definition api_mux :: "handler \<Rightarrow> handler" where
  "api_mux promhttp = (\<lambda>es. ServeMux (map (\<lambda>(p, h). (p, h es)) (routes promhttp)))"

definition Handler :: "prometheus \<Rightarrow> (handler \<Rightarrow> handler) \<Rightarrow> Server \<Rightarrow> handler" where
  "Handler prom otel s = otel (withAuditLog (withMetrics prom (withAuth (api_mux (prom_page prom)) (apiKey s))))"

section \<open>Routing finds the handler of the path\<close>

lemma hex_val_slash [simp]: "hex_val (CHR ''/'') = None"
  by (simp add: hex_val_def in_range_def)

lemma unescape_slash: "PathUnescape (CHR ''/'' # b) = CHR ''/'' # PathUnescape b"
  by (cases b rule: PathUnescape.cases) (auto split: option.splits)

lemma PathUnescape_append: "PathUnescape (a @ CHR ''/'' # b) = PathUnescape a @ CHR ''/'' # PathUnescape b"
proof (induction a rule: PathUnescape.induct)
  case (1 c x y s)
  then show ?case by (auto split: option.splits)
next
  case "2_1"
  then show ?case by (simp add: unescape_slash)
next
  case "2_2"
  then show ?case by (cases b) (auto simp: unescape_slash split: option.splits)
next
  case "2_3"
  then show ?case by (cases b) (auto simp: unescape_slash split: option.splits)
qed

lemma join_split_char: "join_char c (split_char c s) = s"
proof (induction s)
  case (Cons x s)
  then show ?case by (cases "split_char c s") (auto split: list.splits, (cases "tl (split_char c s)"; auto)+)
qed simp

lemma unescape_join:
  "PathUnescape (join_char (CHR ''/'') ps) = join_char (CHR ''/'') (map PathUnescape ps)"
  by (induction "CHR ''/''" ps rule: join_char.induct) (simp_all add: PathUnescape_append)

lemma segments_path: "split_char (CHR ''/'') pat = segments_of p \<Longrightarrow> PathUnescape p = pat"
  using unescape_join [of "split_char (CHR ''/'') p"] join_split_char [of "CHR ''/''" pat]
  by (simp add: segments_of_def join_split_char)

lemma route_Some: "route pats p = Some h \<Longrightarrow> (PathUnescape p, h) \<in> set pats"
proof -
  assume "route pats p = Some h"
  then obtain pat where "find (\<lambda>(pat, h). split_char (CHR ''/'') pat = segments_of p) pats = Some (pat, h)"
    by (auto simp: route_def)
  then have "(pat, h) \<in> set pats" "split_char (CHR ''/'') pat = segments_of p"
    by (auto simp: find_Some_iff) (metis nth_mem)
  then show ?thesis using segments_path by simp
qed

section \<open>Refused requests have no effect\<close>

definition same_data :: "world \<Rightarrow> world \<Rightarrow> bool" where
  "same_data w w' \<longleftrightarrow> w_fs w' = w_fs w \<and> w_broker w' = w_broker w"

definition refusals :: "nat set" where
  "refusals = {301, 400, 401, 404, 405}"

definition cautious :: "handler \<Rightarrow> bool" where
  "cautious h \<longleftrightarrow>
     (\<forall>es r w resp w'. h es r w = (resp, w') \<longrightarrow> rq_Method r \<noteq> ''POST'' \<or> rs_Status resp \<in> refusals \<longrightarrow> same_data w w')"

lemma cautious_snd: "cautious h \<Longrightarrow> rq_Method r \<noteq> ''POST'' \<Longrightarrow> same_data w (snd (h es r w))"
  unfolding cautious_def by (metis prod.collapse)

lemma same_data_refl [simp]: "same_data w w"
  by (simp add: same_data_def)

lemma same_data_emit [simp]: "same_data w (emit m w') = same_data w w'"
  by (simp add: same_data_def emit_def)

lemma status_simps [simp]:
  "rs_Status (writeJSON c d) = c" "rs_Status (http_Error msg c) = c" "rs_Status not_allowed = 405"
  by (simp_all add: writeJSON_def http_Error_def not_allowed_def)

lemma status_Fail: "rs_Status (http_Fail err c) = c \<or> rs_Status (http_Fail err c) = 0"
  by (simp add: http_Fail_def split: go_error.split)

lemma Fail_not_refusal: "c \<notin> refusals \<Longrightarrow> rs_Status (http_Fail err c) \<in> refusals \<longleftrightarrow> False"
  using status_Fail [of err c] by (auto simp: refusals_def)

lemma codes [simp]:
  "200 \<notin> refusals" "201 \<notin> refusals" "500 \<notin> refusals" "409 \<notin> refusals"
  by (simp_all add: refusals_def)

lemmas handler_splits = option.splits sum.splits prod.splits if_splits

lemmas handler_defs = handleHealth_def handleTopics_def handleProduce_def handleProduceIdempotent_def handleConsume_def
  handleCommitOffset_def handleOffset_def handleDrain_def handleTxBegin_def handleTxProduce_def handleTxCommit_def
  handleTxAbort_def handleGraphQL_def handleWindowClose_def

lemma cautious_handlers:
  "cautious handleHealth" "cautious handleTopics" "cautious handleProduce" "cautious handleProduceIdempotent"
  "cautious handleConsume" "cautious handleCommitOffset" "cautious handleOffset" "cautious handleDrain"
  "cautious handleTxBegin" "cautious handleTxProduce" "cautious handleTxCommit" "cautious handleTxAbort"
  "cautious handleGraphQL" "cautious handleWindowClose"
  unfolding cautious_def
  by (auto simp: handler_defs Fail_not_refusal Let_def split: handler_splits go_error.splits)

text \<open>A third-party handler that only reads.\<close>

definition read_only :: "handler \<Rightarrow> bool" where
  "read_only h \<longleftrightarrow> (\<forall>es r w. snd (h es r w) = w)"

text \<open>A tracing wrapper that passes requests and answers through.\<close>

definition transparent :: "(handler \<Rightarrow> handler) \<Rightarrow> bool" where
  "transparent otel \<longleftrightarrow> (\<forall>h. otel h = h)"

lemma cautious_read_only: "read_only h \<Longrightarrow> cautious h"
  unfolding cautious_def read_only_def
proof (intro allI impI)
  fix es r w resp w'
  assume "\<forall>es r w. snd (h es r w) = w" "h es r w = (resp, w')"
  then have "w' = w" by (metis snd_conv)
  then show "same_data w w'" by simp
qed

lemma cautious_routes: "read_only promhttp \<Longrightarrow> (p, h) \<in> set (routes promhttp) \<Longrightarrow> cautious h"
  by (auto simp: routes_def cautious_handlers cautious_read_only)

lemma api_mux_cases:
  assumes "api_mux promhttp es r w = (resp, w')"
  obtains "w' = w" "rs_Status resp \<in> refusals"
    | h where "(URL_Path r, h) \<in> set (routes promhttp)" "h es r w = (resp, w')"
proof (cases "route (map (\<lambda>(p, h). (p, h es)) (routes promhttp)) (rq_EscapedPath r)")
  case None
  then show thesis
    using assms that(1) by (auto simp: api_mux_def ServeMux_def Let_def NotFound_def refusals_def split: if_splits)
next
  case (Some g)
  then obtain h where h: "(URL_Path r, h) \<in> set (routes promhttp)" "g = h es"
    using route_Some [OF Some] by (auto simp: URL_Path_def)
  show thesis
    using assms Some that(1) that(2) [OF h(1)] h(2)
    by (auto simp: api_mux_def ServeMux_def Let_def refusals_def split: if_splits)
qed

lemma cautious_mux: "read_only promhttp \<Longrightarrow> cautious (api_mux promhttp)"
  unfolding cautious_def
  by (metis api_mux_cases cautious_def cautious_routes same_data_refl)

lemma cautious_withMetrics:
  assumes "cautious h"
  shows "cautious (withMetrics prom h)"
  unfolding cautious_def
proof (intro allI impI)
  fix es r w resp' w'
  assume run: "withMetrics prom h es r w = (resp', w')" and c: "rq_Method r \<noteq> ''POST'' \<or> rs_Status resp' \<in> refusals"
  obtain resp w1 where h: "h es r w = (resp, w1)" by (rule prod.exhaust)
  have "same_data w1 w'" "resp' = resp \<or> resp' = dropped"
    using run by (auto simp: withMetrics_def h Let_def split: if_splits)
  moreover have "same_data w w1" using assms h c calculation(2) by (auto simp: cautious_def dropped_def refusals_def)
  ultimately show "same_data w w'" by (simp add: same_data_def)
qed

lemma cautious_wrappers:
  "cautious h \<Longrightarrow> cautious (withAuth h key)" "cautious h \<Longrightarrow> cautious (withAuditLog h)"
  by (fastforce simp: cautious_def withAuth_def withAuditLog_def split: if_splits prod.splits)+

lemma cautious_Handler: "read_only (prom_page prom) \<Longrightarrow> transparent otel \<Longrightarrow> cautious (Handler prom otel s)"
  by (simp add: Handler_def transparent_def cautious_wrappers cautious_withMetrics cautious_mux)

section \<open>Authorised requests reach their handler\<close>

definition accepts :: "Server \<Rightarrow> request \<Rightarrow> bool" where
  "accepts s r \<longleftrightarrow> TrimSpace (apiKey s) = [] \<or> Header_Get r ''X-Api-Key'' = apiKey s"

definition patterns :: "string list" where
  "patterns = [''/metrics'', ''/health'', ''/topics'', ''/produce'', ''/produce/idempotent'', ''/consume'', ''/offset/commit'',
     ''/offset'', ''/admin/drain'', ''/tx/begin'', ''/tx/produce'', ''/tx/commit'', ''/tx/abort'', ''/graphql'', ''/admin/window-close'']"

lemma patterns_plain:
  "distinct patterns" "list_all (\<lambda>p. p \<noteq> ''*'' \<and> cleanPath p = p \<and> segments_of p = split_char (CHR ''/'') p) patterns"
  by code_simp+

lemma patterns_routes: "map fst (routes promhttp) = patterns"
  by (simp add: routes_def patterns_def)

lemma route_in_patterns: "(p, h) \<in> set (routes promhttp) \<Longrightarrow> p \<in> set patterns"
  unfolding patterns_routes [of promhttp, symmetric] set_map by (rule image_eqI [where x = "(p, h)"]) simp_all

lemma find_key:
  "distinct (map fst xs) \<Longrightarrow> (k, v) \<in> set xs \<Longrightarrow> find (\<lambda>x. fst x = k) xs = Some (k, v)"
  by (induction xs) (force split: if_splits)+

lemma route_pattern:
  assumes "(p, h) \<in> set (routes promhttp)"
  shows "route (map (\<lambda>(p, h). (p, h es)) (routes promhttp)) p = Some (h es)"
proof -
  let ?rs = "map (\<lambda>(p, h). (p, h es)) (routes promhttp)"
  have p: "p \<in> set patterns" by (rule route_in_patterns [OF assms])
  then have seg: "segments_of p = split_char (CHR ''/'') p" using patterns_plain(2) by (simp add: list_all_iff)
  have keys: "map fst ?rs = patterns" using patterns_routes [of promhttp] by (simp add: comp_def case_prod_beta)
  have "(\<lambda>(pat, h). split_char (CHR ''/'') pat = segments_of p) = (\<lambda>x :: string \<times> (request \<Rightarrow> world \<Rightarrow> response \<times> world). fst x = p)"
    using join_split_char [of "CHR ''/''"] by (auto simp: fun_eq_iff seg) metis
  moreover have "find (\<lambda>x. fst x = p) ?rs = Some (p, h es)"
    using find_key [of ?rs p "h es"] patterns_plain(1) keys assms by force
  ultimately show ?thesis by (simp add: route_def)
qed

lemma Handler_route:
  assumes "transparent otel" "accepts s r" "(rq_EscapedPath r, h) \<in> set (routes (prom_page prom))"
  shows "Handler prom otel s es r w = withAuditLog (withMetrics prom h) es r w"
proof -
  have "rq_EscapedPath r \<in> set patterns" by (rule route_in_patterns [OF assms(3)])
  then have "api_mux (prom_page prom) es r w = h es r w"
    using patterns_plain(2) route_pattern [OF assms(3), of es] by (simp add: api_mux_def ServeMux_def Let_def list_all_iff)
  then have "withAuth (api_mux (prom_page prom)) (apiKey s) es r w = h es r w"
    using assms(2) by (auto simp: withAuth_def accepts_def)
  then show ?thesis
    using assms(1) by (simp add: Handler_def transparent_def withAuditLog_def withMetrics_def)
qed

text \<open>What the wrappers add: the answer of the handler is the answer, unless the metrics refuse the labels, and they touch no data.\<close>

definition labelled :: "prometheus \<Rightarrow> request \<Rightarrow> response \<Rightarrow> bool" where
  "labelled prom r resp \<longleftrightarrow> prom_accepts prom [rq_Method r, URL_Path r, fmt_d (int (rs_Status resp))] \<and> prom_accepts prom [rq_Method r, URL_Path r]"

lemma wrapped:
  assumes "withAuditLog (withMetrics prom h) es r w = (resp', w')"
  obtains resp w1 where "h es r w = (resp, w1)" "same_data w1 w'" "resp' = resp \<or> resp' = dropped \<and> \<not> labelled prom r resp"
  using assms that by (cases "h es r w") (auto simp: withAuditLog_def withMetrics_def labelled_def Let_def split: if_splits)

lemma ascii_valid: "list_all (\<lambda>c. of_char c < (128 :: nat)) s \<Longrightarrow> valid_utf8 s"
proof (induction s)
  case Nil
  then show ?case by code_simp
qed (simp add: valid_utf8_Cons utf8_width.simps)

lemma valid_fmt_d: "valid_utf8 (fmt_d x)"
proof (rule ascii_valid)
  have "list_all (\<lambda>c. of_char c < (128 :: nat)) (nat_dec n)" for n
    using all_digits_nat_dec [of n] by (auto simp: list_all_iff is_digit_def)
  then show "list_all (\<lambda>c. of_char c < (128 :: nat)) (fmt_d x)" by (simp add: fmt_d_def)
qed

lemma utf8_labelled:
  assumes "utf8_labels prom" "valid_utf8 (rq_Method r)" "valid_utf8 (URL_Path r)"
  shows "labelled prom r resp"
  using assms valid_fmt_d by (simp add: labelled_def utf8_labels_def)

section \<open>Properties\<close>

text \<open>C8. With an API key configured, a request that does not carry it changes neither files nor broker, on any path
  however escaped, and outside the health and metrics pages it is answered 401; only a request whose method or path
  is not valid UTF-8 is not answered at all, because the metrics refuse it as a label. The metrics library is
  assumed to accept valid UTF-8, its page to be read-only and the tracing wrapper to pass requests through.
\<close>

theorem api_key_required:
  assumes "TrimSpace (apiKey s) \<noteq> []" "Header_Get r ''X-Api-Key'' \<noteq> apiKey s"
    and "transparent otel" "read_only (prom_page prom)" "utf8_labels prom" "Handler prom otel s es r w = (resp, w')"
  shows "w_fs w' = w_fs w \<and> w_broker w' = w_broker w \<and>
    (rs_Status resp = 401 \<or> URL_Path r = ''/health'' \<or> URL_Path r = ''/metrics'' \<or>
     rs_Body resp = Dropped \<and> \<not> list_all valid_utf8 [rq_Method r, URL_Path r])"
proof -
  obtain resp1 w1 where run: "withAuth (api_mux (prom_page prom)) (apiKey s) es r w = (resp1, w1)" and w1: "same_data w1 w'"
      and resp: "resp = resp1 \<or> resp = dropped \<and> \<not> labelled prom r resp1"
    using assms(3,6) by (auto simp: Handler_def transparent_def elim: wrapped)
  have drop: "resp = resp1 \<or> rs_Body resp = Dropped \<and> \<not> list_all valid_utf8 [rq_Method r, URL_Path r]"
    using resp utf8_labelled [OF assms(5), of r resp1] by (auto simp: dropped_def)
  show ?thesis
  proof (cases "URL_Path r = ''/health'' \<or> URL_Path r = ''/metrics''")
    case True
    then have "api_mux (prom_page prom) es r w = (resp1, w1)" using run assms(1) by (simp add: withAuth_def)
    then have "w1 = w"
    proof (rule api_mux_cases)
      fix h
      assume h: "(URL_Path r, h) \<in> set (routes (prom_page prom))" "h es r w = (resp1, w1)"
      then have "h = handleHealth \<or> h = prom_page prom" using True by (auto simp: routes_def)
      then show ?thesis using h(2) assms(4) by (auto simp: handleHealth_def read_only_def dest!: spec [of _ es] spec [of _ r] spec [of _ w])
    qed simp
    then show ?thesis using w1 True by (auto simp: same_data_def)
  next
    case False
    then show ?thesis using run w1 assms(1,2) drop by (auto simp: withAuth_def same_data_def)
  qed
qed

text \<open>C31. Refusals have no effect: a request whose answer is a redirection, 400, 401, 404 or 405, or that is not a POST,
  leaves the files and the broker as they were.
\<close>

theorem api_refusal_no_effect:
  assumes "transparent otel" "read_only (prom_page prom)" "Handler prom otel s es r w = (resp, w')"
    and "rq_Method r \<noteq> ''POST'' \<or> rs_Status resp \<in> {301, 400, 401, 404, 405}"
  shows "w_fs w' = w_fs w \<and> w_broker w' = w_broker w"
  using cautious_Handler [OF assms(2,1), of s] assms(3,4) unfolding cautious_def refusals_def same_data_def by blast

section \<open>Produce over HTTP\<close>

abbreviation produce_fields :: "string list" where
  "produce_fields \<equiv> [''topic'', ''key'', ''value'', ''headers'']"

definition world_log :: "world \<Rightarrow> string \<Rightarrow> (int \<times> Record) list option" where
  "world_log w = topic_log (w_fs w) (w_broker w)"

definition world_inv :: "nat \<Rightarrow> world \<Rightarrow> bool" where
  "world_inv n w \<longleftrightarrow> broker_inv n (w_fs w) (w_broker w)"

lemma world_simps [simp]:
  "world_log (emit m w) = world_log w" "world_inv n (emit m w) = world_inv n w"
  "world_log (with_broker w fs b) = topic_log fs b" "world_inv n (with_broker w fs b) = broker_inv n fs b"
  by (simp_all add: world_log_def world_inv_def emit_def with_broker_def)

lemma same_data_world: "same_data w w' \<Longrightarrow> world_log w' = world_log w \<and> world_inv n w' = world_inv n w"
  by (simp add: same_data_def world_log_def world_inv_def)

lemma Fail_not_ok: "c \<noteq> 200 \<Longrightarrow> rs_Status (http_Fail err c) \<noteq> 200"
  using status_Fail [of err c] by auto

lemma create_grows:
  "broker_inv (Suc n) fs b \<Longrightarrow> plain_name t \<Longrightarrow> CreateTopic e t fs b = (res, fs', b') \<Longrightarrow>
    broker_inv n fs' b' \<and> (\<forall>x. grows (topic_log fs b x) (topic_log fs' b' x) [])"
  using broker_store.create_inv [of n "(fs, b)" t e res "(fs', b')"] broker_store.create_grows [of n "(fs, b)" t e res "(fs', b')"]
  by (simp add: store_inv_def store_log_def store_create_def)

definition sent :: "payload \<Rightarrow> bytes option \<times> bytes option \<times> (string, string) fmap" where
  "sent req = (copy_bytes (Some (p_key req)), copy_bytes (Some (p_value req)), p_headers req)"

lemma produce_grows:
  assumes "produce_effect e t k v h old res new"
  shows "\<exists>cs. cs \<in> {[], [(copy_bytes k, copy_bytes v, h)]} \<and> grows (old t) (new t) cs \<and>
    (\<forall>x. x \<noteq> t \<longrightarrow> new x = old x) \<and> (\<forall>rec. res = Inr rec \<longrightarrow> cs \<noteq> [] \<and> (\<exists>off. rec = produced e k v h off))"
  using assms
  by (auto simp: produce_effect_def grows_def content_def produced_def)

lemma handleProduce_effect:
  assumes "world_inv (Suc (Suc n)) w" "rq_Method r = ''POST''" "Decode produce_fields (rq_Body r) = Some req"
    and "plain_name (p_topic req)" "headers_ok (p_headers req)" "handleProduce es r w = (resp, w')"
  shows "world_inv n w' \<and> (\<exists>cs. cs \<in> {[], [sent req]} \<and> grows (world_log w (p_topic req)) (world_log w' (p_topic req)) cs \<and>
      (rs_Status resp = 200 \<longrightarrow> cs = [sent req] \<and>
        (\<exists>off. rs_Body resp = Document (Record_doc (produced (es 1) (Some (p_key req)) (Some (p_value req)) (p_headers req) off)))))"
    and "x \<noteq> p_topic req \<Longrightarrow> grows (world_log w x) (world_log w' x) []"
proof -
  let ?t = "p_topic req" let ?k = "Some (p_key req)" let ?v = "Some (p_value req)" let ?h = "p_headers req"
  have t: "?t \<noteq> []" using assms(4) by (auto simp: plain_name_def)
  obtain c fs1 b1 where c: "CreateTopic (es 0) ?t (w_fs w) (w_broker w) = (c, fs1, b1)" by (rule prod_cases3)
  obtain p fs2 b2 where p: "Produce (es 1) ?t ?k ?v ?h fs1 b1 = (p, fs2, b2)" by (rule prod_cases3)
  have g: "broker_inv (Suc n) fs1 b1" "\<And>x. grows (world_log w x) (topic_log fs1 b1 x) []"
    using create_grows [OF _ assms(4) c] assms(1) by (auto simp: world_inv_def world_log_def)
  note i = Produce_run(1) [OF g(1) assms(5) p] and eff = Produce_run(3) [OF g(1) assms(5) p]
  have run: "handleProduce es r w = (case c of Inl err \<Rightarrow> (http_Fail err 500, with_broker w fs1 b1)
      | Inr _ \<Rightarrow> (case p of Inl err \<Rightarrow> (http_Fail err (if err = ErrDraining then 409 else 500), with_broker w fs2 b2)
        | Inr rec \<Rightarrow> (writeJSON 200 (Record_doc rec), emit (ProduceThroughput_Inc ?t) (with_broker w fs2 b2))))"
    using assms(2,3) t by (simp add: handleProduce_def c p [unfolded One_nat_def] split: sum.split)
  obtain cs where cs: "cs \<in> {[], [sent req]}" "grows (topic_log fs1 b1 ?t) (topic_log fs2 b2 ?t) cs"
      "\<And>x. x \<noteq> ?t \<Longrightarrow> topic_log fs2 b2 x = topic_log fs1 b1 x"
      "\<And>rec. p = Inr rec \<Longrightarrow> cs \<noteq> [] \<and> (\<exists>off. rec = produced (es 1) ?k ?v ?h off)"
    using produce_grows [OF eff] by (auto simp: sent_def)
  have fail: "rs_Status (http_Fail err 500) \<noteq> 200" "rs_Status (http_Fail err (if err = ErrDraining then 409 else 500)) \<noteq> 200" for err
    by (simp_all add: Fail_not_ok)
  have "world_inv n w' \<and> (\<exists>cs. cs \<in> {[], [sent req]} \<and> grows (world_log w ?t) (world_log w' ?t) cs \<and>
      (rs_Status resp = 200 \<longrightarrow> cs = [sent req] \<and> (\<exists>off. rs_Body resp = Document (Record_doc (produced (es 1) ?k ?v ?h off))))) \<and>
      (\<forall>x. x \<noteq> ?t \<longrightarrow> grows (world_log w x) (world_log w' x) [])"
  proof (cases c)
    case (Inl err)
    then have "w' = with_broker w fs1 b1" "rs_Status resp \<noteq> 200" using run assms(6) fail by auto
    then show ?thesis using g broker_inv_less [OF g(1)] by auto
  next
    case (Inr tp)
    have "grows (world_log w ?t) (topic_log fs2 b2 ?t) cs" using grows_trans [OF g(2) cs(2)] by simp
    moreover have "world_log w' = topic_log fs2 b2" "world_inv n w'"
      "rs_Status resp = 200 \<longrightarrow> (\<exists>rec. p = Inr rec \<and> rs_Body resp = Document (Record_doc rec))"
      using run assms(6) Inr i fail by (auto simp: writeJSON_def split: sum.splits)
    ultimately show ?thesis using cs g(2) by (intro conjI exI [of _ cs]) auto
  qed
  then show "world_inv n w' \<and> (\<exists>cs. cs \<in> {[], [sent req]} \<and> grows (world_log w (p_topic req)) (world_log w' (p_topic req)) cs \<and>
      (rs_Status resp = 200 \<longrightarrow> cs = [sent req] \<and>
        (\<exists>off. rs_Body resp = Document (Record_doc (produced (es 1) (Some (p_key req)) (Some (p_value req)) (p_headers req) off)))))"
    and "x \<noteq> p_topic req \<Longrightarrow> grows (world_log w x) (world_log w' x) []" by blast+
qed

text \<open>C7. A produce request, from the outside: whatever fails, the log of its topic grows by the record of the request
  or not at all, no other topic log grows, and the answer 200 means the record was appended and carries its
  JSON form.
\<close>

theorem api_produce_effect:
  assumes "world_inv (Suc (Suc n)) w" "transparent otel" "accepts s r"
    and "rq_Method r = ''POST''" "rq_EscapedPath r = ''/produce''" "Decode produce_fields (rq_Body r) = Some req"
    and "plain_name (p_topic req)" "headers_ok (p_headers req)" "Handler prom otel s es r w = (resp, w')"
  shows "world_inv n w' \<and> (\<exists>cs. cs \<in> {[], [sent req]} \<and> grows (world_log w (p_topic req)) (world_log w' (p_topic req)) cs \<and>
      (rs_Status resp = 200 \<longrightarrow> cs = [sent req] \<and>
        (\<exists>off. rs_Body resp = Document (Record_doc (produced (es 1) (Some (p_key req)) (Some (p_value req)) (p_headers req) off))))) \<and>
    (\<forall>x. x \<noteq> p_topic req \<longrightarrow> grows (world_log w x) (world_log w' x) [])"
proof -
  have "(rq_EscapedPath r, handleProduce) \<in> set (routes (prom_page prom))" using assms(5) by (simp add: routes_def)
  from assms(9) [unfolded Handler_route [OF assms(2,3) this]]
  obtain resp1 w1 where w1: "handleProduce es r w = (resp1, w1)" "same_data w1 w'" "resp = resp1 \<or> rs_Status resp = 0"
    by (rule wrapped) (auto simp: dropped_def)
  show ?thesis
    using handleProduce_effect [OF assms(1,4,6-8) w1(1)] same_data_world [OF w1(2), of n] w1(3) by fastforce
qed

section \<open>Draining over HTTP\<close>

lemma handleDrain_ok:
  assumes "rq_Method r = ''POST''" "Decode [''duration_seconds''] (rq_Body r) = Some req"
    and "0 < p_duration_seconds req" "p_duration_seconds req \<le> 3600"
  shows "handleDrain es r w =
    (writeJSON 200 (Some (json_map [(''status'', json_str ''draining''), (''duration_seconds'', json_int (p_duration_seconds req))])),
     with_broker w (w_fs w) (Drain (es 0) (p_duration_seconds req * 1000000000) (w_broker w)))"
  using assms by (simp add: handleDrain_def)

lemma drain_inv: "broker_inv n fs (Drain e d b) = broker_inv n fs b"
  by (simp add: Drain_def broker_inv_def)

lemma handleProduce_draining:
  assumes "world_inv (Suc n) w" "rq_Method r = ''POST''" "Decode produce_fields (rq_Body r) = Some req"
    and "plain_name (p_topic req)" "isDrainingLocked (es 1) (w_broker w)" "handleProduce es r w = (resp, w')"
  shows "rs_Status resp \<in> {0, 409, 500} \<and> (quiet (es 0) \<longrightarrow> rs_Status resp = 409) \<and> (\<forall>x. grows (world_log w x) (world_log w' x) [])"
proof -
  obtain c fs1 b1 where c: "CreateTopic (es 0) (p_topic req) (w_fs w) (w_broker w) = (c, fs1, b1)" by (rule prod_cases3)
  have inv: "broker_inv (Suc n) (w_fs w) (w_broker w)" using assms(1) by (simp add: world_inv_def)
  have "drainingTill b1 = drainingTill (w_broker w)" by (rule CreateTopic_run(7) [OF inv assms(4) c])
  then have drain: "isDrainingLocked (es 1) b1" using assms(5) by (auto simp: isDrainingLocked_def split: if_splits)
  have "\<And>x. grows (world_log w x) (topic_log fs1 b1 x) []"
    using create_grows [OF inv assms(4) c] by (simp add: world_log_def)
  moreover have w': "world_log w' = topic_log fs1 b1"
    "(\<exists>err. c = Inl err \<and> resp = http_Fail err 500) \<or> (\<exists>tp. c = Inr tp) \<and> resp = http_Fail ErrDraining 409"
    using assms(2-4,6) drain c by (auto simp: handleProduce_def Produce_def plain_name_def split: sum.splits)
  moreover have "rs_Status resp \<in> {0, 409, 500}" using w'(2) by (metis insert_iff status_Fail)
  moreover have "quiet (es 0) \<longrightarrow> rs_Status resp = 409"
    using w'(2) CreateTopic_run(8) [OF inv assms(4) c] by (auto simp: http_Fail_def ErrDraining_def)
  ultimately show ?thesis by simp
qed

text \<open>Only the drain handler changes the deadline.\<close>

lemma draining_frames:
  "CreateTopic e t fs b = (res, fs', b') \<Longrightarrow> drainingTill b' = drainingTill b"
  "Produce e t k v h fs b = (pres, fs', b') \<Longrightarrow> drainingTill b' = drainingTill b"
  "BeginTransaction e p ep b = (ires, b') \<Longrightarrow> drainingTill b' = drainingTill b"
  "TxProduce i t k v h b = (err, b') \<Longrightarrow> drainingTill b' = drainingTill b"
  "AbortTransaction i b = (err, b') \<Longrightarrow> drainingTill b' = drainingTill b"
  "commit_begin i b = (cres, b') \<Longrightarrow> drainingTill b' = drainingTill b"
  "drainingTill (commit_finish i b) = drainingTill b" "drainingTill (idem_store t p s x b) = drainingTill b"
  by (auto simp: CreateTopic_def Produce_def BeginTransaction_def TxProduce_def AbortTransaction_def commit_begin_def
      commit_finish_def idem_store_def Let_def split: option.splits if_splits prod.splits sum.splits)

lemma publish_draining:
  "publish_loop store_create store_produce es rs i (fs, b) = (k, err, fs', b') \<Longrightarrow> drainingTill b' = drainingTill b"
proof (induction rs arbitrary: i fs b)
  case (Cons r rs)
  obtain c fs1 b1 where c: "CreateTopic (es (2 * i)) (txr_Topic r) fs b = (c, fs1, b1)" by (rule prod_cases3)
  obtain p fs2 b2 where p: "Produce (es (Suc (2 * i))) (txr_Topic r) (txr_Key r) (txr_Value r) (txr_Headers r) fs1 b1 = (p, fs2, b2)"
    by (rule prod_cases3)
  show ?case
    using Cons.prems Cons.IH [of "Suc i" fs2 b2] draining_frames(1) [OF c] draining_frames(2) [OF p]
    by (auto simp: store_create_def store_produce_def c p split: sum.splits)
qed simp

lemma commit_draining: "CommitTransaction es i fs b = (k, err, fs', b') \<Longrightarrow> drainingTill b' = drainingTill b"
  by (erule CommitTransaction_cases) (auto dest!: publish_draining draining_frames(6) simp: draining_frames(7))

lemma idempotent_draining: "ProduceIdempotent e t k v h p s fs b = (res, fs', b') \<Longrightarrow> drainingTill b' = drainingTill b"
  by (auto simp: ProduceIdempotent_def draining_frames(8) split: option.splits prod.splits sum.splits dest!: draining_frames(2))

definition keeps_drain :: "handler \<Rightarrow> bool" where
  "keeps_drain h \<longleftrightarrow> (\<forall>es r w. drainingTill (w_broker (snd (h es r w))) = drainingTill (w_broker w))"

lemma drain_simps [simp]:
  "w_broker (emit m w) = w_broker w" "w_broker (with_broker w fs b) = b" "w_broker (lag_metric req x w) = w_broker w"
  by (simp_all add: emit_def with_broker_def lag_metric_def Let_def split: sum.split list.split)

lemma keeps_drain_handlers:
  "keeps_drain handleHealth" "keeps_drain handleTopics" "keeps_drain handleProduce" "keeps_drain handleProduceIdempotent"
  "keeps_drain handleConsume" "keeps_drain handleCommitOffset" "keeps_drain handleOffset"
  "keeps_drain handleTxBegin" "keeps_drain handleTxProduce" "keeps_drain handleTxCommit" "keeps_drain handleTxAbort"
  "keeps_drain handleGraphQL" "keeps_drain handleWindowClose"
  unfolding keeps_drain_def
  by (auto simp: handler_defs Let_def split: handler_splits go_error.splits
      dest!: draining_frames(1-5) commit_draining idempotent_draining)

lemma Handler_keeps_drain:
  assumes "transparent otel" "read_only (prom_page prom)" "URL_Path r \<noteq> ''/admin/drain''"
  shows "drainingTill (w_broker (snd (Handler prom otel s es r w))) = drainingTill (w_broker w)"
proof -
  obtain resp w' where run: "Handler prom otel s es r w = (resp, w')" by (rule prod.exhaust)
  then obtain resp1 w1 where h: "withAuth (api_mux (prom_page prom)) (apiKey s) es r w = (resp1, w1)" and w1: "same_data w1 w'"
    using assms(1) by (auto simp: Handler_def transparent_def elim: wrapped)
  have "w1 = w \<or> api_mux (prom_page prom) es r w = (resp1, w1)" using h by (auto simp: withAuth_def split: if_splits)
  then have "drainingTill (w_broker w1) = drainingTill (w_broker w)"
  proof (elim disjE)
    assume "api_mux (prom_page prom) es r w = (resp1, w1)"
    then show ?thesis
    proof (rule api_mux_cases)
      fix g assume g: "(URL_Path r, g) \<in> set (routes (prom_page prom))" "g es r w = (resp1, w1)"
      have "keeps_drain (prom_page prom)" using assms(2) by (simp add: keeps_drain_def read_only_def)
      then have "keeps_drain g" using g(1) assms(3) by (auto simp: routes_def keeps_drain_handlers)
      then show ?thesis using g(2) by (simp add: keeps_drain_def) (metis snd_conv)
    qed simp
  qed simp
  then show ?thesis using w1 run by (simp add: same_data_def)
qed

text \<open>Requests served one after the other.\<close>

fun serve_all :: "handler \<Rightarrow> ((nat \<Rightarrow> env) \<times> request) list \<Rightarrow> world \<Rightarrow> world" where
  "serve_all h [] w = w"
| "serve_all h ((es, r) # qs) w = serve_all h qs (snd (h es r w))"

lemma serve_all_keeps_drain:
  assumes "transparent otel" "read_only (prom_page prom)" "list_all (\<lambda>q. URL_Path (snd q) \<noteq> ''/admin/drain'') qs"
  shows "drainingTill (w_broker (serve_all (Handler prom otel s) qs w)) = drainingTill (w_broker w)"
  using assms(3)
proof (induction qs arbitrary: w)
  case (Cons q qs)
  then show ?case by (cases q) (simp add: Handler_keeps_drain [OF assms(1,2)])
qed simp

lemma produce_paths [simp]: "valid_utf8 ''POST''" "valid_utf8 ''/produce''" "valid_utf8 ''/admin/drain''"
    "PathUnescape ''/produce'' = ''/produce''" "PathUnescape ''/admin/drain'' = ''/admin/drain''"
  by code_simp+

text \<open>C32. Draining over HTTP: an accepted drain request names between 1 and 3600 seconds and is answered 200. Whatever other
  requests follow, as long as none of them goes to the drain page, a produce request that arrives before that time
  has passed adds no record to any topic; it is answered 409 when its file operations work, and with an error, or
  not at all after a panic, when one of them fails. The state it meets is assumed to satisfy the broker invariant.
\<close>

theorem api_drain_refuses_produce:
  assumes "transparent otel" "read_only (prom_page prom)" "utf8_labels prom" "accepts s r" "accepts s r'"
    and "rq_Method r = ''POST''" "rq_EscapedPath r = ''/admin/drain''"
    and "Decode [''duration_seconds''] (rq_Body r) = Some req" "0 < p_duration_seconds req" "p_duration_seconds req \<le> 3600"
    and "list_all (\<lambda>q. URL_Path (snd q) \<noteq> ''/admin/drain'') qs"
    and "rq_Method r' = ''POST''" "rq_EscapedPath r' = ''/produce''" "Decode produce_fields (rq_Body r') = Some req'"
    and "plain_name (p_topic req')"
    and "0 < env_clock (es 0) 0" "env_clock (es' 1) 0 \<le> env_clock (es 0) 0 + p_duration_seconds req * 1000000000"
    and "Handler prom otel s es r w = (resp, w1)" "w2 = serve_all (Handler prom otel s) qs w1" "world_inv (Suc n) w2"
  shows "case Handler prom otel s es' r' w2 of (resp', w3) \<Rightarrow>
    rs_Status resp = 200 \<and> rs_Status resp' \<in> {0, 409, 500} \<and> (quiet (es' 0) \<longrightarrow> rs_Status resp' = 409) \<and>
    (\<forall>x. grows (world_log w2 x) (world_log w3 x) [])"
proof -
  have p: "(rq_EscapedPath r, handleDrain) \<in> set (routes (prom_page prom))" "(rq_EscapedPath r', handleProduce) \<in> set (routes (prom_page prom))"
    using assms(7,13) by (simp_all add: routes_def)
  have lab: "labelled prom r x" "labelled prom r' x" for x
    using utf8_labelled [OF assms(3), of r x] utf8_labelled [OF assms(3), of r' x] assms(6,7,12,13)
    by (simp_all add: URL_Path_def del: PathUnescape.simps)
  obtain resp' w3 where h2: "Handler prom otel s es' r' w2 = (resp', w3)" by (rule prod.exhaust)
  obtain w1' where r1: "handleDrain es r w = (resp, w1')" "same_data w1' w1"
    using assms(18) [unfolded Handler_route [OF assms(1,4) p(1)]] lab by (auto elim: wrapped)
  obtain w3' where r2: "handleProduce es' r' w2 = (resp', w3')" "same_data w3' w3"
    using h2 [unfolded Handler_route [OF assms(1,5) p(2)]] lab by (auto elim: wrapped)
  have "rs_Status resp = 200" "w1' = with_broker w (w_fs w) (Drain (es 0) (p_duration_seconds req * 1000000000) (w_broker w))"
    using r1(1) handleDrain_ok [OF assms(6,8-10), of es w] by auto
  moreover from this have "drainingTill (w_broker w1) = env_clock (es 0) 0 + p_duration_seconds req * 1000000000"
    using r1(2) by (simp add: same_data_def Drain_def)
  then have "isDrainingLocked (es' 1) (w_broker w2)"
    using assms(9,16,17) by (simp add: assms(19) isDrainingLocked_def serve_all_keeps_drain [OF assms(1,2,11)] time_IsZero_def)
  ultimately show ?thesis
    using handleProduce_draining [OF assms(20,12,14,15) _ r2(1)] same_data_world [OF r2(2)] by (simp add: h2)
qed

section \<open>Samples\<close>

definition sample_request :: "string \<Rightarrow> string \<Rightarrow> string \<Rightarrow> request" where
  "sample_request m p b = \<lparr> rq_Method = m, rq_EscapedPath = p, rq_Query = [], rq_Header = [], rq_Body = b \<rparr>"

definition sample_world :: world where
  "sample_world = \<lparr> w_fs = fst sample_broker, w_broker = snd sample_broker, w_calls = [] \<rparr>"

definition no_metrics :: prometheus where
  "no_metrics = \<lparr> prom_page = (\<lambda>es r w. (\<lparr> rs_Status = 200, rs_Body = Text [] \<rparr>, w)), prom_accepts = list_all valid_utf8 \<rparr>"

definition five_env :: env where
  "five_env = calm_env\<lparr>env_clock := (\<lambda>_. 5)\<rparr>"

definition drain_body :: string where
  "drain_body = [CHR 0x7B, CHR 0x22] @ ''duration_seconds'' @ [CHR 0x22] @ '':9}''"

definition produce_body :: string where
  "produce_body = [CHR 0x7B, CHR 0x22] @ ''topic'' @ [CHR 0x22, CHR '':'', CHR 0x22] @ ''t'' @ [CHR 0x22, CHR 0x7D]"

lemma Decode_drain_body: "Decode [''duration_seconds''] drain_body = Some (payload_zero\<lparr>p_duration_seconds := 9\<rparr>)"
  by code_simp

lemma Decode_produce_body: "Decode produce_fields produce_body = Some (payload_zero\<lparr>p_topic := ''t''\<rparr>)"
  by code_simp

lemma sample_simps [simp]:
  "world_inv (Suc (Suc (Suc 0))) sample_world" "transparent (\<lambda>h. h)" "read_only (prom_page no_metrics)"
  "utf8_labels no_metrics" "accepts NewServer r"
  by (simp_all add: world_inv_def sample_world_def transparent_def read_only_def utf8_labels_def no_metrics_def accepts_def NewServer_def
    NewServerWithAPIKey_def TrimSpace_def TrimLeftSpace_def TrimRightSpace_def strip_words.simps word_len_def space_runes_def)

theorem api_drain_refuses_produce_witness:
  "\<exists>w1. Handler no_metrics (\<lambda>h. h) NewServer (\<lambda>_. five_env) (sample_request ''POST'' ''/admin/drain'' drain_body) sample_world = w1 \<and>
    rs_Status (fst (Handler no_metrics (\<lambda>h. h) NewServer (\<lambda>_. five_env) (sample_request ''POST'' ''/produce'' produce_body)
      (serve_all (Handler no_metrics (\<lambda>h. h) NewServer) [(\<lambda>_. five_env, sample_request ''GET'' ''/health'' [])] (snd w1)))) = 409"
proof -
  let ?H = "Handler no_metrics (\<lambda>h. h) NewServer"
  let ?qs = "[(\<lambda>_. five_env, sample_request ''GET'' ''/health'' [])] :: ((nat \<Rightarrow> env) \<times> request) list"
  obtain resp w1 where h: "?H (\<lambda>_. five_env) (sample_request ''POST'' ''/admin/drain'' drain_body) sample_world = (resp, w1)" by (rule prod.exhaust)
  have "world_inv (Suc (Suc (Suc 0))) w1"
  proof -
    have "(''/admin/drain'', handleDrain) \<in> set (routes (prom_page no_metrics))" by (simp add: routes_def)
    then obtain resp1 w' where "handleDrain (\<lambda>_. five_env) (sample_request ''POST'' ''/admin/drain'' drain_body) sample_world = (resp1, w')" "same_data w' w1"
      using h Handler_route [of "\<lambda>h. h" NewServer "sample_request ''POST'' ''/admin/drain'' drain_body" handleDrain no_metrics]
      by (auto simp: sample_request_def elim: wrapped)
    then show ?thesis
      using handleDrain_ok [of "sample_request ''POST'' ''/admin/drain'' drain_body" "payload_zero\<lparr>p_duration_seconds := 9\<rparr>"]
      by (auto simp: sample_request_def Decode_drain_body same_data_def world_inv_def sample_world_def with_broker_def drain_inv)
  qed
  moreover have "same_data w1 (serve_all ?H ?qs w1)"
    using cautious_snd [OF cautious_Handler [of no_metrics "\<lambda>h. h" NewServer], of "sample_request ''GET'' ''/health'' []" w1 "\<lambda>_. five_env"]
    by (simp add: sample_request_def)
  ultimately have inv: "world_inv (Suc (Suc (Suc 0))) (serve_all ?H ?qs w1)" using same_data_world by blast
  have path: "URL_Path (sample_request ''GET'' ''/health'' []) \<noteq> ''/admin/drain''" by code_simp
  have quiet: "quiet five_env" by (simp add: five_env_def quiet_def calm_env_def)
  have clock: "env_clock five_env x = 5" for x by (simp add: five_env_def)
  have "case ?H (\<lambda>_. five_env) (sample_request ''POST'' ''/produce'' produce_body) (serve_all ?H ?qs w1) of (resp', w3) \<Rightarrow>
      rs_Status resp = 200 \<and> rs_Status resp' \<in> {0, 409, 500} \<and> (quiet five_env \<longrightarrow> rs_Status resp' = 409) \<and>
      (\<forall>x. grows (world_log (serve_all ?H ?qs w1) x) (world_log w3 x) [])"
    by (rule api_drain_refuses_produce [where req = "payload_zero\<lparr>p_duration_seconds := 9\<rparr>" and req' = "payload_zero\<lparr>p_topic := ''t''\<rparr>"
        and es' = "\<lambda>_. five_env" and r' = "sample_request ''POST'' ''/produce'' produce_body", OF _ _ _ _ _ _ _ _ _ _ _ _ _ _ _ _ _ h refl inv])
      (use path in \<open>simp_all add: sample_request_def Decode_drain_body Decode_produce_body plain_name_def payload_zero_def clock\<close>)
  then show ?thesis using h quiet by (simp add: case_prod_beta)
qed

theorem api_produce_effect_witness:
  "\<exists>resp w'. Handler no_metrics (\<lambda>h. h) NewServer (\<lambda>_. calm_env) (sample_request ''POST'' ''/produce'' produce_body) sample_world = (resp, w') \<and>
    world_inv (Suc 0) w'"
proof -
  obtain resp w' where run: "Handler no_metrics (\<lambda>h. h) NewServer (\<lambda>_. calm_env) (sample_request ''POST'' ''/produce'' produce_body)
      sample_world = (resp, w')" by (rule prod.exhaust)
  have "world_inv (Suc 0) w'"
    using api_produce_effect [where n = "Suc 0" and req = "payload_zero\<lparr>p_topic := ''t''\<rparr>", OF _ _ _ _ _ _ _ _ run]
    by (simp add: sample_request_def Decode_produce_body plain_name_def payload_zero_def)
  with run show ?thesis by blast
qed

theorem api_key_required_witness:
  "w_fs (snd (Handler no_metrics (\<lambda>h. h) (NewServerWithAPIKey ''k'') (\<lambda>_. calm_env)
      (sample_request ''POST'' ''/produce'' produce_body) sample_world)) = w_fs sample_world"
proof -
  obtain resp w' where run: "Handler no_metrics (\<lambda>h. h) (NewServerWithAPIKey ''k'') (\<lambda>_. calm_env)
      (sample_request ''POST'' ''/produce'' produce_body) sample_world = (resp, w')" by (rule prod.exhaust)
  have k: "TrimSpace ''k'' \<noteq> []" by code_simp
  have "w_fs w' = w_fs sample_world"
    using api_key_required [OF _ _ _ _ _ run] k
    by (simp add: NewServerWithAPIKey_def sample_request_def Header_Get_def first_value_def)
  then show ?thesis by (simp add: run)
qed

theorem api_refusal_no_effect_witness:
  "w_fs (snd (Handler no_metrics (\<lambda>h. h) NewServer (\<lambda>_. calm_env) (sample_request ''GET'' ''/topics'' []) sample_world)) = w_fs sample_world"
proof -
  obtain resp w' where run: "Handler no_metrics (\<lambda>h. h) NewServer (\<lambda>_. calm_env) (sample_request ''GET'' ''/topics'' []) sample_world = (resp, w')"
    by (rule prod.exhaust)
  have "w_fs w' = w_fs sample_world" using api_refusal_no_effect [OF _ _ run] by (simp add: sample_request_def)
  then show ?thesis by (simp add: run)
qed

end
