(* ===== verification/Broker_Main.thy ===== *)
theory Broker_Main
  imports Management_Api
begin

text \<open>
  The stand-alone broker: the copying of file regions of \<^verbatim>\<open>broker/sendfile.go\<close>, \<^verbatim>\<open>sendfile_linux.go\<close> and
  \<^verbatim>\<open>sendfile_nonlinux.go\<close>, and the start-up and handlers of \<^verbatim>\<open>cmd/broker/main.go\<close> (\<^verbatim>\<open>apps/broker/main.go\<close> is the
  same file).
\<close>

section \<open>Sending a file region\<close>

text \<open>What one read of at most 32 kilobytes returns.\<close>

definition chunk :: "int \<Rightarrow> bytes \<Rightarrow> bytes" where
  "chunk remain rest = take (nat (if remain < 32 * 1024 then remain else 32 * 1024)) rest"

text \<open>
  The portable copy.  \<open>rest\<close> is the file from the current position on, \<open>rfail i\<close> says whether the \<open>i\<close>-th read fails,
  \<open>wr i b\<close> how many bytes of \<open>b\<close> the \<open>i\<close>-th write takes and with which error.  The result has the number of bytes
  copied, the error, and the bytes the writer took.
\<close>

function fallback_loop :: "(nat \<Rightarrow> bool) \<Rightarrow> (nat \<Rightarrow> bytes \<Rightarrow> nat \<times> go_error option) \<Rightarrow> nat \<Rightarrow> bytes \<Rightarrow> int \<Rightarrow> int \<Rightarrow> bytes \<Rightarrow>
    int \<times> go_error option \<times> bytes" where
  "fallback_loop rfail wr i rest remain copied out =
     (if remain \<le> 0 then (copied, None, out)
      else if rfail i then (copied, Some (Err ''read error''), out)
      else
        let b = chunk remain rest
        in if b = [] then (copied, None, out)
           else case wr i b of (wn, werr) \<Rightarrow>
             let copied' = copied + int wn; out' = out @ take wn b
             in case werr of
                  Some err \<Rightarrow> (copied', Some err, out')
                | None \<Rightarrow>
                    if length b \<noteq> wn then (copied', Some (Err ''short write''), out')
                    else fallback_loop rfail wr (Suc i) (drop (length b) rest) (remain - int (length b)) copied' out')"
  by pat_completeness auto
termination
  by (relation "measure (\<lambda>(rfail, wr, i, rest, remain, copied, out). length rest)") (auto simp: chunk_def split: if_splits)

declare fallback_loop.simps [simp del]

definition sendFileFallback :: "(nat \<Rightarrow> bool) \<Rightarrow> (nat \<Rightarrow> bytes \<Rightarrow> nat \<times> go_error option) \<Rightarrow> bytes \<Rightarrow> int \<Rightarrow> int \<Rightarrow>
    int \<times> go_error option \<times> bytes" where
  "sendFileFallback rfail wr data off count =
     (if off < 0 then (0, Some (Err ''invalid argument''), [])
      else fallback_loop rfail wr 0 (drop (nat off) data) count 0 [])"

text \<open>
  The Linux version asks the kernel to copy between two files, so it refuses every writer that is not a file.
  \<open>sys i n\<close> is the answer of the \<open>i\<close>-th \<^verbatim>\<open>sendfile\<close> call for \<open>n\<close> bytes; the loop repeats interrupted calls and may
  not end.
\<close>

datatype writer = File_Writer | Conn_Writer

datatype sys_result = Sent int | Again int | Failed int go_error

partial_function (option) sendfile_loop :: "(nat \<Rightarrow> int \<Rightarrow> sys_result) \<Rightarrow> int \<Rightarrow> nat \<Rightarrow> int \<Rightarrow> (int \<times> go_error option) option" where
  "sendfile_loop sys count i tot =
     (if tot \<ge> count then Some (tot, None)
      else case sys i (count - tot) of
        Again n \<Rightarrow> sendfile_loop sys count (Suc i) (if n > 0 then tot + n else tot)
      | Failed n err \<Rightarrow> Some (if n > 0 then tot + n else tot, Some err)
      | Sent n \<Rightarrow>
          if n = 0 then Some (tot, None) else sendfile_loop sys count (Suc i) (if n > 0 then tot + n else tot))"

definition sendFile_linux :: "writer \<Rightarrow> (nat \<Rightarrow> int \<Rightarrow> sys_result) \<Rightarrow> int \<Rightarrow> (int \<times> go_error option) option" where
  "sendFile_linux w sys count =
     (case w of Conn_Writer \<Rightarrow> Some (0, Some (Err ''invalid argument'')) | File_Writer \<Rightarrow> sendfile_loop sys count 0 0)"

text \<open>
  What a build sends to an HTTP connection, as the bytes that went out and the error.
\<close>

type_synonym conn_send = "bytes \<Rightarrow> int \<Rightarrow> int \<Rightarrow> bytes \<times> go_error option"

definition SendFile_linux_conn :: conn_send where
  "SendFile_linux_conn data pos count =
     (case sendFile_linux Conn_Writer (\<lambda>i n. Sent 0) count of
        Some (_, err) \<Rightarrow> ([], err) | None \<Rightarrow> ([], None))"

definition SendFile_other_conn :: "(nat \<Rightarrow> bool) \<Rightarrow> (nat \<Rightarrow> bytes \<Rightarrow> nat \<times> go_error option) \<Rightarrow> conn_send" where
  "SendFile_other_conn rfail wr data pos count =
     (case sendFileFallback rfail wr data pos count of (_, err, out) \<Rightarrow> (out, err))"

section \<open>The program\<close>

type_synonym main_handler = "(nat \<Rightarrow> env) \<Rightarrow> request \<Rightarrow> fs \<times> Broker \<Rightarrow> response \<times> (fs \<times> Broker)"

definition main_start :: "(nat \<Rightarrow> env) \<Rightarrow> string \<Rightarrow> fs \<Rightarrow> go_error + (fs \<times> Broker)" where
  "main_start es tmp fs =
     (let workDir = filepath_Join [tmp, ''streamflow-broker'']
      in if \<not> os_ok (es 0) (Os_MkdirAll workDir) then Inl (ErrPanic ''mkdir'')
         else case NewBroker (es 1) workDir of
                Inl err \<Rightarrow> Inl (ErrPanic ''new broker'')
              | Inr br \<Rightarrow>
                  (case CreateTopic (es 2) ''orders'' fs br of
                     (Inl err, _) \<Rightarrow> Inl (ErrPanic ''create topic'')
                   | (Inr _, fs1, br1) \<Rightarrow> Inr (fs1, br1)))"

definition main_health :: main_handler where
  "main_health es r st = (\<lparr> rs_Status = 200, rs_Body = Text ''ok'' \<rparr>, st)"

definition main_produce :: main_handler where
  "main_produce es r st =
     (if rq_Method r \<noteq> ''POST'' then (not_allowed, st)
      else case Decode [''topic'', ''key'', ''value'', ''headers''] (rq_Body r) of
        None \<Rightarrow> (http_Error ''invalid json'' 400, st)
      | Some req \<Rightarrow>
          if p_topic req = [] then (http_Error ''topic is required'' 400, st)
          else case CreateTopic (es 0) (p_topic req) (fst st) (snd st) of
            (Inl err, st1) \<Rightarrow> (http_Fail err 500, st1)
          | (Inr _, fs1, b1) \<Rightarrow>
              (case Produce (es 1) (p_topic req) (Some (p_key req)) (Some (p_value req)) (p_headers req) fs1 b1 of
                 (Inl err, st2) \<Rightarrow> (http_Fail err 500, st2)
               | (Inr rec, st2) \<Rightarrow> (\<lparr> rs_Status = 200, rs_Body = Document (Record_doc rec) \<rparr>, st2)))"

definition main_consume :: main_handler where
  "main_consume es r st =
     (if rq_Method r \<noteq> ''GET'' then (not_allowed, st)
      else let topic = Query_Get r ''topic'' in
        if topic = [] then (http_Error ''topic is required'' 400, st)
        else case query_offset r of
          None \<Rightarrow> (http_Error ''invalid offset'' 400, st)
        | Some off \<Rightarrow>
            (case query_max r of
               None \<Rightarrow> (http_Error ''invalid max'' 400, st)
             | Some mx \<Rightarrow>
                 (case Consume (es 0) topic off mx (fst st) (snd st) of
                    Inl err \<Rightarrow> (http_Fail err 404, st)
                  | Inr recs \<Rightarrow> (\<lparr> rs_Status = 200, rs_Body = Document (map_option JArr (Records_docs recs)) \<rparr>, st))))"

definition main_fetchraw :: "conn_send \<Rightarrow> main_handler" where
  "main_fetchraw send es r st =
     (if rq_Method r \<noteq> ''GET'' then (not_allowed, st)
      else let topic = Query_Get r ''topic''; offsetStr = Query_Get r ''offset'' in
        if topic = [] then (http_Error ''topic is required'' 400, st)
        else if offsetStr = [] then (http_Error ''offset is required'' 400, st)
        else case ParseInt offsetStr of
          None \<Rightarrow> (http_Error ''invalid offset'' 400, st)
        | Some off \<Rightarrow>
            (case FetchRaw (es 0) topic off (fst st) (snd st) of
               Inl err \<Rightarrow> (http_Fail err 404, st)
             | Inr (p, pos, len) \<Rightarrow>
                 (case send (map_get [] (fst st) p) pos len of
                    (out, None) \<Rightarrow> (\<lparr> rs_Status = 200, rs_Body = Raw out \<rparr>, st)
                  | ([], Some err) \<Rightarrow> (http_Fail err 500, st)
                  | (out, Some err) \<Rightarrow> (\<lparr> rs_Status = 200, rs_Body = Partial out err \<rparr>, st))))"

definition main_mux :: "conn_send \<Rightarrow> main_handler" where
  "main_mux send = (\<lambda>es. ServeMux [(''/health'', main_health es), (''/produce'', main_produce es),
     (''/consume'', main_consume es), (''/fetchraw'', main_fetchraw send es)])"

section \<open>What is sent\<close>

text \<open>Whatever the writer does, what it took is a prefix of the region; all of it if nothing failed.\<close>

definition full_writer :: "(nat \<Rightarrow> bytes \<Rightarrow> nat \<times> go_error option) \<Rightarrow> bool" where
  "full_writer wr \<longleftrightarrow> (\<forall>i b. wr i b = (length b, None))"

lemma take_region: "k \<le> n \<Longrightarrow> take n xs = take k xs @ take (n - k) (drop k xs)"
  by (metis le_add_diff_inverse take_add)

lemma chunk_split:
  assumes "b = chunk remain rest"
  shows "take (nat remain) rest = b @ take (nat (remain - int (length b))) (drop (length b) rest)"
proof -
  have b: "b = take (length b) rest" unfolding assms chunk_def by (metis append_eq_conv_conj append_take_drop_id)
  have le: "length b \<le> nat remain" by (auto simp: assms chunk_def)
  then have "nat (remain - int (length b)) = nat remain - length b" by linarith
  then show ?thesis using take_region [OF le, of rest] b by metis
qed

lemma fallback_step:
  assumes "0 < remain" "\<not> rfail i" "b = chunk remain rest" "b \<noteq> []" "wr i b = (wn, werr)"
  shows "fallback_loop rfail wr i rest remain copied out =
    (if werr = None \<and> length b = wn
     then fallback_loop rfail wr (Suc i) (drop (length b) rest) (remain - int (length b)) (copied + int wn) (out @ b)
     else (copied + int wn, Some (case werr of Some err \<Rightarrow> err | None \<Rightarrow> Err ''short write''), out @ take wn b))"
  using assms by (simp add: fallback_loop.simps [of rfail wr i rest remain] Let_def split: option.split)

lemma fallback_done:
  "remain \<le> 0 \<or> chunk remain rest = [] \<and> \<not> rfail i \<Longrightarrow> fallback_loop rfail wr i rest remain copied out = (copied, None, out)"
  "0 < remain \<Longrightarrow> rfail i \<Longrightarrow> fallback_loop rfail wr i rest remain copied out = (copied, Some (Err ''read error''), out)"
  by (auto simp: fallback_loop.simps [of rfail wr i rest remain] Let_def)

lemma fallback_loop_prefix:
  assumes wr: "\<And>i b. fst (wr i b) \<le> length b"
  shows "case fallback_loop rfail wr i rest remain copied out of (n, err, out') \<Rightarrow>
    \<exists>sent. out' = out @ sent \<and> prefix sent (take (nat remain) rest) \<and> n = copied + int (length sent) \<and>
      (err = None \<longrightarrow> sent = take (nat remain) rest)"
proof (induction "length rest" arbitrary: i rest remain copied out rule: less_induct)
  case less
  define b where b: "b = chunk remain rest"
  consider "remain \<le> 0 \<or> b = [] \<and> \<not> rfail i" | "0 < remain" "rfail i" | "0 < remain" "\<not> rfail i" "b \<noteq> []"
    by linarith
  then show ?case
  proof cases
    case 1
    then have "take (nat remain) rest = []" by (auto simp: b chunk_def split: if_splits)
    then show ?thesis using 1 fallback_done(1) [of remain rest rfail i] by (simp add: b)
  next
    case 2
    then show ?thesis by (simp add: fallback_done(2))
  next
    case 3
    obtain wn werr where w: "wr i b = (wn, werr)" by (rule prod.exhaust)
    note step = fallback_step [where rfail = rfail and wr = wr and i = i and copied = copied and out = out, OF 3(1,2) b 3(3) w] and pre = chunk_split [OF b]
    have wn: "wn \<le> length b" using wr [of i b] w by simp
    show ?thesis
    proof (cases "werr = None \<and> length b = wn")
      case True
      have short: "length (drop (length b) rest) < length rest" using 3(3) by (simp add: b chunk_def)
      show ?thesis
        using less [where i = "Suc i" and remain = "remain - int (length b)" and copied = "copied + int wn" and out = "out @ b", OF short]
        by (force simp: step True pre split: prod.splits)
    next
      case False
      then show ?thesis using wn by (auto simp: step pre intro!: exI [of _ "take wn b"] prefix_prefix take_is_prefix)
    qed
  qed
qed

lemma fallback_no_error:
  assumes "full_writer wr"
  shows "fst (snd (fallback_loop (\<lambda>i. False) wr i rest remain copied out)) = None"
proof (induction "length rest" arbitrary: i rest remain copied out rule: less_induct)
  case less
  define b where b: "b = chunk remain rest"
  show ?case
  proof (cases "0 < remain \<and> b \<noteq> []")
    case True
    have w: "wr i b = (length b, None)" using assms by (simp add: full_writer_def)
    have "length (drop (length b) rest) < length rest" using True by (auto simp: b chunk_def)
    then show ?thesis
      using True less fallback_step [where rfail = "\<lambda>i. False" and wr = wr and i = i and copied = copied and out = out, OF _ _ b _ w]
      by simp
  next
    case False
    then show ?thesis using fallback_done(1) [of remain rest "\<lambda>i. False" i] by (auto simp: b)
  qed
qed

lemma SendFile_other_conn_full:
  assumes "full_writer wr" "0 \<le> pos"
  shows "SendFile_other_conn (\<lambda>i. False) wr data pos len = (take (nat len) (drop (nat pos) data), None)"
proof -
  have wr: "fst (wr i b) \<le> length b" for i b using assms(1) by (simp add: full_writer_def)
  show ?thesis
    using fallback_loop_prefix [where wr = wr and rfail = "\<lambda>i. False" and i = 0 and rest = "drop (nat pos) data" and remain = len
        and copied = 0 and out = "[]", OF wr]
      fallback_no_error [where i = 0 and rest = "drop (nat pos) data" and remain = len and copied = 0 and out = "[]", OF assms(1)] assms(2)
    by (auto simp: SendFile_other_conn_def sendFileFallback_def split: prod.splits)
qed

lemma fmt_d_nonempty [simp]: "fmt_d i \<noteq> []"
  by (simp add: fmt_d_def)

text \<open>The kernel copy ends with every byte sent when each call sends at least one byte.\<close>

lemma sendfile_loop_complete:
  assumes "\<And>i n. 0 < n \<Longrightarrow> \<exists>k. sys i n = Sent k \<and> 0 < k \<and> k \<le> n"
  shows "0 \<le> tot \<Longrightarrow> tot \<le> count \<Longrightarrow> sendfile_loop sys count i tot = Some (count, None)"
proof (induction "nat (count - tot)" arbitrary: i tot rule: less_induct)
  case less
  show ?case
  proof (cases "tot = count")
    case False
    then obtain k where "sys i (count - tot) = Sent k" "0 < k" "k \<le> count - tot"
      using assms [of "count - tot" i] less.prems by auto
    moreover have "sendfile_loop sys count (Suc i) (tot + k) = Some (count, None)"
      using less.hyps [of "tot + k" "Suc i"] less.prems calculation by simp
    ultimately show ?thesis using False less.prems by (simp add: sendfile_loop.simps [of sys count i tot])
  qed (simp add: sendfile_loop.simps)
qed

section \<open>Properties\<close>

definition main_patterns :: "string list" where
  "main_patterns = [''/health'', ''/produce'', ''/consume'', ''/fetchraw'']"

lemma main_patterns_plain:
  "list_all (\<lambda>p. p \<noteq> ''*'' \<and> cleanPath p = p \<and> segments_of p = split_char (CHR ''/'') p) main_patterns"
  by code_simp

lemma main_route_fetchraw:
  "rq_EscapedPath r = ''/fetchraw'' \<Longrightarrow> main_mux send es r st = main_fetchraw send es r st"
  using main_patterns_plain by (simp add: main_mux_def ServeMux_def main_patterns_def route_def Let_def)

text \<open>C33. Raw fetch over HTTP, in a build without the kernel copy: the answer for an offset of the log is 200 and its
  body is the JSON of exactly that record, nothing else changes.
\<close>

theorem fetchraw_serves_record:
  assumes "broker_inv n fs b" "quiet (es 0)" "topic_log fs b name = Some l" "(off, rec) \<in> set l" "int64_range off"
    and "rq_Method r = ''GET''" "rq_EscapedPath r = ''/fetchraw''" "Query_Get r ''topic'' = name" "Query_Get r ''offset'' = fmt_d off"
    and "full_writer wr"
  shows "\<exists>out. main_mux (SendFile_other_conn (\<lambda>i. False) wr) es r (fs, b) = (\<lparr> rs_Status = 200, rs_Body = Raw out \<rparr>, (fs, b)) \<and>
    json_Unmarshal_Record out = Some rec"
proof -
  obtain p pos len where raw: "FetchRaw (es 0) name off fs b = Inr (p, pos, len)" "0 \<le> pos" "0 \<le> len"
      "json_Unmarshal_Record (take (nat len) (drop (nat pos) (map_get [] fs p))) = Some rec"
    using FetchRaw_correct [OF assms(1-4)] by blast
  have name: "name \<noteq> []"
    using assms(1,3) by (auto simp: topic_log_def plain_name_def dest: broker_inv_topic(1))
  obtain out where out: "json_Unmarshal_Record out = Some rec"
      "SendFile_other_conn (\<lambda>i. False) wr (map_get [] fs p) pos len = (out, None)"
    using SendFile_other_conn_full [OF assms(10) raw(2)] raw(4) by blast
  show ?thesis
    using assms(5-9) raw(1) name out
    by (cases out) (simp_all add: main_route_fetchraw main_fetchraw_def Let_def)
qed

text \<open>C34. In the Linux build raw fetch never succeeds: the kernel copy accepts only files, and an HTTP connection is none.
  The request for an offset of the log, which other builds answer with the record, is answered 500 with the text of
  the invalid argument error, and no request is ever answered 200.
\<close>

theorem fetchraw_linux_never_serves:
  assumes "broker_inv n fs b" "quiet (es 0)" "topic_log fs b name = Some l" "(off, rec) \<in> set l" "int64_range off"
    and "rq_Method r = ''GET''" "rq_EscapedPath r = ''/fetchraw''" "Query_Get r ''topic'' = name" "Query_Get r ''offset'' = fmt_d off"
  shows "main_mux SendFile_linux_conn es r (fs, b) = (http_Fail (Err ''invalid argument'') 500, (fs, b)) \<and>
    (\<forall>es' r' st. rs_Status (fst (main_fetchraw SendFile_linux_conn es' r' st)) \<noteq> 200)"
proof
  obtain p pos len where raw: "FetchRaw (es 0) name off fs b = Inr (p, pos, len)"
    using FetchRaw_correct [OF assms(1-4)] by blast
  have name: "name \<noteq> []"
    using assms(1,3) by (auto simp: topic_log_def plain_name_def dest: broker_inv_topic(1))
  show "main_mux SendFile_linux_conn es r (fs, b) = (http_Fail (Err ''invalid argument'') 500, (fs, b))"
    using assms(5-9) raw name
    by (simp add: main_route_fetchraw main_fetchraw_def SendFile_linux_conn_def sendFile_linux_def Let_def)
  show "\<forall>es' r' st. rs_Status (fst (main_fetchraw SendFile_linux_conn es' r' st)) \<noteq> 200"
    by (auto simp: main_fetchraw_def SendFile_linux_conn_def sendFile_linux_def Let_def Fail_not_ok
      split: option.splits sum.splits)
qed

lemma fmt_d_zero: "fmt_d 0 = ''0''"
  by code_simp

definition raw_request :: request where
  "raw_request = \<lparr> rq_Method = ''GET'', rq_EscapedPath = ''/fetchraw'', rq_Query = [(''topic'', ''t''), (''offset'', ''0'')],
     rq_Header = [], rq_Body = [] \<rparr>"

theorem fetchraw_serves_record_witness:
  "\<exists>out. main_mux (SendFile_other_conn (\<lambda>i. False) (\<lambda>i b. (length b, None))) (\<lambda>_. calm_env) raw_request sample_produced =
      (\<lparr> rs_Status = 200, rs_Body = Raw out \<rparr>, sample_produced) \<and>
    json_Unmarshal_Record out = Some (produced calm_env (Some ''k'') None fmempty 0)"
  using fmt_d_zero fetchraw_serves_record [OF sample_produced_inv, of "\<lambda>_. calm_env", OF _ sample_produced_log, of 0 _ raw_request
      "\<lambda>i b. (length b, None)"]
  by (simp add: raw_request_def Query_Get_def first_value_def full_writer_def int64_range_def)

theorem fetchraw_linux_never_serves_witness:
  "main_mux SendFile_linux_conn (\<lambda>_. calm_env) raw_request sample_produced = (http_Fail (Err ''invalid argument'') 500, sample_produced)"
  using fmt_d_zero fetchraw_linux_never_serves [OF sample_produced_inv, of "\<lambda>_. calm_env", OF _ sample_produced_log, of 0 _ raw_request]
  by (simp add: raw_request_def Query_Get_def first_value_def int64_range_def)

end
