(* ===== verification/Processor_Ops.thy ===== *)
theory Processor_Ops
  imports Go_Os Go_Float
begin

text \<open>
  The stream operators of \<^verbatim>\<open>processor/op.go\<close>, their composition in \<^verbatim>\<open>runtime.go\<close> and the state stores
  (\<^verbatim>\<open>state_store.go\<close>, \<^verbatim>\<open>state_store_rocksdb.go\<close>).  A record is a finite map from field names to dynamic values.  An
  operator reads its input channel until it is closed and closes its output channel at the end, in one
  goroutine, so it is a function from the list of records received to the list of records sent.
\<close>

section \<open>Dynamic values\<close>

datatype agg_val = Agg_Int int | Agg_Float float64

datatype gval =
    VNil
  | VBool bool
  | VInt int
  | VFloat float64
  | VStr string
  | VList "gval list"
  | VMap "(string \<times> gval) list"
  | VCounts "(string, int) fmap"
  | VGroups "(string, (string, agg_val) fmap) fmap"

type_synonym Rec = "(string, gval) fmap"

definition fmt_agg :: "agg_val \<Rightarrow> string" where
  "fmt_agg v = (case v of Agg_Int i \<Rightarrow> fmt_d i | Agg_Float f \<Rightarrow> fmt_float f)"

definition map_text :: "(string \<times> string) list \<Rightarrow> string" where
  "map_text kvs = ''map['' @ join_char (CHR '' '') (map (\<lambda>(k, v). k @ '':'' @ v) kvs) @ '']''"

text \<open>\<^verbatim>\<open>fmt.Sprintf("%v", x)\<close>; the entries of a map are printed in the order of the keys.\<close>

fun fmt_v :: "gval \<Rightarrow> string" where
  "fmt_v VNil = ''<nil>''"
| "fmt_v (VBool b) = (if b then ''true'' else ''false'')"
| "fmt_v (VInt i) = fmt_d i"
| "fmt_v (VFloat f) = fmt_float f"
| "fmt_v (VStr s) = s"
| "fmt_v (VList vs) = ''['' @ join_char (CHR '' '') (map fmt_v vs) @ '']''"
| "fmt_v (VMap kvs) = ''map['' @ join_char (CHR '' '') (map (\<lambda>(k, v). k @ '':'' @ fmt_v v) (sort_key fst kvs)) @ '']''"
| "fmt_v (VCounts m) = map_text (map (\<lambda>k. (k, fmt_d (map_get 0 m k))) (sorted_keys m))"
| "fmt_v (VGroups m) =
     map_text (map (\<lambda>g. (g, map_text (map (\<lambda>k. (k, fmt_agg (map_get (Agg_Int 0) (map_get fmempty m g) k)))
       (sorted_keys (map_get fmempty m g))))) (sorted_keys m))"

text \<open>The text under which a record is counted, grouped or joined.\<close>

definition key_text :: "gval \<Rightarrow> string" where
  "key_text v = (case v of VStr s \<Rightarrow> s | _ \<Rightarrow> fmt_v v)"

section \<open>Operators\<close>

type_synonym operator = "Rec list \<Rightarrow> Rec list"

fun MapOperator :: "(Rec \<Rightarrow> Rec option) \<Rightarrow> operator" where
  "MapOperator Fn [] = []"
| "MapOperator Fn (r # rs) =
     (case Fn r of None \<Rightarrow> MapOperator Fn rs | Some nr \<Rightarrow> nr # MapOperator Fn rs)"

fun FilterOperator :: "(Rec \<Rightarrow> bool) \<Rightarrow> operator" where
  "FilterOperator Pred [] = []"
| "FilterOperator Pred (r # rs) = (if Pred r then r # FilterOperator Pred rs else FilterOperator Pred rs)"

definition count_record :: "string \<Rightarrow> Rec \<Rightarrow> (string, int) fmap \<Rightarrow> (string, int) fmap" where
  "count_record key r counts =
     (case fmlookup r key of
        None \<Rightarrow> counts
      | Some v \<Rightarrow> fmupd (key_text v) (map_get 0 counts (key_text v) + 1) counts)"

definition counts_record :: "(string, int) fmap \<Rightarrow> Rec" where
  "counts_record counts = fmupd ''counts'' (VCounts counts) fmempty"

definition AggregateOperator :: "string \<Rightarrow> operator" where
  "AggregateOperator key rs = [counts_record (foldl (\<lambda>counts r. count_record key r counts) fmempty rs)]"

fun window_loop :: "string \<Rightarrow> int \<Rightarrow> (string, int) fmap \<Rightarrow> int \<Rightarrow> Rec list \<Rightarrow> Rec list" where
  "window_loop key wsize counts seen [] = (if counts \<noteq> fmempty then [counts_record counts] else [])"
| "window_loop key wsize counts seen (r # rs) =
     (let counts' = count_record key r counts; seen' = seen + 1
      in if wsize > 0 \<and> seen' mod wsize = 0
         then counts_record counts' # window_loop key wsize fmempty seen' rs
         else window_loop key wsize counts' seen' rs)"

definition WindowAggregateOperator :: "string \<Rightarrow> int \<Rightarrow> operator" where
  "WindowAggregateOperator key wsize rs = window_loop key wsize fmempty 0 rs"

record JoinOperator =
  jo_LeftKey :: string
  jo_RightKey :: string
  jo_RightMap :: "(string, Rec) fmap"

definition join_key :: "string \<Rightarrow> Rec \<Rightarrow> string" where
  "join_key key l = (case fmlookup l key of None \<Rightarrow> [] | Some v \<Rightarrow> key_text v)"

fun Join_Process :: "JoinOperator \<Rightarrow> operator" where
  "Join_Process j [] = []"
| "Join_Process j (l # ls) =
     (case fmlookup (jo_RightMap j) (join_key (jo_LeftKey j) l) of
        None \<Rightarrow> Join_Process j ls
      | Some r \<Rightarrow> (l ++\<^sub>f r) # Join_Process j ls)"

record AggSpec =
  as_Func :: string
  as_Field :: string
  as_Alias :: string

definition spec_alias :: "AggSpec \<Rightarrow> string" where
  "spec_alias s = (if as_Alias s = [] then as_Func s @ ''_'' @ as_Field s else as_Alias s)"

record agg_state =
  ag_sums :: "(string, (string, float64) fmap) fmap"
  ag_counts :: "(string, (string, int) fmap) fmap"

definition agg_empty :: agg_state where
  "agg_empty = \<lparr> ag_sums = fmempty, ag_counts = fmempty \<rparr>"

definition bump :: "string \<Rightarrow> (string, int) fmap \<Rightarrow> (string, int) fmap" where
  "bump a m = fmupd a (map_get 0 m a + 1) m"

definition add_num :: "string \<Rightarrow> float64 \<Rightarrow> (string, float64) fmap \<Rightarrow> (string, float64) fmap" where
  "add_num a x m = fmupd a (f_add (map_get (f_zero False) m a) x) m"

text \<open>One aggregation of one record, in its group's maps.\<close>

definition apply_spec ::
  "Rec \<Rightarrow> (string, float64) fmap \<times> (string, int) fmap \<Rightarrow> AggSpec \<Rightarrow> (string, float64) fmap \<times> (string, int) fmap" where
  "apply_spec r st spec =
     (case st of (s, c) \<Rightarrow>
        let a = spec_alias spec
        in if as_Func spec = ''count'' then (s, bump a c)
           else if as_Func spec = ''sum'' \<or> as_Func spec = ''avg'' then
             (case fmlookup r (as_Field spec) of
                Some (VInt n) \<Rightarrow> (add_num a (f_of_int n) s, bump a c)
              | Some (VFloat n) \<Rightarrow> (add_num a n s, bump a c)
              | _ \<Rightarrow> (s, c))
           else (s, c))"

definition agg_record :: "string \<Rightarrow> AggSpec list \<Rightarrow> agg_state \<Rightarrow> Rec \<Rightarrow> agg_state" where
  "agg_record key aggs st r =
     (let g = join_key key r;
          (s, c) = (if fmlookup (ag_sums st) g = None then (fmempty, fmempty)
                    else (map_get fmempty (ag_sums st) g, map_get fmempty (ag_counts st) g));
          (s', c') = foldl (apply_spec r) (s, c) aggs
      in \<lparr> ag_sums = fmupd g s' (ag_sums st), ag_counts = fmupd g c' (ag_counts st) \<rparr>)"

definition is_avg :: "AggSpec list \<Rightarrow> string \<Rightarrow> bool" where
  "is_avg aggs a \<longleftrightarrow> list_ex (\<lambda>spec. spec_alias spec = a \<and> as_Func spec = ''avg'') aggs"

definition sum_result :: "AggSpec list \<Rightarrow> (string, int) fmap \<Rightarrow> string \<Rightarrow> float64 \<Rightarrow> agg_val" where
  "sum_result aggs c a x =
     (let n = map_get 0 c a
      in if n = 0 then Agg_Float x else if is_avg aggs a then Agg_Float (f_div x (f_of_int n)) else Agg_Float x)"

text \<open>The results of one group: its sums, then the counts whose alias has no sum.\<close>

definition group_result ::
  "AggSpec list \<Rightarrow> (string, float64) fmap \<Rightarrow> (string, int) fmap \<Rightarrow> (string, agg_val) fmap" where
  "group_result aggs s c =
     fmap_of_list (map (\<lambda>a. (a, sum_result aggs c a (map_get (f_zero False) s a))) (sorted_keys s) @
       map (\<lambda>a. (a, Agg_Int (map_get 0 c a))) (filter (\<lambda>a. fmlookup s a = None) (sorted_keys c)))"

definition agg_groups :: "AggSpec list \<Rightarrow> agg_state \<Rightarrow> (string, (string, agg_val) fmap) fmap" where
  "agg_groups aggs st =
     fmap_of_list (map (\<lambda>g. (g, group_result aggs (map_get fmempty (ag_sums st) g) (map_get fmempty (ag_counts st) g)))
       (sorted_keys (ag_sums st)))"

definition AggregateFuncsOperator :: "string \<Rightarrow> AggSpec list \<Rightarrow> operator" where
  "AggregateFuncsOperator key aggs rs =
     [fmupd ''groups'' (VGroups (agg_groups aggs (foldl (agg_record key aggs) agg_empty rs))) fmempty]"

text \<open>What the time window selects on: a record of the input or a tick; the end of the list is the closed input.\<close>

datatype tw_event = TW_Record Rec | TW_Tick

definition tw_flush :: "AggSpec list \<Rightarrow> agg_state \<Rightarrow> Rec list \<times> agg_state" where
  "tw_flush aggs st =
     (if ag_sums st = fmempty \<and> ag_counts st = fmempty then ([], st)
      else ([fmupd ''groups'' (VGroups (agg_groups aggs st)) fmempty], agg_empty))"

fun tw_loop :: "string \<Rightarrow> AggSpec list \<Rightarrow> agg_state \<Rightarrow> tw_event list \<Rightarrow> Rec list" where
  "tw_loop key aggs st [] = fst (tw_flush aggs st)"
| "tw_loop key aggs st (TW_Record r # evs) = tw_loop key aggs (agg_record key aggs st r) evs"
| "tw_loop key aggs st (TW_Tick # evs) =
     (case tw_flush aggs st of (out, st') \<Rightarrow> out @ tw_loop key aggs st' evs)"

text \<open>\<^verbatim>\<open>time.NewTicker\<close> panics unless its period is positive.\<close>

definition TimeWindowAggregateOperator :: "string \<Rightarrow> AggSpec list \<Rightarrow> int \<Rightarrow> tw_event list \<Rightarrow> go_error + Rec list" where
  "TimeWindowAggregateOperator key aggs duration evs =
     (if wrap64 (duration * 1000000) \<le> 0 then Inl (ErrPanic ''non-positive interval for NewTicker'')
      else Inr (tw_loop key aggs agg_empty evs))"

section \<open>Runtime\<close>

definition Runtime_Run :: "operator list \<Rightarrow> operator" where
  "Runtime_Run ops rs = foldl (\<lambda>ch op. op ch) rs ops"

section \<open>State stores\<close>

type_synonym kv = "(bytes, bytes) fmap"

text \<open>\<^verbatim>\<open>append([]byte(nil), v...)\<close>: a copy, which is nil when there is nothing to copy.\<close>

definition nil_copy :: "bytes \<Rightarrow> bytes option" where
  "nil_copy b = (if b = [] then None else Some b)"

definition mem_Put :: "bytes \<Rightarrow> bytes \<Rightarrow> kv \<Rightarrow> kv" where
  "mem_Put k v m = fmupd k v m"

definition mem_Get :: "bytes \<Rightarrow> kv \<Rightarrow> bytes option" where
  "mem_Get k m = (case fmlookup m k of None \<Rightarrow> None | Some v \<Rightarrow> nil_copy v)"

definition NewRocksDBStateStore_stub :: "string \<Rightarrow> go_error + kv" where
  "NewRocksDBStateStore_stub dir = Inl (Err ''rocksdb state store requires -tags rocksdb'')"

record RocksDBStateStore =
  rdb_dir :: string
  rdb_kv :: kv

definition NewRocksDBStateStore :: "env \<Rightarrow> string \<Rightarrow> go_error + RocksDBStateStore" where
  "NewRocksDBStateStore e dir =
     (if dir = [] then Inl (Err ''rocksdb dir is required'')
      else if \<not> os_ok e (Os_MkdirAll (filepath_Clean dir)) then Inl (ErrOs (IOFault (Os_MkdirAll (filepath_Clean dir))))
      else Inr \<lparr> rdb_dir = dir, rdb_kv = fmempty \<rparr>)"

definition rdb_Put :: "bytes \<Rightarrow> bytes \<Rightarrow> RocksDBStateStore \<Rightarrow> RocksDBStateStore" where
  "rdb_Put k v s = s\<lparr>rdb_kv := fmupd k v (rdb_kv s)\<rparr>"

definition rdb_Get :: "bytes \<Rightarrow> RocksDBStateStore \<Rightarrow> bytes option" where
  "rdb_Get k s = nil_copy (map_get [] (rdb_kv s) k)"

section \<open>Counting\<close>

definition counts_of :: "string \<Rightarrow> Rec list \<Rightarrow> (string, int) fmap" where
  "counts_of key rs = foldl (\<lambda>counts r. count_record key r counts) fmempty rs"

text \<open>The number of records with a field of a given text.\<close>

definition occurrences :: "string \<Rightarrow> string \<Rightarrow> Rec list \<Rightarrow> nat" where
  "occurrences key s rs = length (filter (\<lambda>r. case fmlookup r key of None \<Rightarrow> False | Some v \<Rightarrow> key_text v = s) rs)"

lemma counts_of_lookup:
  "fmlookup (counts_of key rs) s = (if occurrences key s rs = 0 then None else Some (int (occurrences key s rs)))"
proof (induction rs rule: rev_induct)
  case Nil
  then show ?case by (simp add: counts_of_def occurrences_def)
next
  case (snoc r rs)
  have "counts_of key (rs @ [r]) = count_record key r (counts_of key rs)" by (simp add: counts_of_def)
  with snoc show ?case
    by (auto simp: count_record_def occurrences_def map_get_def split: option.splits)
qed

text \<open>
  The counting operator sends one record at the end of its input, and in it the count of a text is the
  number of records whose field has that text; texts that do not occur are absent.
\<close>

theorem aggregate_counts_records:
  "\<exists>counts. AggregateOperator key rs = [counts_record counts] \<and>
     (\<forall>s. fmlookup counts s = (if occurrences key s rs = 0 then None else Some (int (occurrences key s rs))))"
  using counts_of_lookup [of key rs] by (auto simp: AggregateOperator_def counts_of_def)

section \<open>Windows by count\<close>

text \<open>The reference: cut the input into runs of \<open>n\<close> records and count each; a shorter last run is sent if it counts anything.\<close>

function windows_ref :: "string \<Rightarrow> nat \<Rightarrow> Rec list \<Rightarrow> Rec list" where
  "windows_ref key n rs =
     (if n = 0 \<or> length rs < n then (if counts_of key rs = fmempty then [] else [counts_record (counts_of key rs)])
      else counts_record (counts_of key (take n rs)) # windows_ref key n (drop n rs))"
  by pat_completeness auto
termination
  by (relation "measure (\<lambda>(_, _, rs). length rs)") auto

declare windows_ref.simps [simp del]

lemma counts_of_snoc: "counts_of key (rs @ [r]) = count_record key r (counts_of key rs)"
  by (simp add: counts_of_def)

lemma window_loop_ref:
  assumes "0 < n"
  shows "length cur < n \<Longrightarrow> seen mod int n = int (length cur) \<Longrightarrow>
    window_loop key (int n) (counts_of key cur) seen rs = windows_ref key n (cur @ rs)"
proof (induction rs arbitrary: cur seen)
  case Nil
  then show ?case by (simp add: windows_ref.simps [of key n cur])
next
  case (Cons r rs)
  have md: "(seen + 1) mod int n = (int (length cur) + 1) mod int n"
    using Cons.prems(2) by (metis mod_add_left_eq)
  show ?case
  proof (cases "length cur + 1 = n")
    case True
    have ref: "windows_ref key n (cur @ r # rs) =
        counts_record (counts_of key (cur @ [r])) # windows_ref key n rs"
      using True by (subst windows_ref.simps) auto
    have "(seen + 1) mod int n = 0" using True by (simp add: md) (metis mod_self of_nat_Suc add.commute)
    then show ?thesis
      using assms Cons.IH [of "[]" "seen + 1"] by (simp add: ref counts_of_snoc [symmetric]) (simp add: counts_of_def)
  next
    case False
    with Cons.prems have "(seen + 1) mod int n = int (length (cur @ [r]))" "length (cur @ [r]) < n" by (simp_all add: md)
    then show ?thesis
      using Cons.IH [of "cur @ [r]" "seen + 1"] by (simp add: counts_of_snoc)
  qed
qed

text \<open>C24. The window operator against its reference: with a positive window size it sends the counts of each run of
  that many records, in order, and the counts of the incomplete last run if there are any.  With a size of zero or less
  it sends the counts of the whole input once.
\<close>

theorem window_aggregate_is_chunked:
  "WindowAggregateOperator key wsize rs = windows_ref key (nat wsize) rs"
proof (cases "wsize > 0")
  case True
  then show ?thesis
    using window_loop_ref [of "nat wsize" "[]" 0 key rs] by (simp add: WindowAggregateOperator_def counts_of_def)
next
  case False
  have "window_loop key wsize (counts_of key cur) seen rs = (let c = counts_of key (cur @ rs) in if c = fmempty then [] else [counts_record c])"
    for cur seen
    using False by (induction rs arbitrary: cur seen) (simp_all add: Let_def counts_of_snoc [symmetric])
  from this [of "[]" 0] False show ?thesis
    by (simp add: WindowAggregateOperator_def windows_ref.simps [of key 0] counts_of_def Let_def)
qed

section \<open>Time windows\<close>

lemma agg_record_ne: "ag_sums (agg_record key aggs st r) \<noteq> fmempty"
  by (auto simp: agg_record_def Let_def case_prod_beta fmempty_iff)

lemma foldl_agg_ne: "rs \<noteq> [] \<Longrightarrow> ag_sums (foldl (agg_record key aggs) st rs) \<noteq> fmempty"
  by (cases rs rule: rev_cases) (simp_all add: agg_record_ne)

text \<open>The records between ticks.\<close>

fun segments :: "Rec list \<Rightarrow> tw_event list \<Rightarrow> Rec list list" where
  "segments cur [] = [cur]"
| "segments cur (TW_Record r # evs) = segments (cur @ [r]) evs"
| "segments cur (TW_Tick # evs) = cur # segments [] evs"

lemma tw_flush_segment:
  "tw_flush aggs (foldl (agg_record key aggs) agg_empty cur) =
     (if cur = [] then [] else AggregateFuncsOperator key aggs cur, agg_empty)"
  using foldl_agg_ne [of cur key aggs agg_empty]
  by (cases "cur = []") (auto simp: tw_flush_def AggregateFuncsOperator_def agg_empty_def)

lemma tw_loop_segments:
  "tw_loop key aggs (foldl (agg_record key aggs) agg_empty cur) evs =
     concat (map (AggregateFuncsOperator key aggs) (filter (\<lambda>s. s \<noteq> []) (segments cur evs)))"
proof (induction cur evs rule: segments.induct)
  case (2 cur r evs)
  then show ?case by simp
next
  case (3 cur evs)
  then show ?case by (simp add: tw_flush_segment)
qed (simp add: tw_flush_segment)

text \<open>The time-window operator is the plain aggregation run on each stretch of records between ticks, the last one
  ended by the end of the input; stretches without records send nothing.  A window of no positive length panics
  when its ticker is made.
\<close>

theorem time_window_is_segmented:
  "TimeWindowAggregateOperator key aggs duration evs =
     (if wrap64 (duration * 1000000) \<le> 0 then Inl (ErrPanic ''non-positive interval for NewTicker'')
      else Inr (concat (map (AggregateFuncsOperator key aggs) (filter (\<lambda>s. s \<noteq> []) (segments [] evs)))))"
  using tw_loop_segments [of key aggs "[]" evs] by (simp add: TimeWindowAggregateOperator_def)

section \<open>Sums, averages and counts by group\<close>

lemma group_result_lookup:
  "fmlookup (group_result aggs s c) a =
     (case fmlookup s a of Some x \<Rightarrow> Some (sum_result aggs c a x) | None \<Rightarrow> map_option Agg_Int (fmlookup c a))"
  by (auto simp: group_result_def fmlookup_of_list map_add_def map_of_map_restrict restrict_map_def map_get_def
      fmlookup_dom'_iff fset_of_list_elem split: option.splits)

lemma agg_groups_lookup:
  "fmlookup (agg_groups aggs st) g =
     (if fmlookup (ag_sums st) g = None then None
      else Some (group_result aggs (map_get fmempty (ag_sums st) g) (map_get fmempty (ag_counts st) g)))"
  by (auto simp: agg_groups_def fmlookup_of_list map_of_map_restrict restrict_map_def fmlookup_dom'_iff fset_of_list_elem)

text \<open>The maps of one group after the records of that group.\<close>

definition group_fold :: "AggSpec list \<Rightarrow> Rec list \<Rightarrow> (string, float64) fmap \<times> (string, int) fmap" where
  "group_fold aggs rs = foldl (\<lambda>st r. foldl (apply_spec r) st aggs) (fmempty, fmempty) rs"

lemma agg_state_group:
  fixes key g
  defines "sel \<equiv> filter (\<lambda>r. join_key key r = g)"
  shows "fmlookup (ag_sums (foldl (agg_record key aggs) agg_empty rs)) g =
      (if sel rs = [] then None else Some (fst (group_fold aggs (sel rs)))) \<and>
    fmlookup (ag_counts (foldl (agg_record key aggs) agg_empty rs)) g =
      (if sel rs = [] then None else Some (snd (group_fold aggs (sel rs))))"
proof (induction rs rule: rev_induct)
  case Nil
  then show ?case by (simp add: sel_def agg_empty_def)
next
  case (snoc r rs)
  let ?st = "foldl (agg_record key aggs) agg_empty rs"
  show ?case
  proof (cases "join_key key r = g")
    case True
    obtain s' c' where sc: "group_fold aggs (sel (rs @ [r])) = (s', c')" by force
    have "foldl (apply_spec r) (group_fold aggs (sel rs)) aggs = (s', c')"
      using sc True by (simp add: group_fold_def sel_def)
    then have "foldl (apply_spec r) (if fmlookup (ag_sums ?st) g = None then (fmempty, fmempty)
        else (map_get fmempty (ag_sums ?st) g, map_get fmempty (ag_counts ?st) g)) aggs = (s', c')"
      using snoc by (cases "sel rs = []") (simp_all add: map_get_def group_fold_def)
    then have "agg_record key aggs ?st r = \<lparr> ag_sums = fmupd g s' (ag_sums ?st), ag_counts = fmupd g c' (ag_counts ?st) \<rparr>"
      using True by (simp add: agg_record_def Let_def case_prod_beta)
    moreover have "sel (rs @ [r]) \<noteq> []" using True by (simp add: sel_def)
    ultimately show ?thesis by (simp add: sc)
  next
    case False
    then show ?thesis
      using snoc by (simp add: sel_def agg_record_def Let_def case_prod_beta)
  qed
qed

text \<open>With distinct aliases an alias is changed by its own specification only.\<close>

lemma apply_spec_other:
  "a \<noteq> spec_alias sp \<Longrightarrow>
     fmlookup (fst (apply_spec r st sp)) a = fmlookup (fst st) a \<and> fmlookup (snd (apply_spec r st sp)) a = fmlookup (snd st) a"
  by (auto simp: apply_spec_def Let_def case_prod_beta bump_def add_num_def split: option.splits gval.splits)

lemma apply_specs_other:
  "a \<notin> spec_alias ` set aggs \<Longrightarrow>
     fmlookup (fst (foldl (apply_spec r) st aggs)) a = fmlookup (fst st) a \<and>
     fmlookup (snd (foldl (apply_spec r) st aggs)) a = fmlookup (snd st) a"
  by (induction aggs arbitrary: st) (simp_all add: apply_spec_other)

lemma apply_spec_cong:
  assumes "fmlookup (fst st) (spec_alias sp) = fmlookup (fst st') (spec_alias sp)"
    "fmlookup (snd st) (spec_alias sp) = fmlookup (snd st') (spec_alias sp)"
  shows "fmlookup (fst (apply_spec r st sp)) (spec_alias sp) = fmlookup (fst (apply_spec r st' sp)) (spec_alias sp) \<and>
    fmlookup (snd (apply_spec r st sp)) (spec_alias sp) = fmlookup (snd (apply_spec r st' sp)) (spec_alias sp)"
  using assms
  by (auto simp: apply_spec_def Let_def case_prod_beta bump_def add_num_def map_get_def split: option.splits gval.splits)

lemma apply_specs_own:
  assumes "distinct (map spec_alias aggs)" "sp \<in> set aggs"
  shows "fmlookup (fst (foldl (apply_spec r) st aggs)) (spec_alias sp) = fmlookup (fst (apply_spec r st sp)) (spec_alias sp) \<and>
    fmlookup (snd (foldl (apply_spec r) st aggs)) (spec_alias sp) = fmlookup (snd (apply_spec r st sp)) (spec_alias sp)"
proof -
  obtain xs ys where aggs: "aggs = xs @ sp # ys" using assms(2) by (meson split_list)
  then have out: "spec_alias sp \<notin> spec_alias ` set xs" "spec_alias sp \<notin> spec_alias ` set ys" using assms(1) by auto
  let ?st = "foldl (apply_spec r) st xs"
  have "foldl (apply_spec r) st aggs = foldl (apply_spec r) (apply_spec r ?st sp) ys" by (simp add: aggs)
  with apply_specs_other [OF out(2), of r "apply_spec r ?st sp"] apply_specs_other [OF out(1), of r st]
    apply_spec_cong [of ?st sp st r]
  show ?thesis by simp
qed

text \<open>The integers a field contributes, and the exactness of their floating-point sum.\<close>

definition field_ints :: "string \<Rightarrow> Rec list \<Rightarrow> int list" where
  "field_ints f rs = concat (map (\<lambda>r. case fmlookup r f of Some (VInt n) \<Rightarrow> [n] | _ \<Rightarrow> []) rs)"

definition no_floats :: "string \<Rightarrow> Rec list \<Rightarrow> bool" where
  "no_floats f rs \<longleftrightarrow> list_all (\<lambda>r. case fmlookup r f of Some (VFloat _) \<Rightarrow> False | _ \<Rightarrow> True) rs"

lemma group_fold_step:
  assumes "distinct (map spec_alias aggs)" "sp \<in> set aggs"
  shows "fmlookup (fst (group_fold aggs (rs @ [r]))) (spec_alias sp) = fmlookup (fst (apply_spec r (group_fold aggs rs) sp)) (spec_alias sp)"
    "fmlookup (snd (group_fold aggs (rs @ [r]))) (spec_alias sp) = fmlookup (snd (apply_spec r (group_fold aggs rs) sp)) (spec_alias sp)"
  using apply_specs_own [OF assms, of r "group_fold aggs rs"] by (simp_all add: group_fold_def)

lemma group_fold_count:
  assumes "distinct (map spec_alias aggs)" "sp \<in> set aggs" "as_Func sp = ''count''"
  shows "fmlookup (fst (group_fold aggs rs)) (spec_alias sp) = None \<and>
    fmlookup (snd (group_fold aggs rs)) (spec_alias sp) = (if rs = [] then None else Some (int (length rs)))"
proof (induction rs rule: rev_induct)
  case (snoc r rs)
  then show ?case
    using assms(3) by (auto simp: group_fold_step [OF assms(1,2)] apply_spec_def case_prod_beta bump_def map_get_def Let_def)
qed (simp add: group_fold_def)

lemma group_fold_sum:
  assumes "distinct (map spec_alias aggs)" "sp \<in> set aggs" "as_Func sp = ''sum'' \<or> as_Func sp = ''avg''"
  shows "no_floats (as_Field sp) rs \<Longrightarrow>
    fmlookup (fst (group_fold aggs rs)) (spec_alias sp) =
      (if field_ints (as_Field sp) rs = [] then None
       else Some (foldl f_add (f_zero False) (map f_of_int (field_ints (as_Field sp) rs)))) \<and>
    fmlookup (snd (group_fold aggs rs)) (spec_alias sp) =
      (if field_ints (as_Field sp) rs = [] then None else Some (int (length (field_ints (as_Field sp) rs))))"
proof (induction rs rule: rev_induct)
  case (snoc r rs)
  let ?f = "as_Field sp" and ?a = "spec_alias sp" and ?s = "group_fold aggs rs"
  have notc: "as_Func sp \<noteq> ''count''" using assms(3) by auto
  have nf: "no_floats ?f rs" "\<And>x. fmlookup r ?f \<noteq> Some (VFloat x)" using snoc.prems by (auto simp: no_floats_def)
  note IH = snoc.IH [OF nf(1)]
  show ?case
  proof (cases "\<exists>n. fmlookup r ?f = Some (VInt n)")
    case True
    then obtain n where n: "fmlookup r ?f = Some (VInt n)" by blast
    have "apply_spec r ?s sp = (add_num ?a (f_of_int n) (fst ?s), bump ?a (snd ?s))"
      using notc assms(3) by (auto simp: apply_spec_def case_prod_beta n Let_def)
    moreover have "field_ints ?f (rs @ [r]) = field_ints ?f rs @ [n]" by (simp add: field_ints_def n)
    ultimately show ?thesis
      using IH unfolding group_fold_step [OF assms(1,2)] by (cases "field_ints ?f rs = []") (simp_all add: add_num_def bump_def map_get_def)
  next
    case False
    have "apply_spec r ?s sp = ?s"
      using notc False nf(2) by (auto simp: apply_spec_def case_prod_beta Let_def split: option.splits gval.splits)
    moreover have "field_ints ?f (rs @ [r]) = field_ints ?f rs"
      using False by (auto simp: field_ints_def split: option.splits gval.splits)
    ultimately show ?thesis using IH unfolding group_fold_step [OF assms(1,2)] by simp
  qed
qed (simp add: group_fold_def field_ints_def)

lemma sum_exact:
  "(\<Sum>n\<leftarrow>ns. \<bar>n\<bar>) + \<bar>a\<bar> < 2 ^ 53 \<Longrightarrow> foldl f_add (f_of_int a) (map f_of_int ns) = f_of_int (a + sum_list ns)"
proof (induction ns arbitrary: a)
  case (Cons n ns)
  have nn: "0 \<le> (\<Sum>n\<leftarrow>ns. \<bar>n\<bar>)" by (rule sum_list_nonneg) auto
  with Cons.prems have "\<bar>a\<bar> < 2 ^ 53" "\<bar>n\<bar> < 2 ^ 53" "(\<Sum>n\<leftarrow>ns. \<bar>n\<bar>) + \<bar>a + n\<bar> < 2 ^ 53" by auto
  then show ?case using Cons.IH [of "a + n"] f_add_of_int [of a n] by (simp add: add.assoc)
qed simp

text \<open>C25. What the grouped aggregation reports for an aggregation with an alias of its own, in a group that occurs: a count
  is the number of the group's records; a sum of integer fields is the exact integer sum as long as the absolute
  values add up to less than \<open>2 ^ 53\<close>, and an average is the correctly rounded quotient of that sum and the number of
  values; a sum or average without any numeric value is absent.
\<close>

theorem aggregate_funcs_exact:
  assumes "distinct (map spec_alias aggs)" "sp \<in> set aggs"
    and "as_Func sp \<in> {''count'', ''sum'', ''avg''}"
    and "sel = filter (\<lambda>r. join_key key r = g) rs" "sel \<noteq> []" "no_floats (as_Field sp) sel"
    and "ns = field_ints (as_Field sp) sel" "(\<Sum>n\<leftarrow>ns. \<bar>n\<bar>) < 2 ^ 53"
  shows "\<exists>groups res. AggregateFuncsOperator key aggs rs = [fmupd ''groups'' (VGroups groups) fmempty] \<and>
    fmlookup groups g = Some res \<and>
    fmlookup res (spec_alias sp) =
      (if as_Func sp = ''count'' then Some (Agg_Int (int (length sel)))
       else if ns = [] then None
       else if as_Func sp = ''sum'' then Some (Agg_Float (f_of_int (sum_list ns)))
       else Some (Agg_Float (f_div (f_of_int (sum_list ns)) (f_of_int (int (length ns))))))"
proof -
  let ?st = "foldl (agg_record key aggs) agg_empty rs"
  have grp: "fmlookup (ag_sums ?st) g = Some (fst (group_fold aggs sel))" "fmlookup (ag_counts ?st) g = Some (snd (group_fold aggs sel))"
    using agg_state_group [of key aggs rs g] assms(4,5) by simp_all
  define res where "res = group_result aggs (fst (group_fold aggs sel)) (snd (group_fold aggs sel))"
  have look: "fmlookup (agg_groups aggs ?st) g = Some res"
    by (simp add: agg_groups_lookup grp map_get_def res_def)
  have exact: "foldl f_add (f_zero False) (map f_of_int ns) = f_of_int (sum_list ns)"
    using sum_exact [of ns 0] assms(8) by (simp add: f_of_int_zero)
  have avg: "is_avg aggs (spec_alias sp) \<longleftrightarrow> as_Func sp = ''avg''"
    using assms(1,2) by (auto simp: is_avg_def list_ex_iff distinct_map dest: inj_onD)
  have "fmlookup res (spec_alias sp) =
      (if as_Func sp = ''count'' then Some (Agg_Int (int (length sel)))
       else if ns = [] then None
       else if as_Func sp = ''sum'' then Some (Agg_Float (f_of_int (sum_list ns)))
       else Some (Agg_Float (f_div (f_of_int (sum_list ns)) (f_of_int (int (length ns))))))"
    using assms(3,5) group_fold_count [OF assms(1,2), of sel] group_fold_sum [OF assms(1,2) _ assms(6)]
    by (auto simp: res_def group_result_lookup sum_result_def map_get_def avg exact simp flip: assms(7))
  with look show ?thesis by (auto simp: AggregateFuncsOperator_def)
qed

definition sample_rec :: "string \<Rightarrow> gval \<Rightarrow> Rec" where
  "sample_rec u v = fmupd ''user'' (VStr u) (fmupd ''amount'' v fmempty)"

theorem aggregate_funcs_exact_witness:
  "\<exists>groups res. AggregateFuncsOperator ''user'' [\<lparr> as_Func = ''sum'', as_Field = ''amount'', as_Alias = [] \<rparr>]
      [sample_rec ''a'' (VInt 3), sample_rec ''b'' (VInt 9), sample_rec ''a'' (VInt 4)] =
      [fmupd ''groups'' (VGroups groups) fmempty] \<and>
    fmlookup groups ''a'' = Some res \<and> fmlookup res ''sum_amount'' = Some (Agg_Float (f_of_int 7))"
proof -
  let ?sp = "\<lparr> as_Func = ''sum'', as_Field = ''amount'', as_Alias = [] \<rparr>"
  let ?rs = "[sample_rec ''a'' (VInt 3), sample_rec ''b'' (VInt 9), sample_rec ''a'' (VInt 4)]"
  have sel: "[sample_rec ''a'' (VInt 3), sample_rec ''a'' (VInt 4)] = filter (\<lambda>r. join_key ''user'' r = ''a'') ?rs"
    by (simp add: join_key_def sample_rec_def key_text_def)
  have ns: "[3, 4] = field_ints (as_Field ?sp) [sample_rec ''a'' (VInt 3), sample_rec ''a'' (VInt 4)]"
    by (simp add: field_ints_def sample_rec_def)
  have "no_floats (as_Field ?sp) [sample_rec ''a'' (VInt 3), sample_rec ''a'' (VInt 4)]"
    by (simp add: no_floats_def sample_rec_def)
  from aggregate_funcs_exact [of "[?sp]" ?sp, OF _ _ _ sel _ this ns] show ?thesis
    by (simp add: spec_alias_def)
qed

section \<open>Joining and composing\<close>

lemma MapOperator_eq: "MapOperator Fn rs = map the (filter (\<lambda>x. x \<noteq> None) (map Fn rs))"
  by (induction rs) (auto split: option.splits)

lemma FilterOperator_eq: "FilterOperator Pred rs = filter Pred rs"
  by (induction rs) auto

text \<open>The table join keeps the records with a match, in order; a field of the right record replaces one of the left.\<close>

lemma Join_Process_eq:
  "Join_Process j ls =
     concat (map (\<lambda>l. case fmlookup (jo_RightMap j) (join_key (jo_LeftKey j) l) of None \<Rightarrow> [] | Some r \<Rightarrow> [l ++\<^sub>f r]) ls)"
  by (induction ls) (auto split: option.splits)

lemma Runtime_Run_append: "Runtime_Run (ops1 @ ops2) rs = Runtime_Run ops2 (Runtime_Run ops1 rs)"
  by (simp add: Runtime_Run_def)

text \<open>
  Operators that treat each record by itself: their output on a longer input extends the output on a shorter one,
  and a chain of them is one again.
\<close>

definition stateless :: "operator \<Rightarrow> bool" where
  "stateless p \<longleftrightarrow> (\<forall>xs ys. p (xs @ ys) = p xs @ p ys)"

lemma stateless_ops: "stateless (MapOperator Fn)" "stateless (FilterOperator Pred)" "stateless (Join_Process j)"
  by (simp_all add: stateless_def MapOperator_eq FilterOperator_eq Join_Process_eq)

lemma stateless_Runtime: "list_all stateless ops \<Longrightarrow> stateless (Runtime_Run ops)"
proof (induction ops)
  case (Cons p ops)
  have "Runtime_Run (p # ops) rs = Runtime_Run ops (p rs)" for rs by (simp add: Runtime_Run_def)
  with Cons show ?case by (simp add: stateless_def)
qed (simp add: stateless_def Runtime_Run_def)

lemma stateless_concat:
  assumes "stateless p"
  shows "p rs = concat (map (\<lambda>r. p [r]) rs)"
proof (induction rs)
  case Nil
  have "p ([] @ []) = p [] @ p []" using assms unfolding stateless_def by blast
  then show ?case by simp
next
  case (Cons r rs)
  have "p ([r] @ rs) = p [r] @ p rs" using assms unfolding stateless_def by blast
  with Cons show ?case by simp
qed

section \<open>The state store contract\<close>

locale state_store =
  fixes put :: "bytes \<Rightarrow> bytes \<Rightarrow> 's \<Rightarrow> 's"
    and get :: "bytes \<Rightarrow> 's \<Rightarrow> bytes option"
    and fresh :: 's
  assumes get_put: "get k' (put k v s) = (if k' = k then nil_copy v else get k' s)"
    and get_fresh: "get k fresh = None"
begin

definition puts :: "(bytes \<times> bytes) list \<Rightarrow> 's" where
  "puts kvs = foldl (\<lambda>s (k, v). put k v s) fresh kvs"

text \<open>The last value put under a key is the one got.\<close>

lemma get_puts: "get k (puts kvs) = (case map_of (rev kvs) k of None \<Rightarrow> None | Some v \<Rightarrow> nil_copy v)"
  unfolding puts_def
proof (induction kvs rule: rev_induct)
  case (snoc x xs)
  obtain k' v where x: "x = (k', v)" by force
  from snoc show ?case by (auto simp: x get_put)
qed (simp add: get_fresh)

end

interpretation mem_store: state_store mem_Put mem_Get fmempty
  by unfold_locales (simp_all add: mem_Put_def mem_Get_def)

interpretation rdb_store: state_store rdb_Put rdb_Get "\<lparr> rdb_dir = d, rdb_kv = fmempty \<rparr>" for d
  by unfold_locales (simp_all add: rdb_Put_def rdb_Get_def nil_copy_def)

text \<open>The two state stores are interchangeable: after the same puts, in any order and with any repetitions, a get
  returns the last value put under the key in both, nil for an absent key and, in both, nil for an empty value.
\<close>

theorem state_stores_agree:
  assumes "NewRocksDBStateStore e dir = Inr s0"
  shows "rdb_Get k (foldl (\<lambda>s (k, v). rdb_Put k v s) s0 kvs) = mem_Get k (foldl (\<lambda>s (k, v). mem_Put k v s) fmempty kvs) \<and>
    mem_Get k (foldl (\<lambda>s (k, v). mem_Put k v s) fmempty kvs) =
      (case map_of (rev kvs) k of None \<Rightarrow> None | Some v \<Rightarrow> if v = [] then None else Some v)"
proof -
  have "s0 = \<lparr> rdb_dir = dir, rdb_kv = fmempty \<rparr>"
    using assms by (simp add: NewRocksDBStateStore_def split: if_splits)
  then show ?thesis
    using rdb_store.get_puts [of k dir kvs] mem_store.get_puts [of k kvs]
    by (simp add: rdb_store.puts_def mem_store.puts_def nil_copy_def split: option.split)
qed

theorem state_stores_agree_witness:
  "rdb_Get ''k'' (foldl (\<lambda>s (k, v). rdb_Put k v s) \<lparr> rdb_dir = ''db'', rdb_kv = fmempty \<rparr> [(''k'', ''1''), (''k'', ''2'')]) = Some ''2''"
proof -
  have "NewRocksDBStateStore calm_env ''db'' = Inr \<lparr> rdb_dir = ''db'', rdb_kv = fmempty \<rparr>"
    by (simp add: NewRocksDBStateStore_def)
  from state_stores_agree [OF this, of "''k''" "[(''k'', ''1''), (''k'', ''2'')]"] show ?thesis by simp
qed

end
