(* ===== verification/Sdk_Client.thy ===== *)
theory Sdk_Client
  imports Management_Api Processor_Ops
begin

text \<open>
  The client library: the HTTP client of \<^verbatim>\<open>sdk/client.go\<close> for the management server, and the embedded producer and
  consumer of \<^verbatim>\<open>sdk/sdk.go\<close>.  The network is an argument: \<open>send base r\<close> sends a request to a path below the base
  URL and returns the status and the body of the answer, or the error of the transport (a base URL that does not
  parse included).
\<close>

section \<open>The embedded producer and consumer\<close>

record Producer =
  pr_broker :: Broker

record Consumer =
  co_broker :: Broker

definition NewProducer :: "env \<Rightarrow> string \<Rightarrow> go_error + Producer" where
  "NewProducer e d = (case NewBroker e d of Inl err \<Rightarrow> Inl err | Inr b \<Rightarrow> Inr \<lparr> pr_broker = b \<rparr>)"

definition Producer_CreateTopic :: "env \<Rightarrow> string \<Rightarrow> fs \<Rightarrow> Producer \<Rightarrow> go_error option \<times> fs \<times> Producer" where
  "Producer_CreateTopic e name fs p =
     (case CreateTopic e name fs (pr_broker p) of
        (res, fs1, b1) \<Rightarrow> (case res of Inl err \<Rightarrow> Some err | Inr _ \<Rightarrow> None, fs1, p\<lparr>pr_broker := b1\<rparr>))"

definition Producer_Send :: "env \<Rightarrow> string \<Rightarrow> bytes option \<Rightarrow> bytes option \<Rightarrow> (string, string) fmap \<Rightarrow> fs \<Rightarrow> Producer \<Rightarrow>
    (go_error + Record) \<times> fs \<times> Producer" where
  "Producer_Send e topic key val headers fs p =
     (case Produce e topic key val headers fs (pr_broker p) of (res, fs1, b1) \<Rightarrow> (res, fs1, p\<lparr>pr_broker := b1\<rparr>))"

definition NewConsumer :: "env \<Rightarrow> string \<Rightarrow> go_error + Consumer" where
  "NewConsumer e d = (case NewBroker e d of Inl err \<Rightarrow> Inl err | Inr b \<Rightarrow> Inr \<lparr> co_broker = b \<rparr>)"

definition Poll :: "env \<Rightarrow> string \<Rightarrow> int \<Rightarrow> int \<Rightarrow> fs \<Rightarrow> Consumer \<Rightarrow> go_error + Record list" where
  "Poll e topic off mx fs c = Consume e topic off mx fs (co_broker c)"

definition Commit :: "env \<Rightarrow> string \<Rightarrow> string \<Rightarrow> int \<Rightarrow> fs \<Rightarrow> Consumer \<Rightarrow> go_error option \<times> fs" where
  "Commit e topic grp off fs c = CommitOffset e topic grp off fs (co_broker c)"

section \<open>The HTTP client\<close>

type_synonym 's network = "string \<Rightarrow> request \<Rightarrow> 's \<Rightarrow> (go_error + nat \<times> bytes) \<times> 's"

record Client =
  baseURL :: string
  client_key :: string

definition NewClient :: "string \<Rightarrow> Client" where
  "NewClient brokerAddr =
     (let base = TrimRight ''/'' brokerAddr
      in \<lparr> baseURL = (if \<not> HasPrefix base ''http://'' \<and> \<not> HasPrefix base ''https://'' then ''http://'' @ base else base),
           client_key = [] \<rparr>)"

definition WithAPIKey :: "string \<Rightarrow> Client \<Rightarrow> Client" where
  "WithAPIKey key c = c\<lparr>client_key := key\<rparr>"

definition key_header :: "Client \<Rightarrow> (string \<times> string) list" where
  "key_header c = (if client_key c \<noteq> [] then [(''X-Api-Key'', client_key c)] else [])"

text \<open>
  Decoding a value into \<^verbatim>\<open>interface{}\<close> and an object into \<^verbatim>\<open>map[string]interface{}\<close>; a later member with the same
  name replaces an earlier one.
\<close>

fun dec_any :: "json \<Rightarrow> gval option"
  and dec_any_list :: "json list \<Rightarrow> gval list option"
  and dec_any_members :: "(string \<times> json) list \<Rightarrow> (string \<times> gval) list option" where
  "dec_any JNull = Some VNil"
| "dec_any (JBool b) = Some (VBool b)"
| "dec_any (JNum s) = map_option VFloat (ParseFloat s)"
| "dec_any (JStr raw) = map_option VStr (json_unquote raw)"
| "dec_any (JArr vs) = map_option VList (dec_any_list vs)"
| "dec_any (JObj ms) = map_option (\<lambda>kvs. VMap (AList.clearjunk (rev kvs))) (dec_any_members ms)"
| "dec_any_list [] = Some []"
| "dec_any_list (v # vs) =
     (case (dec_any v, dec_any_list vs) of (Some x, Some xs) \<Rightarrow> Some (x # xs) | _ \<Rightarrow> None)"
| "dec_any_members [] = Some []"
| "dec_any_members ((k, v) # ms) =
     (case (json_unquote k, dec_any v, dec_any_members ms) of
        (Some key, Some x, Some xs) \<Rightarrow> Some ((key, x) # xs)
      | _ \<Rightarrow> None)"

definition Decode_map :: "bytes \<Rightarrow> Rec option" where
  "Decode_map s =
     (case json_decode s of
        None \<Rightarrow> if skip_ws s = [] then Some fmempty else None
      | Some (JNull, _) \<Rightarrow> Some fmempty
      | Some (JObj ms, _) \<Rightarrow> map_option (\<lambda>kvs. fmap_of_list (rev kvs)) (dec_any_members ms)
      | _ \<Rightarrow> None)"

definition postJSON :: "'s network \<Rightarrow> Client \<Rightarrow> string \<Rightarrow> json \<Rightarrow> 's \<Rightarrow> (go_error + Rec) \<times> 's" where
  "postJSON send c path body st =
     (let req = \<lparr> rq_Method = ''POST'', rq_EscapedPath = path, rq_Query = [],
                  rq_Header = (''Content-Type'', ''application/json'') # key_header c, rq_Body = json_text body \<rparr>
      in case send (baseURL c) req st of
           (Inl err, st1) \<Rightarrow> (Inl err, st1)
         | (Inr (status, raw), st1) \<Rightarrow>
             if status \<ge> 300
             then (Inl (ErrFmt ''request failed: status=%d body=%s'' [fmt_d (int status), TrimSpace raw]), st1)
             else (case Decode_map raw of None \<Rightarrow> Inl ErrJson | Some out \<Rightarrow> Inr out, st1))"

definition produce_payload :: "string \<Rightarrow> bytes \<Rightarrow> bytes \<Rightarrow> json" where
  "produce_payload topic key val =
     json_map [(''topic'', json_str topic), (''key'', json_str key), (''value'', json_str val)]"

definition discard :: "(go_error + Rec) \<times> 's \<Rightarrow> go_error option \<times> 's" where
  "discard res = (case fst res of Inl err \<Rightarrow> Some err | Inr _ \<Rightarrow> None, snd res)"

definition client_Produce :: "'s network \<Rightarrow> Client \<Rightarrow> string \<Rightarrow> bytes \<Rightarrow> bytes \<Rightarrow> 's \<Rightarrow> go_error option \<times> 's" where
  "client_Produce send c topic key val st = discard (postJSON send c ''/produce'' (produce_payload topic key val) st)"

definition idempotent_payload :: "string \<Rightarrow> bytes \<Rightarrow> bytes \<Rightarrow> string \<Rightarrow> int \<Rightarrow> json" where
  "idempotent_payload topic key val producerID sequence =
     json_map [(''topic'', json_str topic), (''key'', json_str key), (''value'', json_str val),
       (''producer_id'', json_str producerID), (''sequence'', json_int sequence)]"

definition client_ProduceIdempotent ::
    "'s network \<Rightarrow> Client \<Rightarrow> string \<Rightarrow> bytes \<Rightarrow> bytes \<Rightarrow> string \<Rightarrow> int \<Rightarrow> 's \<Rightarrow> go_error option \<times> 's" where
  "client_ProduceIdempotent send c topic key val producerID sequence st =
     discard (postJSON send c ''/produce/idempotent'' (idempotent_payload topic key val producerID sequence) st)"

definition begin_payload :: "string \<Rightarrow> int \<Rightarrow> json" where
  "begin_payload producerID epoch = json_map [(''producer_id'', json_str producerID), (''epoch'', json_int epoch)]"

definition client_BeginTransaction :: "'s network \<Rightarrow> Client \<Rightarrow> string \<Rightarrow> int \<Rightarrow> 's \<Rightarrow> (go_error + string) \<times> 's" where
  "client_BeginTransaction send c producerID epoch st =
     (case postJSON send c ''/tx/begin'' (begin_payload producerID epoch) st of
        (Inl err, st1) \<Rightarrow> (Inl err, st1)
      | (Inr resp, st1) \<Rightarrow> (Inr (fmt_v (map_get VNil resp ''tx_id'')), st1))"

definition tx_payload :: "string \<Rightarrow> string \<Rightarrow> bytes \<Rightarrow> bytes \<Rightarrow> json" where
  "tx_payload txID topic key val =
     json_map [(''tx_id'', json_str txID), (''topic'', json_str topic), (''key'', json_str key), (''value'', json_str val)]"

definition client_TxProduce :: "'s network \<Rightarrow> Client \<Rightarrow> string \<Rightarrow> string \<Rightarrow> bytes \<Rightarrow> bytes \<Rightarrow> 's \<Rightarrow> go_error option \<times> 's" where
  "client_TxProduce send c txID topic key val st = discard (postJSON send c ''/tx/produce'' (tx_payload txID topic key val) st)"

definition id_payload :: "string \<Rightarrow> json" where
  "id_payload txID = json_map [(''tx_id'', json_str txID)]"

definition client_CommitTransaction :: "'s network \<Rightarrow> Client \<Rightarrow> string \<Rightarrow> 's \<Rightarrow> go_error option \<times> 's" where
  "client_CommitTransaction send c txID st = discard (postJSON send c ''/tx/commit'' (id_payload txID) st)"

definition client_AbortTransaction :: "'s network \<Rightarrow> Client \<Rightarrow> string \<Rightarrow> 's \<Rightarrow> go_error option \<times> 's" where
  "client_AbortTransaction send c txID st = discard (postJSON send c ''/tx/abort'' (id_payload txID) st)"

text \<open>A consumed record has one field, the text of the JSON member \<^verbatim>\<open>value\<close>.\<close>

fun dec_consumed :: "json list \<Rightarrow> string list option" where
  "dec_consumed [] = Some []"
| "dec_consumed (v # vs) =
     (case (case v of JNull \<Rightarrow> Some payload_zero | JObj ms \<Rightarrow> dec_fields [''value''] ms payload_zero | _ \<Rightarrow> None, dec_consumed vs) of
        (Some p, Some xs) \<Rightarrow> Some (p_value p # xs)
      | _ \<Rightarrow> None)"

definition getRecords :: "'s network \<Rightarrow> Client \<Rightarrow> string \<Rightarrow> 's \<Rightarrow> (go_error + string list) \<times> 's" where
  "getRecords send c topic st =
     (let req = \<lparr> rq_Method = ''GET'', rq_EscapedPath = ''/consume'',
                  rq_Query = [(''max'', ''100''), (''offset'', ''0''), (''topic'', topic)], rq_Header = key_header c, rq_Body = [] \<rparr>
      in case send (baseURL c) req st of
           (Inl err, st1) \<Rightarrow> (Inl err, st1)
         | (Inr (status, raw), st1) \<Rightarrow>
             if status \<ge> 300 then (Inl (ErrFmt ''consume failed: %s'' [TrimSpace raw]), st1)
             else (case json_decode raw of
                     Some (JNull, _) \<Rightarrow> Inr []
                   | Some (JArr vs, _) \<Rightarrow> (case dec_consumed vs of None \<Rightarrow> Inl ErrJson | Some xs \<Rightarrow> Inr xs)
                   | _ \<Rightarrow> Inl ErrJson, st1))"

text \<open>The channel of \<^verbatim>\<open>Consume\<close>: at most \<open>taken\<close> records are received before the context is done.\<close>

definition client_Consume :: "'s network \<Rightarrow> Client \<Rightarrow> string \<Rightarrow> nat \<Rightarrow> 's \<Rightarrow> bytes list \<times> 's" where
  "client_Consume send c topic taken st =
     (case getRecords send c topic st of
        (Inl _, st1) \<Rightarrow> ([], st1)
      | (Inr recs, st1) \<Rightarrow> (take taken recs, st1))"

section \<open>The embedded consumer\<close>

text \<open>
  A consumer opened by the library never returns a record: its broker starts without topics, and the consumer
  has no operation that opens one, so every poll reports the topic as missing, whatever the files hold.
\<close>

theorem sdk_consumer_finds_no_topic:
  "NewConsumer e d = Inr c \<Longrightarrow> Poll e' topic off mx fs c = Inl (topic_not_found topic)"
  by (auto simp: NewConsumer_def NewBroker_def Poll_def Consume_def split: if_splits)

theorem sdk_consumer_finds_no_topic_witness:
  "\<exists>c. NewConsumer calm_env ''data'' = Inr c \<and> Poll calm_env ''t'' 0 10 (fst sample_produced) c = Inl (topic_not_found ''t'')"
proof -
  obtain c where c: "NewConsumer calm_env ''data'' = Inr c" by (simp add: NewConsumer_def NewBroker_def)
  with sdk_consumer_finds_no_topic [OF c] show ?thesis by blast
qed

section \<open>The server decodes what the client sends\<close>

lemma raw_ok_names [simp]:
  "raw_ok ''topic''" "raw_ok ''producer_id''" "raw_ok ''sequence''" "raw_ok ''epoch''" "raw_ok ''tx_id''"
  by (rule raw_ok_plain, simp)+

lemma unquote_names [simp]:
  "json_unquote ''topic'' = Some ''topic''" "json_unquote ''producer_id'' = Some ''producer_id''"
  "json_unquote ''sequence'' = Some ''sequence''" "json_unquote ''epoch'' = Some ''epoch''" "json_unquote ''tx_id'' = Some ''tx_id''"
  by (rule json_unquote_plain, simp)+

lemma escape_names [simp]:
  "json_escape ''topic'' = ''topic''" "json_escape ''key'' = ''key''" "json_escape ''value'' = ''value''"
  "json_escape ''producer_id'' = ''producer_id''" "json_escape ''sequence'' = ''sequence''" "json_escape ''epoch'' = ''epoch''"
  "json_escape ''tx_id'' = ''tx_id''"
  by code_simp+

lemma json_decode_text:
  assumes "wf_json v" "json_depth v \<le> 10000" "delim r"
  shows "json_decode (json_text v @ r) = Some (v, r)"
  using parse_value_text [OF assms(1,3), of "2 * length (json_text v @ r) + 2"] assms(2)
  by (simp add: json_decode_def)

lemma dec_string_str [simp]: "valid_utf8 s \<Longrightarrow> dec_string old (json_str s) = Some s"
  by (simp add: dec_string_def json_str_def unquote_escape)

lemma dec_int64_int [simp]: "int64_range i \<Longrightarrow> dec_int64 old (json_int i) = Some i"
  by (simp add: dec_int64_def json_int_def)

lemma doc_simps [simp]:
  "wf_json (json_str s)" "wf_json (json_int i)" "json_depth (json_str s) = 0" "json_depth (json_int i) = 0"
  by (auto simp: json_str_def json_int_def)

lemma payload_orders:
  "produce_payload t k v = JObj [(''key'', json_str k), (''topic'', json_str t), (''value'', json_str v)]"
  "idempotent_payload t k v p i = JObj [(''key'', json_str k), (''producer_id'', json_str p), (''sequence'', json_int i),
     (''topic'', json_str t), (''value'', json_str v)]"
  "begin_payload p i = JObj [(''epoch'', json_int i), (''producer_id'', json_str p)]"
  "tx_payload x t k v = JObj [(''key'', json_str k), (''topic'', json_str t), (''tx_id'', json_str x), (''value'', json_str v)]"
  "id_payload x = JObj [(''tx_id'', json_str x)]"
  by (simp_all add: produce_payload_def idempotent_payload_def begin_payload_def tx_payload_def id_payload_def json_map_def sort_key_def)

lemma Decode_object:
  assumes "\<forall>m \<in> set ms. raw_ok (fst m) \<and> wf_json (snd m) \<and> json_depth (snd m) = 0"
  shows "Decode names (json_text (JObj ms)) = dec_fields names ms payload_zero"
proof -
  have "fold (\<lambda>m. max (json_depth (snd m))) ms 0 \<le> 0" by (rule fold_max_le) (use assms in auto)
  then have "json_decode (json_text (JObj ms) @ []) = Some (JObj ms, [])"
    using assms by (intro json_decode_text) (auto simp: delim_def)
  then show ?thesis by (simp add: Decode_def)
qed

text \<open>C35. The server decodes what the client sends: for texts that are UTF-8 and 64-bit numbers, the body of each
  request of the client decodes at its handler to exactly the values the caller passed.
\<close>

theorem client_payload_roundtrip:
  assumes "valid_utf8 t" "valid_utf8 k" "valid_utf8 v" "valid_utf8 p" "valid_utf8 x" "int64_range i"
  shows "Decode [''topic'', ''key'', ''value'', ''headers''] (json_text (produce_payload t k v)) =
      Some (payload_zero\<lparr>p_topic := t, p_key := k, p_value := v\<rparr>) \<and>
    Decode [''topic'', ''key'', ''value'', ''headers'', ''producer_id'', ''sequence''] (json_text (idempotent_payload t k v p i)) =
      Some (payload_zero\<lparr>p_topic := t, p_key := k, p_value := v, p_producer_id := p, p_sequence := i\<rparr>) \<and>
    Decode [''producer_id'', ''epoch''] (json_text (begin_payload p i)) = Some (payload_zero\<lparr>p_producer_id := p, p_epoch := i\<rparr>) \<and>
    Decode [''tx_id'', ''topic'', ''key'', ''value'', ''headers''] (json_text (tx_payload x t k v)) =
      Some (payload_zero\<lparr>p_tx_id := x, p_topic := t, p_key := k, p_value := v\<rparr>) \<and>
    Decode [''tx_id''] (json_text (id_payload x)) = Some (payload_zero\<lparr>p_tx_id := x\<rparr>)"
  using assms by (simp add: payload_orders Decode_object field_of_def dec_field_def del: json_text.simps)

theorem client_payload_roundtrip_witness:
  "Decode [''tx_id''] (json_text (id_payload ''x'')) = Some (payload_zero\<lparr>p_tx_id := ''x''\<rparr>)"
proof -
  have "valid_utf8 ''x''" by code_simp
  then show ?thesis using client_payload_roundtrip [of "''x''" "''x''" "''x''" "''x''" "''x''" 0] by (simp add: int64_range_def)
qed

section \<open>Client and server together\<close>

text \<open>
  The bytes of an answer; \<open>errtext\<close> is the text of an error.  Connected to a server, the network hands each request
  to its handler, with the header values as HTTP carries them: a value with a control character other than a tab is
  refused by the sender, and white space around a value is lost.
\<close>

definition body_bytes :: "(go_error \<Rightarrow> string) \<Rightarrow> body \<Rightarrow> bytes" where
  "body_bytes errtext b =
     (case b of
        Text s \<Rightarrow> s
      | Message err \<Rightarrow> errtext err @ [CHR 0x0A]
      | Document d \<Rightarrow> (case d of None \<Rightarrow> [] | Some v \<Rightarrow> json_text v @ [CHR 0x0A])
      | Raw bs \<Rightarrow> bs
      | Partial bs err \<Rightarrow> bs
      | _ \<Rightarrow> [])"

definition header_value_ok :: "string \<Rightarrow> bool" where
  "header_value_ok v \<longleftrightarrow> list_all (\<lambda>c. c = CHR 0x09 \<or> 32 \<le> (of_char c :: nat) \<and> c \<noteq> CHR 0x7F) v"

definition header_trim :: "string \<Rightarrow> string" where
  "header_trim v = (let sp = (\<lambda>c. c \<in> set [CHR 0x20, CHR 0x09, CHR 0x0A, CHR 0x0D])
     in rev (dropWhile sp (rev (dropWhile sp v))))"

definition connected :: "handler \<Rightarrow> (nat \<Rightarrow> env) \<Rightarrow> (go_error \<Rightarrow> string) \<Rightarrow> world network" where
  "connected h es errtext base r w =
     (if \<not> list_all (\<lambda>kv. header_value_ok (snd kv)) (rq_Header r) then (Inl (Err ''net/http: invalid header field value''), w)
      else
        (case h es (r\<lparr>rq_Header := map (\<lambda>kv. (fst kv, header_trim (snd kv))) (rq_Header r)\<rparr>) w of (resp, w1) \<Rightarrow>
           (if rs_Body resp = Dropped then Inl (Err ''EOF'') else Inr (rs_Status resp, body_bytes errtext (rs_Body resp)), w1)))"

text \<open>What a record looks like to the client: the base64 text of its value.\<close>

definition seen_value :: "Record \<Rightarrow> bytes" where
  "seen_value r = (case Value r of None \<Rightarrow> [] | Some v \<Rightarrow> b64_encode v)"

lemma dec_fields_other:
  "json_unquote key = Some f \<Longrightarrow> field_of names f = None \<Longrightarrow> dec_fields names ((key, v) # ms) p = dec_fields names ms p"
  by simp

lemma dec_value_bytes: "dec_string [] (bytes_json b) = Some (case b of None \<Rightarrow> [] | Some v \<Rightarrow> b64_encode v)"
  by (auto simp: dec_string_def bytes_json_def json_unquote_plain [OF b64_encode_ascii] split: option.splits)

lemma consumed_fields:
  "field_of [''value''] ''value'' = Some ''value''" "field_of [''value''] ''key'' = None" "field_of [''value''] ''headers'' = None"
  "field_of [''value''] ''timestamp'' = None" "field_of [''value''] ''offset'' = None"
  by code_simp+

lemma dec_field_value:
  "dec_field ''value'' (bytes_json (Value r)) payload_zero = Some (payload_zero\<lparr>p_value := seen_value r\<rparr>)"
  using dec_value_bytes [of "Value r"] by (simp add: dec_field_def payload_zero_def seen_value_def)

lemma dec_consumed_record:
  "dec_fields [''value''] (case Record_json ts r of JObj ms \<Rightarrow> ms) payload_zero = Some (payload_zero\<lparr>p_value := seen_value r\<rparr>)"
  by (simp add: Record_json_def consumed_fields dec_field_value)

lemma dec_consumed_docs:
  "Records_docs rs = Some ds \<Longrightarrow> dec_consumed ds = Some (map seen_value rs) \<and> (\<forall>d \<in> set ds. wf_json d \<and> json_depth d \<le> 2)"
proof (induction rs arbitrary: ds)
  case (Cons r rs)
  then obtain ts ds' where d: "time_MarshalText (Timestamp r) = Some ts" "ds = Record_json ts r # ds'" "Records_docs rs = Some ds'"
    by (auto simp: Record_doc_def split: option.splits)
  obtain ms where ms: "Record_json ts r = JObj ms" by (simp add: Record_json_def)
  have "dec_fields [''value''] ms payload_zero = Some (payload_zero\<lparr>p_value := seen_value r\<rparr>)"
    using dec_consumed_record [of ts r] by (simp add: ms)
  then show ?case
    using Cons.IH [OF d(3)] wf_Record_json [OF d(1)] depth_Record_json [of ts r] by (simp add: d(2) ms)
qed simp

lemma Records_docs_exist:
  "\<forall>r \<in> set rs. time_MarshalText (Timestamp r) \<noteq> None \<Longrightarrow> \<exists>ds. Records_docs rs = Some ds"
  by (induction rs) (auto simp: Record_doc_def)

lemma decode_docs:
  assumes "Records_docs rs = Some ds"
  shows "json_decode (json_text (JArr ds) @ [CHR 0x0A]) = Some (JArr ds, [CHR 0x0A])"
proof (rule json_decode_text)
  have "fold (\<lambda>v. max (json_depth v)) ds 0 \<le> 2"
    by (rule fold_max_le [of ds json_depth]) (use dec_consumed_docs [OF assms] in auto)
  then show "json_depth (JArr ds) \<le> 10000" by simp
qed (use dec_consumed_docs [OF assms] in \<open>auto simp: delim_def is_digit_def\<close>)

definition consume_request :: "Client \<Rightarrow> string \<Rightarrow> request" where
  "consume_request c topic = \<lparr> rq_Method = ''GET'', rq_EscapedPath = ''/consume'',
     rq_Query = [(''max'', ''100''), (''offset'', ''0''), (''topic'', topic)], rq_Header = key_header c, rq_Body = [] \<rparr>"

text \<open>The request as it arrives.\<close>

definition arrived :: "Client \<Rightarrow> string \<Rightarrow> request" where
  "arrived c topic = (consume_request c topic)\<lparr>rq_Header := map (\<lambda>kv. (fst kv, header_trim (snd kv))) (key_header c)\<rparr>"

lemma consume_query:
  "query_offset (arrived c t) = Some 0" "query_max (arrived c t) = Some 100"
  "Query_Get (arrived c t) ''topic'' = t"
proof -
  have "ParseInt ''0'' = Some 0" "ParseInt ''100'' = Some 100" by code_simp+
  then show "query_offset (arrived c t) = Some 0" "query_max (arrived c t) = Some 100"
    "Query_Get (arrived c t) ''topic'' = t"
    by (simp_all add: query_offset_def query_max_def arrived_def consume_request_def Query_Get_def first_value_def)
qed

lemma handleConsume_all:
  assumes "world_inv n w" "quiet (es 0)" "world_log w t = Some l" "\<forall>x \<in> set l. 0 \<le> fst x" "t \<noteq> []"
  shows "handleConsume es (arrived c t) w = (writeJSON 200 (map_option JArr (Records_docs (map snd (take 100 l)))), w)"
proof -
  have "Consume (es 0) t 0 100 (w_fs w) (w_broker w) = Inr (map snd (take 100 l))"
    using Consume_quiet [of n "w_fs w" "w_broker w" "es 0" t l 100 0] assms
    by (simp add: world_inv_def world_log_def filter_id_conv take_map)
  then show ?thesis
    using assms(5) by (simp add: handleConsume_def consume_query Let_def) (simp add: arrived_def consume_request_def)
qed

lemma consume_labelled:
  assumes "utf8_labels prom"
  shows "labelled prom (arrived c t) resp"
proof -
  have v: "valid_utf8 ''GET''" "valid_utf8 ''/consume''" "PathUnescape ''/consume'' = ''/consume''" by code_simp+
  have "rq_Method (arrived c t) = ''GET''" "URL_Path (arrived c t) = ''/consume''"
    by (simp_all add: arrived_def consume_request_def URL_Path_def v(3) del: PathUnescape.simps)
  then show ?thesis using v by (intro utf8_labelled [OF assms]) simp_all
qed

lemma header_trim_Nil [simp]: "header_trim [] = []"
  by (simp add: header_trim_def)

lemma TrimSpace_Nil [simp]: "TrimSpace [] = []"
  by code_simp

text \<open>C36. Consuming through the client against the server: the caller receives, in order, the base64 texts of the values in
  the topic log, not the values that were produced, and only those of the first 100 records of the log, without an
  error when there are more. The server has no API key, or it is the client's key as HTTP carries it, without the
  white space around it.
\<close>

theorem client_consume_base64:
  assumes "world_inv n w" "quiet (es 0)" "world_log w t = Some l"
    and "\<forall>x \<in> set l. 0 \<le> fst x \<and> time_MarshalText (Timestamp (snd x)) \<noteq> None"
    and "transparent otel" "utf8_labels prom" "header_value_ok (client_key c)"
    and "TrimSpace (apiKey s) = [] \<or> header_trim (client_key c) = apiKey s"
  shows "fst (client_Consume (connected (Handler prom otel s) es errtext) c t n_taken w) =
    take n_taken (map (seen_value \<circ> snd) (take 100 l))"
proof -
  have t: "t \<noteq> []"
    using assms(1,3) by (auto simp: world_inv_def world_log_def topic_log_def plain_name_def dest: broker_inv_topic(1))
  have "\<forall>r \<in> set (map snd (take 100 l)). time_MarshalText (Timestamp r) \<noteq> None" using assms(4) by (auto dest: in_set_takeD)
  then obtain ds where ds: "Records_docs (map snd (take 100 l)) = Some ds" using Records_docs_exist by blast
  let ?r = "arrived c t"
  have acc: "accepts s ?r"
    using assms(8) by (auto simp: accepts_def arrived_def consume_request_def Header_Get_def first_value_def key_header_def)
  have route: "(rq_EscapedPath ?r, handleConsume) \<in> set (routes (prom_page prom))" by (simp add: routes_def arrived_def consume_request_def)
  obtain resp w' where run: "Handler prom otel s es ?r w = (resp, w')" by (rule prod.exhaust)
  then have "resp = writeJSON 200 (Some (JArr ds))"
    unfolding Handler_route [OF assms(5) acc route]
    by (rule wrapped) (use handleConsume_all [where w = w and es = es and t = t and c = c, OF assms(1-3) _ t] assms(4) ds
        consume_labelled [OF assms(6)] in auto)
  then have "connected (Handler prom otel s) es errtext (baseURL c) (consume_request c t) w = (Inr (200, json_text (JArr ds) @ [CHR 0x0A]), w')"
    using run assms(7) by (simp add: connected_def arrived_def consume_request_def key_header_def writeJSON_def body_bytes_def)
  then have "getRecords (connected (Handler prom otel s) es errtext) c t w = (Inr (map seen_value (map snd (take 100 l))), w')"
    using decode_docs [OF ds] dec_consumed_docs [OF ds]
    by (simp add: getRecords_def Let_def del: json_text.simps flip: consume_request_def)
  then show ?thesis by (simp add: client_Consume_def)
qed

definition valued :: "fs \<times> Broker" where
  "valued = snd (Produce calm_env ''t'' None (Some ''hi'') fmempty (fst sample_broker) (snd sample_broker))"

definition valued_world :: world where
  "valued_world = \<lparr> w_fs = fst valued, w_broker = snd valued, w_calls = [] \<rparr>"

lemma valued_world_ok:
  "world_inv (Suc (Suc 0)) valued_world" "world_log valued_world ''t'' = Some [(0, produced calm_env None (Some ''hi'') fmempty 0)]"
proof -
  show "world_inv (Suc (Suc 0)) valued_world"
    using Produce_run(1) [OF sample_broker_inv headers_ok_empty, of calm_env "''t''" None "Some ''hi''"]
    by (cases "Produce calm_env ''t'' None (Some ''hi'') fmempty (fst sample_broker) (snd sample_broker)")
      (simp add: valued_def world_inv_def valued_world_def)
  show "world_log valued_world ''t'' = Some [(0, produced calm_env None (Some ''hi'') fmempty 0)]" by code_simp
qed

theorem client_consume_base64_witness:
  "fst (client_Consume (connected (Handler no_metrics (\<lambda>h. h) NewServer) (\<lambda>_. calm_env) (\<lambda>_. [])) (NewClient ''host'') ''t'' 5 valued_world)
    = [''aGk='']"
proof -
  have z: "time_MarshalText (Timestamp (produced calm_env None (Some ''hi'') fmempty 0)) \<noteq> None" by code_simp
  have e: "TrimSpace (apiKey NewServer) = []" "header_value_ok (client_key (NewClient ''host''))" by code_simp+
  have "fst (client_Consume (connected (Handler no_metrics (\<lambda>h. h) NewServer) (\<lambda>_. calm_env) (\<lambda>_. [])) (NewClient ''host'') ''t'' 5
      valued_world) = take 5 (map (seen_value \<circ> snd) (take 100 [(0::int, produced calm_env None (Some ''hi'') fmempty 0)]))"
    by (rule client_consume_base64 [OF valued_world_ok(1) _ valued_world_ok(2)]) (use z e in simp_all)
  moreover have "seen_value (produced calm_env None (Some ''hi'') fmempty 0) = ''aGk=''" by code_simp
  ultimately show ?thesis by simp
qed

end
