(* ===== verification/Raft_Wal.thy ===== *)
theory Raft_Wal
  imports Go_Os
begin

text \<open>
  The write-ahead log and the snapshots of a Raft node (\<^verbatim>\<open>broker/internal/raft/wal.go\<close>, the entry codec of
  \<^verbatim>\<open>node.go\<close>) and the object store snapshots are copied to (\<^verbatim>\<open>broker/storage/offload.go\<close>).  The log is a
  directory of files \<^verbatim>\<open>wal.*\<close>; each file is a sequence of frames, a length of four bytes and a payload.  The
  entries of \<^verbatim>\<open>raftpb\<close> are third-party data: a type variable with its index, its protobuf encoder and decoder as
  arguments.
\<close>

section \<open>Object stores\<close>

record offloader =
  off_Upload :: "env \<Rightarrow> string \<Rightarrow> string \<Rightarrow> reader \<Rightarrow> fs \<Rightarrow> (go_error + string) \<times> fs"
  off_Download :: "env \<Rightarrow> string \<Rightarrow> string \<Rightarrow> fs \<Rightarrow> go_error + reader"
  off_List :: "env \<Rightarrow> string \<Rightarrow> string \<Rightarrow> fs \<Rightarrow> go_error + string list"

record LocalOffloader =
  lo_Dir :: string

definition NewLocalOffloader :: "string \<Rightarrow> LocalOffloader" where
  "NewLocalOffloader dir = \<lparr> lo_Dir = dir \<rparr>"

definition Local_Upload :: "LocalOffloader \<Rightarrow> env \<Rightarrow> string \<Rightarrow> string \<Rightarrow> reader \<Rightarrow> fs \<Rightarrow> (go_error + string) \<times> fs" where
  "Local_Upload l e bucket key r fs =
     (let bucketDir = filepath_Join [lo_Dir l, bucket]
      in if \<not> os_ok e (Os_MkdirAll bucketDir) then (Inl (ErrOs (IOFault (Os_MkdirAll bucketDir))), fs)
         else
           (let dst = filepath_Join [bucketDir, key]
            in case os_OpenTrunc e dst fs of
                 (Some err, fs1) \<Rightarrow> (Inl (ErrOs err), fs1)
               | (None, fs1) \<Rightarrow>
                   (case io_Copy e dst r fs1 of
                      (Some err, fs2) \<Rightarrow> (Inl (ErrOs err), fs2)
                    | (None, fs2) \<Rightarrow> (Inr dst, fs2))))"

definition Local_Download :: "LocalOffloader \<Rightarrow> env \<Rightarrow> string \<Rightarrow> string \<Rightarrow> fs \<Rightarrow> go_error + reader" where
  "Local_Download l e bucket key fs =
     (let p = filepath_Join [lo_Dir l, bucket, key]
      in case os_Open e p fs of Inl err \<Rightarrow> Inl (ErrOs err) | Inr rc \<Rightarrow> Inr rc)"

definition Local_List :: "LocalOffloader \<Rightarrow> env \<Rightarrow> string \<Rightarrow> string \<Rightarrow> fs \<Rightarrow> go_error + string list" where
  "Local_List l e bucket pre fs =
     (case os_ReadDir e (filepath_Join [lo_Dir l, bucket]) fs of
        Inl err \<Rightarrow> Inl (ErrOs err)
      | Inr names \<Rightarrow> Inr (filter (\<lambda>name. pre = [] \<or>
            length name \<ge> length pre \<and> take (length pre) name = pre) names))"

definition local_offloader :: "LocalOffloader \<Rightarrow> offloader" where
  "local_offloader l =
     \<lparr> off_Upload = Local_Upload l, off_Download = Local_Download l, off_List = Local_List l \<rparr>"

section \<open>Frames\<close>

definition frame_hdr :: "nat \<Rightarrow> bytes" where
  "frame_hdr n =
     (let l = of_nat n :: 32 word
      in [byte_of (drop_bit 24 l), byte_of (drop_bit 16 l), byte_of (drop_bit 8 l), byte_of l])"

definition hdr_len :: "bytes \<Rightarrow> nat" where
  "hdr_len b =
     unat (push_bit 24 (word_of_byte (b ! 0)) OR push_bit 16 (word_of_byte (b ! 1)) OR
           push_bit 8 (word_of_byte (b ! 2)) OR word_of_byte (b ! 3) :: 32 word)"

text \<open>The scan of one log file by \<^verbatim>\<open>ReadWAL\<close>: it stops at the first incomplete frame.\<close>

function wal_scan :: "bytes \<Rightarrow> bytes" where
  "wal_scan b =
     (if b = [] then []
      else if 4 > length b then []
      else let l = hdr_len b; b' = drop 4 b
           in if l > length b' then [] else take l b' @ wal_scan (drop l b'))"
  by pat_completeness auto
termination
  by (relation "measure length") auto

declare wal_scan.simps [simp del]

section \<open>Raft entries\<close>

fun marshalEntries :: "('e \<Rightarrow> bytes option) \<Rightarrow> 'e list \<Rightarrow> bytes option" where
  "marshalEntries mar [] = Some []"
| "marshalEntries mar (e # es) =
     (case mar e of
        None \<Rightarrow> None
      | Some b \<Rightarrow>
          (case marshalEntries mar es of
             None \<Rightarrow> None
           | Some out \<Rightarrow> Some (frame_hdr (length b) @ b @ out)))"

text \<open>\<^verbatim>\<open>None\<close> is an error; incomplete data is the result \<^verbatim>\<open>nil, nil\<close>.\<close>

function unmarshal_loop :: "(bytes \<Rightarrow> 'e option) \<Rightarrow> 'e list \<Rightarrow> bytes \<Rightarrow> 'e list option" where
  "unmarshal_loop unm ents d =
     (if d = [] then Some ents
      else if 4 > length d then Some []
      else let l = hdr_len d; d' = drop 4 d
           in if l > length d' then Some []
              else case unm (take l d') of
                     None \<Rightarrow> None
                   | Some e \<Rightarrow> unmarshal_loop unm (ents @ [e]) (drop l d'))"
  by pat_completeness auto
termination
  by (relation "measure (\<lambda>(_, _, d). length d)") auto

declare unmarshal_loop.simps [simp del]

definition unmarshalEntries :: "(bytes \<Rightarrow> 'e option) \<Rightarrow> bytes \<Rightarrow> 'e list option" where
  "unmarshalEntries unm d = unmarshal_loop unm [] d"

section \<open>The log directory\<close>

record walStorage =
  ws_dir :: string
  ws_offload :: "offloader option"

definition NewWALStorage :: "env \<Rightarrow> string \<Rightarrow> offloader option \<Rightarrow> go_error + walStorage" where
  "NewWALStorage e dir off =
     (if \<not> os_ok e (Os_MkdirAll dir) then Inl (ErrOs (IOFault (Os_MkdirAll dir)))
      else Inr \<lparr> ws_dir = dir, ws_offload = off \<rparr>)"

definition walPath :: "walStorage \<Rightarrow> string" where
  "walPath w = filepath_Join [ws_dir w, ''wal.log'']"

definition snap_name :: "string \<Rightarrow> string" where
  "snap_name sid = ''snapshot.'' @ sid @ ''.snap''"

definition SaveSnapshot :: "env \<Rightarrow> walStorage \<Rightarrow> reader \<Rightarrow> fs \<Rightarrow> (go_error + string) \<times> fs" where
  "SaveSnapshot e w r fs =
     (let sid = fmt_d (UnixNano (env_clock e 0)); path = filepath_Join [ws_dir w, snap_name sid]
      in case os_OpenTrunc e path fs of
           (Some err, fs1) \<Rightarrow> (Inl (ErrOs err), fs1)
         | (None, fs1) \<Rightarrow>
             (case io_Copy e path r fs1 of
                (Some err, fs2) \<Rightarrow> (Inl (ErrOs err), fs2)
              | (None, fs2) \<Rightarrow>
                  (case ws_offload w of
                     None \<Rightarrow> (Inr sid, fs2)
                   | Some off \<Rightarrow>
                       (case os_Open e path fs2 of
                          Inl _ \<Rightarrow> (Inr sid, fs2)
                        | Inr rf \<Rightarrow> (Inr sid, snd (off_Upload off e ''snapshots'' (snap_name sid) rf fs2))))))"

definition is_snap :: "string \<Rightarrow> bool" where
  "is_snap name \<longleftrightarrow> length name > 9 \<and> take 9 name = ''snapshot.''"

definition latest_name :: "string list \<Rightarrow> string" where
  "latest_name names =
     foldl (\<lambda>latest name. if is_snap name \<and> (latest = [] \<or> name > latest) then name else latest) [] names"

definition latest_key :: "string list \<Rightarrow> string" where
  "latest_key keys = foldl (\<lambda>latest k. if k > latest then k else latest) (hd keys) keys"

definition os_open_result :: "os_error + reader \<Rightarrow> go_error + reader" where
  "os_open_result r = (case r of Inl err \<Rightarrow> Inl (ErrOs err) | Inr rc \<Rightarrow> Inr rc)"

definition restore_snapshot :: "env \<Rightarrow> walStorage \<Rightarrow> offloader \<Rightarrow> fs \<Rightarrow> (go_error + reader) \<times> fs" where
  "restore_snapshot e w off fs =
     (case off_List off e ''snapshots'' ''snapshot.'' fs of
        Inl _ \<Rightarrow> (Inl (ErrOs NotExist), fs)
      | Inr keys \<Rightarrow>
          (if keys = [] then (Inl (ErrOs NotExist), fs)
           else case off_Download off e ''snapshots'' (latest_key keys) fs of
                  Inl _ \<Rightarrow> (Inl (ErrOs NotExist), fs)
                | Inr rc \<Rightarrow>
                    (let dst = filepath_Join [ws_dir w, latest_key keys]
                     in case os_OpenTrunc e dst fs of
                          (Some _, fs1) \<Rightarrow> (Inl (ErrOs NotExist), fs1)
                        | (None, fs1) \<Rightarrow>
                            (let fs2 = snd (io_Copy e dst rc fs1)
                             in (os_open_result (os_Open e dst fs2), fs2)))))"

definition LoadSnapshot :: "env \<Rightarrow> walStorage \<Rightarrow> fs \<Rightarrow> (go_error + reader) \<times> fs" where
  "LoadSnapshot e w fs =
     (case os_ReadDir e (ws_dir w) fs of
        Inl err \<Rightarrow> (Inl (ErrOs err), fs)
      | Inr entries \<Rightarrow>
          (let latest = latest_name entries
           in if latest = [] then
                (case ws_offload w of
                   None \<Rightarrow> (Inl (ErrOs NotExist), fs)
                 | Some off \<Rightarrow> restore_snapshot e w off fs)
              else (os_open_result (os_Open e (filepath_Join [ws_dir w, latest]) fs), fs)))"

definition write_frame :: "env \<Rightarrow> string \<Rightarrow> bytes \<Rightarrow> fs \<Rightarrow> go_error option \<times> fs" where
  "write_frame e p b fs =
     (case os_Append e p (frame_hdr (length b)) fs of
        (Some err, fs1) \<Rightarrow> (Some (ErrOs err), fs1)
      | (None, fs1) \<Rightarrow>
          (case os_Append e p b fs1 of
             (Some err, fs2) \<Rightarrow> (Some (ErrOs err), fs2)
           | (None, fs2) \<Rightarrow> (None, fs2)))"

definition AppendWAL :: "env \<Rightarrow> walStorage \<Rightarrow> bytes \<Rightarrow> fs \<Rightarrow> go_error option \<times> fs" where
  "AppendWAL e w entries fs =
     (case os_OpenCreate e (walPath w) fs of
        (Some err, fs1) \<Rightarrow> (Some (ErrOs err), fs1)
      | (None, fs1) \<Rightarrow> write_frame e (walPath w) entries fs1)"

definition is_wal :: "string \<Rightarrow> bool" where
  "is_wal name \<longleftrightarrow> name = ''wal.log'' \<or> length name > 4 \<and> take 4 name = ''wal.''"

fun read_files :: "env \<Rightarrow> string list \<Rightarrow> bytes \<Rightarrow> fs \<Rightarrow> go_error + bytes" where
  "read_files e [] out fs = Inr out"
| "read_files e (f # files) out fs =
     (case os_ReadFile e f fs of
        Inl err \<Rightarrow> Inl (ErrOs err)
      | Inr b \<Rightarrow> read_files e files (out @ wal_scan b) fs)"

definition ReadWAL :: "env \<Rightarrow> walStorage \<Rightarrow> nat \<Rightarrow> fs \<Rightarrow> go_error + bytes" where
  "ReadWAL e w fromIndex fs =
     (case os_ReadDir e (ws_dir w) fs of
        Inl err \<Rightarrow> Inl (ErrOs err)
      | Inr entries \<Rightarrow>
          (let files = sort (map (\<lambda>name. filepath_Join [ws_dir w, name]) (filter is_wal entries))
           in if files = [] then Inr []
              else case read_files e files [] fs of
                     Inl err \<Rightarrow> Inl err
                   | Inr out \<Rightarrow> if fromIndex \<ge> length out then Inr [] else Inr (drop fromIndex out)))"

definition rotated_name :: "string \<Rightarrow> string" where
  "rotated_name ts = ''wal.'' @ ts @ ''.log''"

definition RotateWAL :: "env \<Rightarrow> walStorage \<Rightarrow> fs \<Rightarrow> go_error option \<times> fs" where
  "RotateWAL e w fs =
     (if os_ok e (Os_Stat (walPath w)) \<and> fmlookup fs (walPath w) = None then (None, fs)
      else
        (let newname = filepath_Join [ws_dir w, rotated_name (fmt_d (UnixNano (env_clock e 0)))]
         in case os_Rename e (walPath w) newname fs of
              (Some err, fs1) \<Rightarrow> (Some (ErrOs err), fs1)
            | (None, fs1) \<Rightarrow>
                (case os_OpenTrunc e (walPath w) fs1 of
                   (Some err, fs2) \<Rightarrow> (Some (ErrOs err), fs2)
                 | (None, fs2) \<Rightarrow> (None, fs2))))"

definition remove_files :: "env \<Rightarrow> string \<Rightarrow> string list \<Rightarrow> fs \<Rightarrow> fs" where
  "remove_files e dir names fs = foldl (\<lambda>fs name. snd (os_Remove e (filepath_Join [dir, name]) fs)) fs names"

definition PurgeOldSnapshots :: "env \<Rightarrow> walStorage \<Rightarrow> int \<Rightarrow> fs \<Rightarrow> go_error option \<times> fs" where
  "PurgeOldSnapshots e w keep fs =
     (case os_ReadDir e (ws_dir w) fs of
        Inl err \<Rightarrow> (Some (ErrOs err), fs)
      | Inr entries \<Rightarrow>
          (let snaps = filter is_snap entries
           in if int (length snaps) \<le> keep then (None, fs)
              else
                (let fs1 = remove_files e (ws_dir w) (take (nat (int (length snaps) - keep)) snaps) fs
                 in if keep < 0 then (Some (ErrPanic ''index out of range''), fs1) else (None, fs1))))"

definition keep_entries :: "('e \<Rightarrow> nat) \<Rightarrow> nat \<Rightarrow> 'e list \<Rightarrow> 'e list" where
  "keep_entries idx compactIndex ents =
     (if list_ex (\<lambda>e. idx e > 0) ents then filter (\<lambda>e. idx e > compactIndex) ents
      else map snd (filter (\<lambda>(i, e). i + 1 > compactIndex) (zip [0..<length ents] ents)))"

definition wal_Compact ::
  "('e \<Rightarrow> nat) \<Rightarrow> ('e \<Rightarrow> bytes option) \<Rightarrow> (bytes \<Rightarrow> 'e option) \<Rightarrow> env \<Rightarrow> walStorage \<Rightarrow> nat \<Rightarrow> fs \<Rightarrow> go_error option \<times> fs" where
  "wal_Compact idx mar unm e w compactIndex fs =
     (case ReadWAL e w 0 fs of
        Inl err \<Rightarrow> (Some err, fs)
      | Inr data \<Rightarrow>
          (case unmarshalEntries unm data of
             None \<Rightarrow> (Some (Err ''proto''), fs)
           | Some ents \<Rightarrow>
               (case marshalEntries mar (keep_entries idx compactIndex ents) of
                  None \<Rightarrow> (Some (Err ''proto''), fs)
                | Some b \<Rightarrow>
                    (case os_OpenTrunc e (walPath w) fs of
                       (Some err, fs1) \<Rightarrow> (Some (ErrOs err), fs1)
                     | (None, fs1) \<Rightarrow>
                         (case write_frame e (walPath w) b fs1 of
                            (Some err, fs2) \<Rightarrow> (Some err, fs2)
                          | (None, fs2) \<Rightarrow>
                              (case os_ReadDir e (ws_dir w) fs2 of
                                 Inl _ \<Rightarrow> (None, fs2)
                               | Inr entries \<Rightarrow>
                                   (None, remove_files e (ws_dir w)
                                      (filter (\<lambda>name. name \<noteq> ''wal.log'' \<and> take 4 name = ''wal.'') entries) fs2)))))))"

section \<open>Frames and entries\<close>

lemma frame_hdr_PutUint32: "frame_hdr n = PutUint32 (of_nat n)"
  by (simp add: frame_hdr_def PutUint32_def eval_nat_numeral Let_def drop_bit_drop_bit)

lemma length_frame_hdr [simp]: "length (frame_hdr n) = 4"
  by (simp add: frame_hdr_PutUint32)

lemma hdr_len_Uint32: "4 \<le> length b \<Longrightarrow> hdr_len b = unat (Uint32 b)"
proof -
  assume "4 \<le> length b"
  then obtain c0 c1 c2 c3 r where b: "b = c0 # c1 # c2 # c3 # r"
    by (auto simp: eval_nat_numeral Suc_le_length_iff)
  have "Uint32 b = push_bit 24 (word_of_byte c0) OR push_bit 16 (word_of_byte c1) OR
      push_bit 8 (word_of_byte c2) OR word_of_byte c3"
    by (rule bit_word_eqI) (auto simp: b Uint32_def be_word_def bit_simps)
  then show ?thesis by (simp add: hdr_len_def b)
qed

lemma hdr_len_frame [simp]: "n < 2 ^ 32 \<Longrightarrow> hdr_len (frame_hdr n @ b) = n"
  by (simp add: hdr_len_Uint32) (simp add: frame_hdr_PutUint32 unat_of_nat take_bit_eq_mod)

text \<open>What is left of a file after its complete frames.\<close>

function wal_rest :: "bytes \<Rightarrow> bytes" where
  "wal_rest b =
     (if b = [] then []
      else if 4 > length b then b
      else let l = hdr_len b; b' = drop 4 b
           in if l > length b' then b else wal_rest (drop l b'))"
  by pat_completeness auto
termination
  by (relation "measure length") auto

declare wal_rest.simps [simp del]

lemma wal_scan_Nil [simp]: "wal_scan [] = []" "wal_rest [] = []"
  by (simp_all add: wal_scan.simps [of "[]"] wal_rest.simps [of "[]"])

lemma wal_scan_frame:
  assumes "length p < 2 ^ 32"
  shows "wal_scan (frame_hdr (length p) @ p @ b) = p @ wal_scan b"
    "wal_rest (frame_hdr (length p) @ p @ b) = wal_rest b"
  using assms
  by (subst wal_scan.simps wal_rest.simps, auto simp: Let_def dest: arg_cong [where f = length])+

lemma wal_scan_torn:
  assumes "length p < 2 ^ 32" "n < 4 + length p"
  shows "wal_scan (take n (frame_hdr (length p) @ p)) = []"
proof (cases "n < 4")
  case True
  then show ?thesis by (subst wal_scan.simps) simp
next
  case False
  with assms show ?thesis by (subst wal_scan.simps) (auto simp: Let_def)
qed

lemma hdr_len_append: "4 \<le> length b \<Longrightarrow> hdr_len (b @ c) = hdr_len b"
  by (cases "b = []") (simp_all add: hdr_len_def nth_append)

lemma wal_scan_append:
  "wal_rest b = [] \<Longrightarrow> wal_scan (b @ c) = wal_scan b @ wal_scan c \<and> wal_rest (b @ c) = wal_rest c"
proof (induction b rule: wal_rest.induct)
  case (1 b)
  show ?case
  proof (cases "b = []")
    case False
    then have ge: "\<not> length b < 4" and l: "\<not> hdr_len b > length (drop 4 b)"
      using "1.prems" by (auto simp: wal_rest.simps [of b] Let_def split: if_splits)
    then have "wal_rest (drop (hdr_len b) (drop 4 b)) = []"
      using "1.prems" False by (simp add: wal_rest.simps [of b] Let_def)
    note IH = "1.IH" [OF False _ refl refl _ this]
    have "\<not> hdr_len b > length b + length c - 4" using ge l by simp
    then show ?thesis
      using False ge l IH by (simp add: wal_scan.simps [of b] wal_scan.simps [of "b @ c"]
          wal_rest.simps [of "b @ c"] Let_def hdr_len_append)
  qed simp
qed

text \<open>The protobuf codec: what was encoded is decoded, and an encoding is below 4 GiB.\<close>

definition proto_codec :: "('e \<Rightarrow> bytes option) \<Rightarrow> (bytes \<Rightarrow> 'e option) \<Rightarrow> bool" where
  "proto_codec mar unm \<longleftrightarrow> (\<forall>e b. mar e = Some b \<longrightarrow> unm b = Some e \<and> length b < 2 ^ 32)"

lemma unmarshal_marshal:
  assumes "proto_codec mar unm"
  shows "marshalEntries mar es = Some d \<Longrightarrow> unmarshal_loop unm acc (d @ d') = unmarshal_loop unm (acc @ es) d'"
proof (induction es arbitrary: d acc)
  case (Cons x es)
  then obtain b out where b: "mar x = Some b" "marshalEntries mar es = Some out"
    and d: "d = frame_hdr (length b) @ b @ out"
    by (auto split: option.splits)
  with assms have "unm b = Some x" "length b < 2 ^ 32" by (auto simp: proto_codec_def)
  then have "unmarshal_loop unm acc (d @ d') = unmarshal_loop unm (acc @ [x]) (out @ d')"
    unfolding d by (subst unmarshal_loop.simps) (auto simp: Let_def dest: arg_cong [where f = length])
  then show ?case using Cons.IH [OF b(2), of "acc @ [x]"] by simp
qed simp

lemma marshalEntries_append:
  "marshalEntries mar (xs @ ys) =
     (case marshalEntries mar xs of None \<Rightarrow> None
      | Some a \<Rightarrow> (case marshalEntries mar ys of None \<Rightarrow> None | Some b \<Rightarrow> Some (a @ b)))"
  by (induction xs) (auto split: option.splits)

lemma entries_roundtrip:
  "proto_codec mar unm \<Longrightarrow> marshalEntries mar es = Some d \<Longrightarrow> unmarshalEntries unm d = Some es"
  using unmarshal_marshal [of mar unm es d "[]" "[]"]
  by (simp add: unmarshalEntries_def unmarshal_loop.simps [of _ _ "[]"])

section \<open>What the log directory holds\<close>

definition wal_names :: "walStorage \<Rightarrow> fs \<Rightarrow> string set" where
  "wal_names w fs = {n \<in> dir_files (ws_dir w) fs. is_wal n}"

definition wal_file :: "walStorage \<Rightarrow> fs \<Rightarrow> string \<Rightarrow> bytes" where
  "wal_file w fs n = map_get [] fs (dir_prefix (ws_dir w) @ n)"

definition wal_concat :: "walStorage \<Rightarrow> fs \<Rightarrow> string set \<Rightarrow> bytes" where
  "wal_concat w fs A = concat (map (\<lambda>n. wal_scan (wal_file w fs n)) (sorted_list_of_set A))"

definition wal_bytes :: "walStorage \<Rightarrow> fs \<Rightarrow> bytes" where
  "wal_bytes w fs = wal_concat w fs (wal_names w fs)"

text \<open>The current file sorts after the rotated ones, and it ends with a complete frame.\<close>

definition wal_ordered :: "walStorage \<Rightarrow> fs \<Rightarrow> bool" where
  "wal_ordered w fs \<longleftrightarrow> (\<forall>n \<in> wal_names w fs. n \<le> ''wal.log'')"

definition wal_inv :: "walStorage \<Rightarrow> fs \<Rightarrow> bool" where
  "wal_inv w fs \<longleftrightarrow> wal_ordered w fs \<and> wal_rest (wal_file w fs ''wal.log'') = []"

lemma plain_wal_log [simp]: "plain_name ''wal.log''"
  by (simp add: plain_name_def)

lemma walPath_eq: "walPath w = dir_prefix (ws_dir w) @ ''wal.log''"
  by (simp add: walPath_def filepath_Join_plain)

lemma is_wal_plain: "n \<in> wal_names w fs \<Longrightarrow> plain_name n"
  by (auto simp: wal_names_def dir_files_def is_wal_def plain_name_def)

lemma finite_wal_names [simp]: "finite (wal_names w fs)"
  by (simp add: wal_names_def)

lemma wal_names_list: "filter is_wal (dir_names (ws_dir w) fs) = sorted_list_of_set (wal_names w fs)"
proof -
  have "sorted (filter is_wal (dir_names (ws_dir w) fs))" "distinct (filter is_wal (dir_names (ws_dir w) fs))"
    using dir_names_sorted [of "ws_dir w" fs] by (auto simp: sorted_wrt_filter)
  moreover have "set (filter is_wal (dir_names (ws_dir w) fs)) = wal_names w fs"
    by (auto simp: set_dir_names wal_names_def)
  ultimately show ?thesis
    by (metis sorted_list_of_set.idem_if_sorted_distinct)
qed

lemma sorted_map_prefix: "sorted (xs :: string list) \<Longrightarrow> sorted (map ((@) p) xs)"
  by (induction xs) (auto simp: append_le_iff)

lemma read_files_quiet:
  assumes "quiet e" "\<forall>f \<in> set files. f \<in> fmdom' fs"
  shows "read_files e files out fs = Inr (out @ concat (map (\<lambda>f. wal_scan (map_get [] fs f)) files))"
  using assms(2)
proof (induction files arbitrary: out)
  case (Cons f files)
  then obtain b where "fmlookup fs f = Some b" by (auto simp: fmlookup_dom'_iff)
  with Cons assms(1) show ?case by (simp add: os_ReadFile_def map_get_Some)
qed simp

lemma ReadWAL_quiet:
  assumes "quiet e"
  shows "ReadWAL e w k fs = Inr (drop k (wal_bytes w fs))"
proof -
  let ?p = "dir_prefix (ws_dir w)" and ?ns = "sorted_list_of_set (wal_names w fs)"
  have "map (\<lambda>n. filepath_Join [ws_dir w, n]) ?ns = map ((@) ?p) ?ns"
    by (auto simp: filepath_Join_plain is_wal_plain)
  moreover have "sort (map ((@) ?p) ?ns) = map ((@) ?p) ?ns"
    by (simp add: sorted_map_prefix sort_key_id_if_sorted)
  ultimately have files: "sort (map (\<lambda>n. filepath_Join [ws_dir w, n]) ?ns) = map ((@) ?p) ?ns"
    by (simp only:)
  have "\<forall>n \<in> wal_names w fs. ?p @ n \<in> fmdom' fs"
    by (auto simp: wal_names_def dir_files_def)
  then have dom: "\<forall>f \<in> set (map ((@) ?p) ?ns). f \<in> fmdom' fs"
    by simp
  show ?thesis
    using read_files_quiet [OF assms dom, of "[]"]
    by (simp add: ReadWAL_def assms wal_names_list files)
      (simp add: wal_bytes_def wal_concat_def wal_file_def comp_def)
qed

lemma wal_concat_cong:
  "(\<And>n. n \<in> A \<Longrightarrow> wal_file w fs n = wal_file w fs' n) \<Longrightarrow> finite A \<Longrightarrow> wal_concat w fs A = wal_concat w fs' A"
  unfolding wal_concat_def by (intro arg_cong [where f = concat] map_cong) auto

lemma wal_concat_last:
  assumes "finite A" "\<And>n. n \<in> A \<Longrightarrow> n < m"
  shows "wal_concat w fs (insert m A) = wal_concat w fs A @ wal_scan (wal_file w fs m)"
proof -
  have "sorted (sorted_list_of_set A @ [m])"
    using assms by (auto simp: sorted_append less_imp_le)
  moreover have "distinct (sorted_list_of_set A @ [m])" "set (sorted_list_of_set A @ [m]) = insert m A"
    using assms by auto
  ultimately have "sorted_list_of_set (insert m A) = sorted_list_of_set A @ [m]"
    by (metis sorted_list_of_set.idem_if_sorted_distinct)
  then show ?thesis by (simp add: wal_concat_def)
qed

lemma wal_bytes_split:
  assumes "wal_ordered w fs"
  shows "wal_bytes w fs =
    wal_concat w fs (wal_names w fs - {''wal.log''}) @ wal_scan (wal_file w fs ''wal.log'')"
proof (cases "''wal.log'' \<in> wal_names w fs")
  case True
  have "n < ''wal.log''" if "n \<in> wal_names w fs - {''wal.log''}" for n
    using assms that unfolding wal_ordered_def by (metis Diff_iff insertCI order_le_imp_less_or_eq)
  then have "wal_concat w fs (insert ''wal.log'' (wal_names w fs - {''wal.log''})) =
      wal_concat w fs (wal_names w fs - {''wal.log''}) @ wal_scan (wal_file w fs ''wal.log'')"
    by (rule wal_concat_last [OF finite_Diff [OF finite_wal_names]])
  with True show ?thesis by (simp add: wal_bytes_def insert_absorb)
next
  case False
  then have "dir_prefix (ws_dir w) @ ''wal.log'' \<notin> fmdom' fs"
    by (auto simp: wal_names_def is_wal_def dir_files_def)
  then have "wal_file w fs ''wal.log'' = []"
    by (simp add: wal_file_def map_get_def fmdom'_notD)
  with False show ?thesis by (simp add: wal_bytes_def)
qed

lemma wal_names_fmupd:
  "plain_name n \<Longrightarrow> is_wal n \<Longrightarrow>
     wal_names w (fmupd (dir_prefix (ws_dir w) @ n) b fs) = insert n (wal_names w fs)"
  by (auto simp: wal_names_def dir_files_fmupd)

lemma wal_file_fmupd [simp]:
  "wal_file w (fmupd (dir_prefix (ws_dir w) @ n) b fs) m = (if m = n then b else wal_file w fs m)"
  by (simp add: wal_file_def)

lemma is_wal_log [simp]: "is_wal ''wal.log''"
  by (simp add: is_wal_def)

text \<open>Replacing the contents of the current file.\<close>

lemma wal_replace:
  assumes ord: "wal_ordered w fs" and fs': "fs' = fmupd (walPath w) b fs"
  shows "wal_ordered w fs'" "wal_file w fs' ''wal.log'' = b"
    "wal_bytes w fs' = wal_concat w fs (wal_names w fs - {''wal.log''}) @ wal_scan b"
proof -
  have names: "wal_names w fs' = insert ''wal.log'' (wal_names w fs)"
    by (simp add: fs' walPath_eq wal_names_fmupd)
  show ord': "wal_ordered w fs'" using ord by (simp add: wal_ordered_def names)
  show "wal_file w fs' ''wal.log'' = b" by (simp add: fs' walPath_eq)
  moreover have "wal_concat w fs' (wal_names w fs - {''wal.log''}) = wal_concat w fs (wal_names w fs - {''wal.log''})"
    by (rule wal_concat_cong) (auto simp: fs' walPath_eq)
  ultimately show "wal_bytes w fs' = wal_concat w fs (wal_names w fs - {''wal.log''}) @ wal_scan b"
    by (simp add: wal_bytes_split [OF ord'] names)
qed

section \<open>Appending\<close>

lemma write_frame_run:
  assumes "write_frame e p b fs = (err, fs')"
  shows "fs' = fs \<and> err \<noteq> None \<or>
    (\<exists>n. fs' = fmupd p (map_get [] fs p @ take n (frame_hdr (length b) @ b)) fs \<and>
      (err = None \<longrightarrow> n = 4 + length b))"
proof -
  have app: "\<exists>n. os_Append e p x fs = (r, fs1) \<longrightarrow>
      fs1 = fs \<and> r \<noteq> None \<or> fs1 = fmupd p (map_get [] fs p @ take n x) fs \<and> (r = None \<longrightarrow> n = length x)"
    for x fs r fs1
    by (cases "env_fault e (Os_Append p x)") (auto simp: os_Append_def Let_def)
  obtain r1 fs1 where 1: "os_Append e p (frame_hdr (length b)) fs = (r1, fs1)" by force
  with app obtain n1 where n1: "fs1 = fs \<and> r1 \<noteq> None \<or>
      fs1 = fmupd p (map_get [] fs p @ take n1 (frame_hdr (length b))) fs \<and> (r1 = None \<longrightarrow> n1 = 4)"
    by (metis length_frame_hdr)
  show ?thesis
  proof (cases r1)
    case None
    obtain r2 fs2 where 2: "os_Append e p b fs1 = (r2, fs2)" by force
    with app obtain n2 where n2: "fs2 = fs1 \<and> r2 \<noteq> None \<or>
        fs2 = fmupd p (map_get [] fs1 p @ take n2 b) fs1 \<and> (r2 = None \<longrightarrow> n2 = length b)"
      by metis
    have fs1: "fs1 = fmupd p (map_get [] fs p @ frame_hdr (length b)) fs" using n1 None by auto
    from assms 1 2 None have "fs' = fs2" "err = None \<longleftrightarrow> r2 = None"
      by (auto simp: write_frame_def split: option.splits)
    with n2 show ?thesis
    proof (elim disjE conjE)
      assume "fs2 = fs1" "r2 \<noteq> None" "fs' = fs2" "err = None \<longleftrightarrow> r2 = None"
      then show ?thesis by (intro disjI2 exI [of _ 4]) (auto simp: fs1)
    next
      assume "fs2 = fmupd p (map_get [] fs1 p @ take n2 b) fs1" "r2 = None \<longrightarrow> n2 = length b"
        "fs' = fs2" "err = None \<longleftrightarrow> r2 = None"
      then show ?thesis by (intro disjI2 exI [of _ "4 + n2"]) (auto simp: fs1)
    qed
  next
    case (Some x)
    with assms 1 have "fs' = fs1" "err \<noteq> None" by (auto simp: write_frame_def)
    with n1 Some show ?thesis
      by (elim disjE) (auto intro!: exI [of _ "min n1 4"] simp: min_def)
  qed
qed

lemma AppendWAL_run:
  assumes "AppendWAL e w b fs = (err, fs')"
  shows "fs' = fs \<and> err \<noteq> None \<or>
    (\<exists>n. fs' = fmupd (walPath w) (wal_file w fs ''wal.log'' @ take n (frame_hdr (length b) @ b)) fs \<and>
      (err = None \<longrightarrow> n = 4 + length b))"
proof (cases "os_ok e (Os_OpenFile (walPath w))")
  case True
  define fs1 where "fs1 = (if fmlookup fs (walPath w) = None then fmupd (walPath w) [] fs else fs)"
  from True assms have run: "write_frame e (walPath w) b fs1 = (err, fs')"
    by (simp add: AppendWAL_def os_OpenCreate_def fs1_def)
  have cont: "map_get [] fs1 (walPath w) = wal_file w fs ''wal.log''"
    by (simp add: fs1_def wal_file_def walPath_eq map_get_def)
  have same: "fmupd (walPath w) x fs1 = fmupd (walPath w) x fs" for x
    by (rule fmap_ext) (simp add: fs1_def)
  have idle: "fs1 = fs \<or> fs1 = fmupd (walPath w) (wal_file w fs ''wal.log'' @ take 0 x) fs" for x :: bytes
    by (simp add: fs1_def wal_file_def walPath_eq map_get_def)
  show ?thesis
    using write_frame_run [OF run] idle unfolding cont same by (metis zero_neq_numeral add_eq_0_iff_both_eq_0)
next
  case False
  with assms show ?thesis by (auto simp: AppendWAL_def os_OpenCreate_def)
qed

lemma AppendWAL_effect:
  assumes inv: "wal_inv w fs" and len: "length b < 2 ^ 32" and run: "AppendWAL e w b fs = (err, fs')"
  shows "wal_ordered w fs'" "wal_bytes w fs' \<in> {wal_bytes w fs, wal_bytes w fs @ b}"
    "err = None \<Longrightarrow> wal_inv w fs' \<and> wal_bytes w fs' = wal_bytes w fs @ b"
proof -
  have ord: "wal_ordered w fs" and clean: "wal_rest (wal_file w fs ''wal.log'') = []"
    using inv by (simp_all add: wal_inv_def)
  have "wal_ordered w fs' \<and> wal_bytes w fs' \<in> {wal_bytes w fs, wal_bytes w fs @ b} \<and>
      (err = None \<longrightarrow> wal_inv w fs' \<and> wal_bytes w fs' = wal_bytes w fs @ b)"
    using AppendWAL_run [OF run]
  proof (elim disjE exE conjE)
    fix n assume fs': "fs' = fmupd (walPath w) (wal_file w fs ''wal.log'' @ take n (frame_hdr (length b) @ b)) fs"
      and n: "err = None \<longrightarrow> n = 4 + length b"
    let ?t = "take n (frame_hdr (length b) @ b)"
    note rep = wal_replace [OF ord fs']
    have bytes: "wal_bytes w fs' = wal_bytes w fs @ wal_scan ?t"
      using wal_scan_append [OF clean, of ?t] by (simp add: rep(3) wal_bytes_split [OF ord])
    have full: "wal_scan ?t = b \<and> wal_rest ?t = []" if "4 + length b \<le> n"
      using that wal_scan_frame [OF len, of "[]"] by simp
    have part: "wal_scan ?t = []" if "n < 4 + length b"
      using that by (rule wal_scan_torn [OF len])
    have "err = None \<longrightarrow> wal_inv w fs'"
      using wal_scan_append [OF clean, of ?t] full n unfolding wal_inv_def rep(2) by (metis order_refl rep(1))
    with bytes full part n rep(1) show ?thesis by (cases "n < 4 + length b") auto
  qed (use ord in auto)
  then show "wal_ordered w fs'" "wal_bytes w fs' \<in> {wal_bytes w fs, wal_bytes w fs @ b}"
    "err = None \<Longrightarrow> wal_inv w fs' \<and> wal_bytes w fs' = wal_bytes w fs @ b" by auto
qed

section \<open>Rotation\<close>

text \<open>The name of a rotated file sorts before the current one, whatever the clock reads.\<close>

lemma hd_fmt_d: "hd (fmt_d x) = CHR ''-'' \<or> is_digit (hd (fmt_d x))"
  by (simp add: fmt_d_def hd_nat_dec)

lemma fmt_d_neq_Nil [simp]: "fmt_d x \<noteq> []"
  by (simp add: fmt_d_def)

lemma fmt_d_no_slash: "CHR ''/'' \<notin> set (fmt_d x)"
proof -
  have "CHR ''/'' \<notin> set (nat_dec n)" for n
    using all_digits_nat_dec [of n] by (auto simp: list_all_iff is_digit_def)
  then show ?thesis by (simp add: fmt_d_def)
qed

lemma rotated_name_less: "rotated_name (fmt_d x) < ''wal.log''"
proof -
  obtain c cs where c: "fmt_d x = c # cs" by (cases "fmt_d x") auto
  have "c < CHR ''l''"
    using hd_fmt_d [of x] c by (auto simp: less_char_def is_digit_def)
  then show ?thesis by (simp add: rotated_name_def c)
qed

lemma rotated_name_wal [simp]: "plain_name (rotated_name (fmt_d x))" "is_wal (rotated_name (fmt_d x))"
  using fmt_d_no_slash [of x] by (simp_all add: rotated_name_def is_wal_def plain_name_def)

text \<open>The clock is fresh for a directory when the new name sorts after all earlier rotated names.\<close>

definition fresh_ts :: "walStorage \<Rightarrow> fs \<Rightarrow> time \<Rightarrow> bool" where
  "fresh_ts w fs t \<longleftrightarrow> (\<forall>n \<in> wal_names w fs. n = ''wal.log'' \<or> n < rotated_name (fmt_d (UnixNano t)))"

lemma wal_names_fmdrop: "wal_names w (fmdrop (dir_prefix (ws_dir w) @ n) fs) = wal_names w fs - {n}"
  by (auto simp: wal_names_def dir_files_fmdrop)

lemma wal_file_fmdrop: "wal_file w (fmdrop (dir_prefix (ws_dir w) @ n) fs) m = (if m = n then [] else wal_file w fs m)"
  by (simp add: wal_file_def map_get_def)

lemma rotate_renamed:
  assumes ord: "wal_ordered w fs" and fresh: "fresh_ts w fs t"
    and fs': "fs' = fmupd (dir_prefix (ws_dir w) @ rotated_name (fmt_d (UnixNano t)))
      (wal_file w fs ''wal.log'') (fmdrop (walPath w) fs)"
  shows "wal_ordered w fs'" "wal_bytes w fs' = wal_bytes w fs" "''wal.log'' \<notin> wal_names w fs'"
proof -
  let ?r = "rotated_name (fmt_d (UnixNano t))" and ?A = "wal_names w fs - {''wal.log''}"
  have less: "?r < ''wal.log''" by (rule rotated_name_less)
  have names: "wal_names w fs' = insert ?r ?A"
    by (simp add: fs' wal_names_fmupd walPath_eq wal_names_fmdrop)
  show "wal_ordered w fs'" using ord less by (simp add: wal_ordered_def names)
  show "''wal.log'' \<notin> wal_names w fs'" using less by (auto simp: names)
  have "wal_bytes w fs' = wal_concat w fs' ?A @ wal_scan (wal_file w fs' ?r)"
    unfolding wal_bytes_def names using fresh
    by (intro wal_concat_last) (auto simp: fresh_ts_def)
  moreover have "wal_concat w fs' ?A = wal_concat w fs ?A"
    using fresh by (intro wal_concat_cong) (auto simp: fs' walPath_eq wal_file_fmdrop fresh_ts_def)
  ultimately show "wal_bytes w fs' = wal_bytes w fs"
    by (simp add: wal_bytes_split [OF ord]) (simp add: fs')
qed

lemma RotateWAL_effect:
  assumes ord: "wal_ordered w fs" and fresh: "fresh_ts w fs (env_clock e 0)"
    and run: "RotateWAL e w fs = (err, fs')"
  shows "wal_ordered w fs'" "wal_bytes w fs' = wal_bytes w fs"
    "err = None \<Longrightarrow> wal_inv w fs'"
proof -
  let ?r = "rotated_name (fmt_d (UnixNano (env_clock e 0)))"
  define fs1 where "fs1 = fmupd (dir_prefix (ws_dir w) @ ?r) (wal_file w fs ''wal.log'') (fmdrop (walPath w) fs)"
  note ren = rotate_renamed [OF ord fresh fs1_def]
  have gone: "wal_file w fs1 ''wal.log'' = []"
    using rotated_name_less [of "UnixNano (env_clock e 0)"] by (auto simp: fs1_def walPath_eq wal_file_fmdrop)
  note rep = wal_replace [OF ren(1) refl, of "[]"]
  have bytes: "wal_bytes w (fmupd (walPath w) [] fs1) = wal_bytes w fs"
    using rep(3) ren(2) wal_bytes_split [OF ren(1)] gone by simp
  have inv: "wal_inv w (fmupd (walPath w) [] fs1)" using rep(1,2) by (simp add: wal_inv_def)
  have absent: "wal_inv w fs" if "fmlookup fs (walPath w) = None"
    using that ord by (simp add: wal_inv_def wal_file_def walPath_eq map_get_None)
  have join: "filepath_Join [ws_dir w, ?r] = dir_prefix (ws_dir w) @ ?r"
    by (simp add: filepath_Join_plain)
  have moved: "fmlookup fs (walPath w) = Some b \<Longrightarrow> fmupd (dir_prefix (ws_dir w) @ ?r) b (fmdrop (walPath w) fs) = fs1" for b
    by (simp add: fs1_def wal_file_def walPath_eq map_get_Some)
  from run absent have "fs' = fs \<and> (err = None \<longrightarrow> wal_inv w fs) \<or> fs' = fs1 \<and> err \<noteq> None \<or> fs' = fmupd (walPath w) [] fs1"
    by (auto simp: RotateWAL_def os_Rename_def os_OpenTrunc_def join Let_def moved
        split: if_splits option.splits)
  then show "wal_ordered w fs'" "wal_bytes w fs' = wal_bytes w fs" "err = None \<Longrightarrow> wal_inv w fs'"
    using ord ren rep bytes inv by auto
qed

section \<open>Compaction\<close>

lemma keep_entries_indexed: "list_all (\<lambda>e. idx e > 0) ents \<Longrightarrow> keep_entries idx i ents = filter (\<lambda>e. idx e > i) ents"
  by (cases ents) (auto simp: keep_entries_def)

lemma keep_entries_unindexed:
  assumes "list_all (\<lambda>e. idx e = 0) ents"
  shows "keep_entries idx i ents = drop i ents"
proof -
  have "\<not> list_ex (\<lambda>e. idx e > 0) ents" using assms by (induction ents) auto
  moreover have "map snd (filter (\<lambda>(j, e). j + 1 > i) (zip [k..<k + length ents] ents)) = drop (i - k) ents" for k
  proof (induction ents arbitrary: k)
    case (Cons x xs)
    have "[k..<k + length (x # xs)] = k # [Suc k..<Suc k + length xs]" by (simp add: upt_rec del: upt_Suc)
    with Cons.IH [of "Suc k"] show ?case by (auto simp: drop_Cons' not_less simp del: upt_Suc)
  qed simp
  from this [of 0] have "map snd (filter (\<lambda>(j, e). j + 1 > i) (zip [0..<length ents] ents)) = drop i ents" by simp
  ultimately show ?thesis by (simp add: keep_entries_def)
qed

lemma os_Append_quiet: "quiet e \<Longrightarrow> os_Append e p b fs = (None, fmupd p (map_get [] fs p @ b) fs)"
  by (simp add: os_Append_def)

lemma write_frame_quiet:
  "quiet e \<Longrightarrow> write_frame e p b fs = (None, fmupd p (map_get [] fs p @ frame_hdr (length b) @ b) fs)"
  by (simp add: write_frame_def os_Append_quiet)

lemma remove_files_quiet:
  assumes "quiet e" "\<forall>n \<in> set ns. plain_name n"
  shows "dir_files d (remove_files e d ns fs) = dir_files d fs - set ns"
    "m \<notin> set ns \<Longrightarrow> fmlookup (remove_files e d ns fs) (dir_prefix d @ m) = fmlookup fs (dir_prefix d @ m)"
proof -
  have step: "snd (os_Remove e (filepath_Join [d, n]) fs) = fmdrop (dir_prefix d @ n) fs" if "plain_name n" for n fs
    using assms(1) that by (auto simp: os_Remove_def filepath_Join_plain intro!: fmap_ext)
  show "dir_files d (remove_files e d ns fs) = dir_files d fs - set ns"
    using assms(2) by (induction ns arbitrary: fs) (auto simp: remove_files_def step dir_files_fmdrop)
  show "fmlookup (remove_files e d ns fs) (dir_prefix d @ m) = fmlookup fs (dir_prefix d @ m)" if "m \<notin> set ns"
    using assms(2) that by (induction ns arbitrary: fs) (auto simp: remove_files_def step)
qed

lemma wal_Compact_quiet:
  assumes q: "quiet e" and ents: "unmarshalEntries unm (wal_bytes w fs) = Some ents"
    and b: "marshalEntries mar (keep_entries idx i ents) = Some b" and len: "length b < 2 ^ 32"
  obtains fs' where "wal_Compact idx mar unm e w i fs = (None, fs')" "wal_inv w fs'" "wal_bytes w fs' = b"
    "wal_names w fs' = {''wal.log''}"
proof -
  define fs1 where "fs1 = fmupd (walPath w) (frame_hdr (length b) @ b) fs"
  define ns where "ns = filter (\<lambda>name. name \<noteq> ''wal.log'' \<and> take 4 name = ''wal.'') (dir_names (ws_dir w) fs1)"
  define fs' where "fs' = remove_files e (ws_dir w) ns fs1"
  have read: "ReadWAL e w 0 fs = Inr (wal_bytes w fs)" by (simp add: ReadWAL_quiet q)
  have trunc: "os_OpenTrunc e (walPath w) fs = (None, fmupd (walPath w) [] fs)" by (simp add: os_OpenTrunc_def q)
  have wr: "write_frame e (walPath w) b (fmupd (walPath w) [] fs) = (None, fs1)"
    by (simp add: write_frame_quiet [OF q] fs1_def)
  have run: "wal_Compact idx mar unm e w i fs = (None, fs')"
    by (simp add: wal_Compact_def read ents b trunc wr os_ReadDir_quiet [OF q] fs'_def ns_def)
  have plain: "\<forall>n \<in> set ns. plain_name n"
    by (auto simp: ns_def set_dir_names dir_files_def plain_name_def)
  have files: "dir_files (ws_dir w) fs' = dir_files (ws_dir w) fs1 - set ns"
    unfolding fs'_def by (rule remove_files_quiet(1) [OF q plain])
  have log: "''wal.log'' \<notin> set ns" "''wal.log'' \<in> dir_files (ws_dir w) fs1"
    by (simp_all add: ns_def fs1_def walPath_eq dir_files_fmupd)
  have kept: "fmlookup fs' (dir_prefix (ws_dir w) @ ''wal.log'') = fmlookup fs1 (dir_prefix (ws_dir w) @ ''wal.log'')"
    unfolding fs'_def by (rule remove_files_quiet(2) [OF q plain log(1)])
  have "n \<in> wal_names w fs' \<longleftrightarrow> n = ''wal.log''" for n
  proof
    assume "n \<in> wal_names w fs'"
    then have "n \<in> dir_files (ws_dir w) fs1" "n \<notin> set ns" "is_wal n" by (simp_all add: wal_names_def files)
    then show "n = ''wal.log''" by (auto simp: ns_def set_dir_names is_wal_def)
  next
    assume "n = ''wal.log''"
    with log show "n \<in> wal_names w fs'" by (simp add: wal_names_def files)
  qed
  then have names: "wal_names w fs' = {''wal.log''}" by (simp add: set_eq_iff)
  have cont: "wal_file w fs' ''wal.log'' = frame_hdr (length b) @ b"
    by (simp add: wal_file_def map_get_def kept) (simp add: fs1_def walPath_eq)
  have "wal_bytes w fs' = b"
    using wal_scan_frame(1) [OF len, of "[]"] by (simp add: wal_bytes_def wal_concat_def names cont)
  moreover have "wal_inv w fs'"
    using wal_scan_frame(2) [OF len, of "[]"] by (simp add: wal_inv_def wal_ordered_def names cont)
  ultimately show ?thesis using that run names by blast
qed

section \<open>Snapshots\<close>

lemma io_Copy_quiet: "quiet e \<Longrightarrow> io_Copy e p (b, True) fs = (None, fmupd p (map_get [] fs p @ b) fs)"
  by (simp add: io_Copy_def os_Append_quiet)

lemma os_OpenTrunc_quiet: "quiet e \<Longrightarrow> os_OpenTrunc e p fs = (None, fmupd p [] fs)"
  by (simp add: os_OpenTrunc_def)

lemma os_Open_quiet: "quiet e \<Longrightarrow> fmlookup fs p = Some b \<Longrightarrow> os_Open e p fs = Inr (b, True)"
  by (simp add: os_Open_def)

lemma is_snap_plain: "n \<in> dir_files d fs \<Longrightarrow> is_snap n \<Longrightarrow> plain_name n"
proof -
  assume n: "n \<in> dir_files d fs" and "is_snap n"
  then have "length n > 9" by (simp add: is_snap_def)
  then have "n \<noteq> ''.''" "n \<noteq> ''..''" by auto
  with n show "plain_name n" by (simp add: dir_files_def plain_name_def)
qed

lemma snap_name_snap [simp]: "is_snap (snap_name (fmt_d x))" "plain_name (snap_name (fmt_d x))"
  using fmt_d_no_slash [of x] by (simp_all add: is_snap_def snap_name_def plain_name_def)

lemma latest_name_max:
  assumes "m \<in> set names" "is_snap m" "\<And>n. n \<in> set names \<Longrightarrow> is_snap n \<Longrightarrow> n \<le> m"
  shows "latest_name names = m"
proof -
  let ?f = "\<lambda>latest name. if is_snap name \<and> (latest = [] \<or> name > latest) then name else latest"
  have "foldl ?f z xs = m"
    if "m \<in> set xs \<or> z = m" "\<And>n. n \<in> set xs \<Longrightarrow> is_snap n \<Longrightarrow> n \<le> m" "z = [] \<or> z \<le> m" for xs z
    using that
  proof (induction xs arbitrary: z)
    case (Cons x xs)
    have ne: "m \<noteq> []" using assms(2) by (auto simp: is_snap_def)
    have *: "is_snap x \<Longrightarrow> x \<le> m" by (rule Cons.prems(2)) auto
    show ?case
      unfolding foldl_Cons
    proof (rule Cons.IH)
      show "m \<in> set xs \<or> ?f z x = m"
        using Cons.prems(1,3) * assms(2) ne by (auto simp: not_less)
      show "?f z x = [] \<or> ?f z x \<le> m"
        using Cons.prems(3) * by auto
    qed (use Cons.prems(2) in auto)
  qed auto
  with assms show ?thesis by (simp add: latest_name_def)
qed

text \<open>A clock is fresh for the snapshots of a directory when the new name is the largest.\<close>

definition fresh_snap :: "walStorage \<Rightarrow> fs \<Rightarrow> time \<Rightarrow> bool" where
  "fresh_snap w fs t \<longleftrightarrow> (\<forall>n \<in> dir_files (ws_dir w) fs. is_snap n \<longrightarrow> n \<le> snap_name (fmt_d (UnixNano t)))"

lemma save_then_load:
  assumes q: "quiet e" "quiet e'" and off: "ws_offload w = None" and fresh: "fresh_snap w fs (env_clock e 0)"
  obtains fs' where "SaveSnapshot e w (b, True) fs = (Inr (fmt_d (UnixNano (env_clock e 0))), fs')"
    "LoadSnapshot e' w fs' = (Inr (b, True), fs')"
proof -
  let ?n = "snap_name (fmt_d (UnixNano (env_clock e 0)))"
  define fs' where "fs' = fmupd (dir_prefix (ws_dir w) @ ?n) b fs"
  have "SaveSnapshot e w (b, True) fs = (Inr (fmt_d (UnixNano (env_clock e 0))), fs')"
    by (simp add: SaveSnapshot_def Let_def os_OpenTrunc_quiet io_Copy_quiet q off filepath_Join_plain fs'_def)
  moreover have files: "dir_files (ws_dir w) fs' = insert ?n (dir_files (ws_dir w) fs)"
    by (simp add: fs'_def dir_files_fmupd)
  have "latest_name (dir_names (ws_dir w) fs') = ?n"
    using fresh by (intro latest_name_max) (auto simp: set_dir_names files fresh_snap_def)
  moreover have "?n \<noteq> []" by (simp add: snap_name_def)
  ultimately show ?thesis
    using that [of fs'] q(2)
    by (simp add: LoadSnapshot_def filepath_Join_plain os_Open_quiet fs'_def os_open_result_def)
qed

lemma latest_key_max:
  assumes "keys \<noteq> []"
  shows "latest_key keys \<in> set keys \<and> (\<forall>k \<in> set keys. k \<le> latest_key keys)"
proof -
  let ?f = "\<lambda>latest k. if k > latest then k else (latest :: string)"
  have "foldl ?f z xs \<in> insert z (set xs) \<and> (\<forall>k \<in> insert z (set xs). k \<le> foldl ?f z xs)" for z xs
  proof (induction xs arbitrary: z)
    case (Cons x xs)
    obtain z' where z': "z' = ?f z x" by simp
    have step: "foldl ?f z (x # xs) = foldl ?f z' xs" by (simp add: z')
    have le: "z \<le> z'" "x \<le> z'" and mem: "z' = z \<or> z' = x" by (auto simp: z')
    from Cons.IH [of z'] have up: "z' \<le> foldl ?f z' xs" by blast
    show ?case unfolding step
      using Cons.IH [of z'] mem order_trans [OF le(1) up] order_trans [OF le(2) up] by auto
  qed simp
  from this [of "hd keys" keys] assms show ?thesis
    by (auto simp: latest_key_def)
qed

text \<open>
  Replacing a node whose disk is lost: the newest snapshot comes back from the object store, provided a
  listed object can be downloaded.
\<close>

lemma load_from_offload:
  assumes q: "quiet e" and off: "ws_offload w = Some off"
    and none: "\<And>n. n \<in> dir_files (ws_dir w) fs \<Longrightarrow> \<not> is_snap n"
    and ls: "off_List off e ''snapshots'' ''snapshot.'' fs = Inr keys" and k: "k \<in> set keys" "\<forall>k' \<in> set keys. k' \<le> k"
    and plain: "plain_name k"
    and dl: "off_Download off e ''snapshots'' k fs = Inr (b, True)"
  shows "LoadSnapshot e w fs = (Inr (b, True), fmupd (dir_prefix (ws_dir w) @ k) b fs)"
proof -
  have lk: "latest_key keys = k" using latest_key_max [of keys] k by (cases keys) (auto intro: antisym)
  let ?f = "\<lambda>latest name. if is_snap name \<and> (latest = [] \<or> name > latest) then name else latest"
  have "foldl ?f [] xs = []" if "\<forall>n \<in> set xs. \<not> is_snap n" for xs
    using that by (induction xs) auto
  then have "latest_name (dir_names (ws_dir w) fs) = []"
    using none by (simp add: latest_name_def set_dir_names)
  moreover have "keys \<noteq> []" using k by auto
  ultimately show ?thesis
    using q by (simp add: LoadSnapshot_def restore_snapshot_def off ls lk dl filepath_Join_plain plain
        os_OpenTrunc_quiet io_Copy_quiet os_Open_quiet os_open_result_def)
qed

text \<open>Purging keeps the newest snapshots, the others are removed.\<close>

lemma snap_names_list:
  "filter is_snap (dir_names d fs) = sorted_list_of_set {n \<in> dir_files d fs. is_snap n}"
proof -
  have "sorted (filter is_snap (dir_names d fs))" "distinct (filter is_snap (dir_names d fs))"
    using dir_names_sorted [of d fs] by (auto simp: sorted_wrt_filter)
  moreover have "set (filter is_snap (dir_names d fs)) = {n \<in> dir_files d fs. is_snap n}"
    by (auto simp: set_dir_names)
  ultimately show ?thesis
    by (metis sorted_list_of_set.idem_if_sorted_distinct)
qed

lemma drop_sorted_list_of_set:
  "finite A \<Longrightarrow> drop k (sorted_list_of_set A) = sorted_list_of_set (A - set (take k (sorted_list_of_set A)))"
proof -
  assume "finite A"
  let ?xs = "sorted_list_of_set A"
  have "sorted (drop k ?xs)" "distinct (drop k ?xs)" by (simp_all add: sorted_wrt_drop)
  moreover have "set (drop k ?xs) = set ?xs - set (take k ?xs)"
    using set_take_disj_set_drop_if_distinct [of ?xs k k] append_take_drop_id [of k ?xs]
      set_append [of "take k ?xs" "drop k ?xs"] by auto
  ultimately show ?thesis
    using \<open>finite A\<close> by (metis set_sorted_list_of_set sorted_list_of_set.idem_if_sorted_distinct)
qed

lemma purge_quiet:
  assumes q: "quiet e" and keep: "0 \<le> keep" and run: "PurgeOldSnapshots e w keep fs = (err, fs')"
    and snaps: "snaps = filter is_snap (dir_names (ws_dir w) fs)"
  shows "err = None" "filter is_snap (dir_names (ws_dir w) fs') = drop (length snaps - nat keep) snaps"
    "\<not> is_snap n \<Longrightarrow> n \<in> dir_files (ws_dir w) fs' \<longleftrightarrow> n \<in> dir_files (ws_dir w) fs"
proof -
  let ?k = "length snaps - nat keep" and ?A = "{n \<in> dir_files (ws_dir w) fs. is_snap n}"
  have snaps': "snaps = sorted_list_of_set ?A" by (simp add: snaps snap_names_list)
  have sub: "set (take ?k snaps) \<subseteq> ?A" using set_take_subset [of ?k snaps] by (simp add: snaps')
  have plain: "\<forall>n \<in> set (take ?k snaps). plain_name n"
    using sub is_snap_plain by blast
  have nat: "nat (int (length snaps) - keep) = ?k" using keep by simp
  have "err = None \<and> fs' = (if int (length snaps) \<le> keep then fs else remove_files e (ws_dir w) (take ?k snaps) fs)"
    using run keep q unfolding PurgeOldSnapshots_def os_ReadDir_quiet [OF q] sum.case snaps [symmetric] Let_def nat
    by (simp split: if_splits)
  then have err: "err = None" and files: "dir_files (ws_dir w) fs' = dir_files (ws_dir w) fs - set (take ?k snaps)"
    using remove_files_quiet(1) [OF q plain, of "ws_dir w" fs] by (auto split: if_splits)
  show "err = None" by (rule err)
  have "{n \<in> dir_files (ws_dir w) fs'. is_snap n} = ?A - set (take ?k snaps)" unfolding files by blast
  then show "filter is_snap (dir_names (ws_dir w) fs') = drop ?k snaps"
    unfolding snap_names_list snaps' by (subst drop_sorted_list_of_set) simp_all
  show "n \<in> dir_files (ws_dir w) fs' \<longleftrightarrow> n \<in> dir_files (ws_dir w) fs" if "\<not> is_snap n"
    unfolding files using that sub by blast
qed

section \<open>The object store contract\<close>

text \<open>
  What the log relies on of an object store: an uploaded object is listed under its key, is downloaded with
  its contents, and other objects are untouched.
\<close>

locale object_store =
  fixes upload :: "env \<Rightarrow> string \<Rightarrow> string \<Rightarrow> reader \<Rightarrow> 'w \<Rightarrow> (go_error + string) \<times> 'w"
    and download :: "env \<Rightarrow> string \<Rightarrow> string \<Rightarrow> 'w \<Rightarrow> go_error + reader"
    and list_keys :: "env \<Rightarrow> string \<Rightarrow> string \<Rightarrow> 'w \<Rightarrow> go_error + string list"
    and objects :: "'w \<Rightarrow> string \<Rightarrow> string \<Rightarrow> bytes option"
  assumes upload_ok: "plain_name bucket \<Longrightarrow> plain_name key \<Longrightarrow> upload e bucket key (b, True) s = (Inr loc, s') \<Longrightarrow>
      objects s' bucket key = Some b"
    and upload_other: "plain_name bucket \<Longrightarrow> plain_name key \<Longrightarrow> plain_name bucket' \<Longrightarrow> plain_name key' \<Longrightarrow>
      (bucket', key') \<noteq> (bucket, key) \<Longrightarrow> upload e bucket key r s = (res, s') \<Longrightarrow>
      objects s' bucket' key' = objects s bucket' key'"
    and upload_quiet: "quiet e \<Longrightarrow> \<exists>loc s'. upload e bucket key (b, True) s = (Inr loc, s')"
    and download_quiet: "quiet e \<Longrightarrow> plain_name bucket \<Longrightarrow> plain_name key \<Longrightarrow> objects s bucket key = Some b \<Longrightarrow>
      download e bucket key s = Inr (b, True)"
    and list_quiet: "quiet e \<Longrightarrow> plain_name bucket \<Longrightarrow> plain_name pre \<Longrightarrow>
      \<exists>keys. list_keys e bucket pre s = Inr keys \<and>
        set keys = {k. plain_name k \<and> objects s bucket k \<noteq> None \<and> take (length pre) k = pre}"
begin

lemma upload_download:
  assumes "plain_name bucket" "plain_name key" "upload e bucket key (b, True) s = (Inr loc, s')" "quiet e'"
  shows "download e' bucket key s' = Inr (b, True)"
  using assms upload_ok download_quiet by blast

text \<open>Objects uploaded in turn are all kept, the last upload of a key wins.\<close>

fun uploads :: "env \<Rightarrow> string \<Rightarrow> (string \<times> bytes) list \<Rightarrow> 'w \<Rightarrow> 'w" where
  "uploads e bucket [] s = s"
| "uploads e bucket ((k, b) # xs) s = uploads e bucket xs (snd (upload e bucket k (b, True) s))"

lemma uploads_kept:
  assumes "quiet e" "plain_name bucket" "plain_name k"
  shows "list_all (\<lambda>(k, b). plain_name k) xs \<Longrightarrow>
    objects (uploads e bucket xs s) bucket k = (case map_of (rev xs) k of None \<Rightarrow> objects s bucket k | Some b \<Rightarrow> Some b)"
proof (induction xs arbitrary: s)
  case (Cons x xs)
  obtain k' b where x: "x = (k', b)" by force
  obtain loc s' where up: "upload e bucket k' (b, True) s = (Inr loc, s')"
    using upload_quiet [OF assms(1)] by blast
  have "objects s' bucket k = (if k = k' then Some b else objects s bucket k)"
    using upload_ok [OF _ _ up] upload_other [OF _ _ _ _ _ up] assms Cons.prems by (auto simp: x)
  with Cons up show ?case by (auto simp: x map_add_def split: option.splits)
qed simp

end

definition local_objects :: "LocalOffloader \<Rightarrow> fs \<Rightarrow> string \<Rightarrow> string \<Rightarrow> bytes option" where
  "local_objects l fs bucket key = fmlookup fs (filepath_Join [lo_Dir l, bucket, key])"

lemma local_path:
  "plain_name bucket \<Longrightarrow> plain_name key \<Longrightarrow>
     filepath_Join [lo_Dir l, bucket, key] = dir_prefix (lo_Dir l) @ bucket @ CHR ''/'' # key"
  using filepath_Join_plains [of "[bucket, key]" "lo_Dir l"] by simp

lemma local_path2:
  "plain_name bucket \<Longrightarrow> plain_name key \<Longrightarrow>
     filepath_Join [filepath_Join [lo_Dir l, bucket], key] = filepath_Join [lo_Dir l, bucket, key]"
  by (simp add: local_path filepath_Join_plain dir_prefix_snoc)

lemma local_path_inject:
  assumes "plain_name bucket" "plain_name key" "plain_name bucket'" "plain_name key'"
  shows "filepath_Join [d, bucket, key] = filepath_Join [d, bucket', key'] \<longleftrightarrow> bucket = bucket' \<and> key = key'"
proof -
  have "split_char (CHR ''/'') (a @ CHR ''/'' # b) = [a, b]" if "plain_name a" "plain_name b" for a b
    using that by (simp add: split_char_append split_char_plain plain_name_def)
  then have "bucket @ CHR ''/'' # key = bucket' @ CHR ''/'' # key' \<Longrightarrow> bucket = bucket' \<and> key = key'"
    using assms by (metis list.inject)
  then show ?thesis
    using filepath_Join_plains [of "[bucket, key]" d] filepath_Join_plains [of "[bucket', key']" d] assms by auto
qed

lemma Local_Upload_quiet:
  "quiet e \<Longrightarrow> \<exists>loc fs'. Local_Upload l e bucket key (b, True) fs = (Inr loc, fs')"
  by (simp add: Local_Upload_def os_OpenTrunc_quiet io_Copy_quiet Let_def)

lemma Local_Upload_only:
  assumes "Local_Upload l e bucket key r fs = (res, fs')"
  shows "\<exists>x. fs' = fs \<or> fs' = fmupd (filepath_Join [filepath_Join [lo_Dir l, bucket], key]) x fs"
proof -
  let ?p = "filepath_Join [filepath_Join [lo_Dir l, bucket], key]"
  have copy: "\<exists>y. snd (io_Copy e ?p r (fmupd ?p [] fs)) = fmupd ?p y fs"
    by (cases "env_fault e (Os_Append ?p (fst r))") (auto simp: io_Copy_def os_Append_def Let_def)
  from assms consider "fs' = fs" | "fs' = snd (io_Copy e ?p r (fmupd ?p [] fs))"
    by (auto simp: Local_Upload_def os_OpenTrunc_def Let_def split: if_splits option.splits prod.splits)
  then show ?thesis using copy by cases auto
qed

lemma Local_Upload_ok:
  assumes "Local_Upload l e bucket key (b, True) fs = (Inr loc, fs')"
  shows "fmlookup fs' (filepath_Join [filepath_Join [lo_Dir l, bucket], key]) = Some b"
  using assms
  by (auto simp: Local_Upload_def os_OpenTrunc_def io_Copy_def os_Append_def Let_def
      split: if_splits option.splits prod.splits fault.splits)

lemma Local_List_quiet:
  assumes "quiet e" "plain_name bucket" "plain_name pre"
  shows "\<exists>keys. Local_List l e bucket pre fs = Inr keys \<and>
    set keys = {k. plain_name k \<and> local_objects l fs bucket k \<noteq> None \<and> take (length pre) k = pre}"
proof -
  have dir: "dir_prefix (filepath_Join [lo_Dir l, bucket]) = dir_prefix (lo_Dir l) @ bucket @ ''/''"
    using assms(2) by (simp add: filepath_Join_plain dir_prefix_snoc)
  have plain: "plain_name k" if "take (length pre) k = pre" "CHR ''/'' \<notin> set k" "k \<noteq> []" for k
    using that assms(3) by (cases pre rule: list.exhaust [case_product list.exhaust [of "tl pre"]])
      (auto simp: plain_name_def split: list.splits)
  have mem: "k \<in> dir_files (filepath_Join [lo_Dir l, bucket]) fs \<and> take (length pre) k = pre \<longleftrightarrow>
      plain_name k \<and> local_objects l fs bucket k \<noteq> None \<and> take (length pre) k = pre" for k
    using assms(2) plain [of k]
    by (auto simp: dir_files_def dir local_objects_def local_path fmlookup_dom'_iff plain_name_def)
  have "take (length pre) k = pre \<Longrightarrow> length pre \<le> length k" for k
    by (metis length_take min.cobounded1)
  then have "Local_List l e bucket pre fs =
      Inr (filter (\<lambda>k. take (length pre) k = pre) (dir_names (filepath_Join [lo_Dir l, bucket]) fs))"
    using assms(1,3) by (auto simp: Local_List_def plain_name_def intro: filter_cong)
  moreover have "set (filter (\<lambda>k. take (length pre) k = pre) (dir_names (filepath_Join [lo_Dir l, bucket]) fs)) =
      {k. plain_name k \<and> local_objects l fs bucket k \<noteq> None \<and> take (length pre) k = pre}"
    using mem by (simp add: set_dir_names set_eq_iff conj_commute)
  ultimately show ?thesis by blast
qed

interpretation local_store: object_store "Local_Upload l" "Local_Download l" "Local_List l" "local_objects l" for l
proof unfold_locales
  fix bucket key e b s loc s'
  assume "plain_name bucket" "plain_name key" "Local_Upload l e bucket key (b, True) s = (Inr loc, s')"
  then show "local_objects l s' bucket key = Some b"
    using Local_Upload_ok [of l e bucket key b s loc s'] by (simp add: local_objects_def local_path2)
next
  fix bucket key bucket' key' e r s res s'
  assume plain: "plain_name bucket" "plain_name key" "plain_name bucket'" "plain_name key'"
    and ne: "(bucket', key') \<noteq> (bucket, key)" and run: "Local_Upload l e bucket key r s = (res, s')"
  have "filepath_Join [lo_Dir l, bucket', key'] \<noteq> filepath_Join [lo_Dir l, bucket, key]"
    using ne plain by (simp add: local_path_inject)
  then show "local_objects l s' bucket' key' = local_objects l s bucket' key'"
    using Local_Upload_only [OF run] plain by (auto simp: local_objects_def local_path2)
next
  fix e bucket key b s
  assume "quiet e"
  then show "\<exists>loc s'. Local_Upload l e bucket key (b, True) s = (Inr loc, s')"
    by (rule Local_Upload_quiet)
next
  fix e bucket key s b
  assume "quiet e" "plain_name bucket" "plain_name key" "local_objects l s bucket key = Some b"
  then show "Local_Download l e bucket key s = Inr (b, True)"
    by (simp add: Local_Download_def local_objects_def os_Open_quiet)
next
  fix e bucket pre s
  assume "quiet e" "plain_name bucket" "plain_name pre"
  then show "\<exists>keys. Local_List l e bucket pre s = Inr keys \<and>
      set keys = {k. plain_name k \<and> local_objects l s bucket k \<noteq> None \<and> take (length pre) k = pre}"
    by (rule Local_List_quiet)
qed

section \<open>Properties of the log\<close>

text \<open>C9. An append to the write-ahead log under any failure of the operating system, partial writes included:
  what is read back afterwards is the old log or the old log with exactly the new bytes; when the append
  reports success, it is the latter, and the log is well formed again.
\<close>

theorem wal_append_atomic:
  assumes "wal_inv w fs" "length b < 2 ^ 32" "AppendWAL e w b fs = (err, fs')" "quiet e'"
  shows "\<exists>x. ReadWAL e' w k fs' = Inr (drop k (wal_bytes w fs @ x)) \<and> (x = [] \<or> x = b) \<and>
    (err = None \<longrightarrow> x = b \<and> wal_inv w fs')"
proof -
  note eff = AppendWAL_effect [OF assms(1-3)]
  obtain x where "wal_bytes w fs' = wal_bytes w fs @ x" "x = [] \<or> x = b" "err = None \<longrightarrow> x = b"
    using eff(2,3) by (cases "err = None") (auto simp: disj_commute)
  then show ?thesis
    using ReadWAL_quiet [OF assms(4)] eff(3) by auto
qed

definition sample_wal :: walStorage where
  "sample_wal = \<lparr> ws_dir = ''d'', ws_offload = None \<rparr>"

definition sample_wal_fs :: fs where
  "sample_wal_fs = fmupd ''d/wal.log'' (frame_hdr 2 @ ''ab'') fmempty"

definition torn_env :: env where
  "torn_env = \<lparr> env_fault = (\<lambda>c. case c of Os_Append _ _ \<Rightarrow> FailsAfter 3 | _ \<Rightarrow> Works), env_clock = (\<lambda>_. 0) \<rparr>"

lemma sample_wal_inv: "wal_inv sample_wal sample_wal_fs" "wal_bytes sample_wal sample_wal_fs = ''ab''"
proof -
  have pre: "dir_prefix ''d'' = ''d/''" by code_simp
  have names: "wal_names sample_wal sample_wal_fs = {''wal.log''}"
    by (auto simp: wal_names_def dir_files_def sample_wal_def sample_wal_fs_def pre)
  have "frame_hdr 2 @ ''ab'' = frame_hdr (length ''ab'') @ ''ab'' @ []" by (simp add: numeral_2_eq_2)
  then have "wal_scan (frame_hdr 2 @ ''ab'') = ''ab''" "wal_rest (frame_hdr 2 @ ''ab'') = []"
    using wal_scan_frame [of "''ab''" "[]"] by simp_all
  moreover have "wal_file sample_wal sample_wal_fs ''wal.log'' = frame_hdr 2 @ ''ab''"
    by (simp add: wal_file_def sample_wal_def sample_wal_fs_def pre)
  ultimately show "wal_inv sample_wal sample_wal_fs" "wal_bytes sample_wal sample_wal_fs = ''ab''"
    by (simp_all add: wal_inv_def wal_ordered_def wal_bytes_def wal_concat_def names)
qed

theorem wal_append_atomic_witness:
  "\<exists>x. ReadWAL calm_env sample_wal 0 (snd (AppendWAL torn_env sample_wal ''xyz'' sample_wal_fs)) =
      Inr (drop 0 (wal_bytes sample_wal sample_wal_fs @ x)) \<and> x \<in> {[], ''xyz''}"
  using wal_append_atomic [OF sample_wal_inv(1), of "''xyz''" torn_env
      "fst (AppendWAL torn_env sample_wal ''xyz'' sample_wal_fs)"
      "snd (AppendWAL torn_env sample_wal ''xyz'' sample_wal_fs)" calm_env 0]
  by auto

text \<open>A sequence of appends, with what each of them returned.\<close>

fun append_all :: "env \<Rightarrow> walStorage \<Rightarrow> bytes list \<Rightarrow> fs \<Rightarrow> go_error option list \<times> fs" where
  "append_all e w [] fs = ([], fs)"
| "append_all e w (d # ds) fs =
     (let (err, fs1) = AppendWAL e w d fs; (errs, fs2) = append_all e w ds fs1 in (err # errs, fs2))"

lemma wal_scan_short:
  assumes "length x < n" "n < 2 ^ 32"
  shows "wal_scan (frame_hdr n @ x) = []"
proof -
  define y where "y = x @ replicate (n - length x) (CHR 0x00)"
  have "length y = n" "take (4 + length x) (frame_hdr n @ y) = frame_hdr n @ x" using assms(1) by (simp_all add: y_def)
  then show ?thesis using wal_scan_torn [of y "4 + length x"] assms by simp
qed

lemma AppendWAL_works:
  assumes "quiet e"
  shows "AppendWAL e w d fs = (None, fmupd (walPath w) (wal_file w fs ''wal.log'' @ frame_hdr (length d) @ d) fs)"
proof -
  have "fmupd p x (fmupd p y fs) = fmupd p x fs" for p :: string and x y by (rule fmap_ext) simp
  then show ?thesis
    using assms by (auto simp: AppendWAL_def os_OpenCreate_def write_frame_quiet wal_file_def walPath_eq map_get_def)
qed

lemma append_all_quiet:
  assumes "quiet e"
  shows "append_all e w ds (fmupd (walPath w) f fs) =
    (replicate (length ds) None, fmupd (walPath w) (f @ concat (map (\<lambda>d. frame_hdr (length d) @ d) ds)) fs)"
proof (induction ds arbitrary: f)
  case (Cons d ds)
  have "fmupd p x (fmupd p y fs) = fmupd p x fs" for p :: string and x y by (rule fmap_ext) simp
  then have "AppendWAL e w d (fmupd (walPath w) f fs) = (None, fmupd (walPath w) (f @ frame_hdr (length d) @ d) fs)"
    by (simp add: AppendWAL_works [OF assms] walPath_eq)
  then show ?case by (simp add: Cons)
qed simp

lemma AppendWAL_torn:
  assumes "os_ok e (Os_OpenFile (walPath w))" "env_fault e (Os_Append (walPath w) (frame_hdr (length b))) = Works"
    and "env_fault e (Os_Append (walPath w) b) = FailsAfter k"
  shows "AppendWAL e w b fs = (Some (ErrOs (IOFault (Os_Append (walPath w) b))),
    fmupd (walPath w) (wal_file w fs ''wal.log'' @ frame_hdr (length b) @ take k b) fs)"
proof -
  have "fmupd p x (fmupd p y fs) = fmupd p x fs" for p :: string and x y by (rule fmap_ext) simp
  then show ?thesis
    using assms by (auto simp: AppendWAL_def os_OpenCreate_def write_frame_def os_Append_def wal_file_def walPath_eq map_get_def Let_def)
qed

text \<open>C22. The limit of that guarantee. When the disk takes the header of an append and only the first k bytes of its payload,
  the append reports an error and leaves a torn frame behind. Every sequence of later appends whose frames together
  are shorter than the missing part of the payload is then acknowledged in full by a disk that works, and none of it
  is read back: the reader takes the frames for the rest of the torn one, finds it incomplete and returns what the
  log held before.
\<close>

theorem wal_acknowledged_append_lost:
  assumes "wal_inv w fs" "length b < 2 ^ 32" "os_ok e (Os_OpenFile (walPath w))"
    and "env_fault e (Os_Append (walPath w) (frame_hdr (length b))) = Works"
    and "env_fault e (Os_Append (walPath w) b) = FailsAfter k"
    and "k + sum_list (map (\<lambda>d. 4 + length d) ds) < length b" "quiet e'"
  shows "case AppendWAL e w b fs of (err, fs1) \<Rightarrow> err \<noteq> None \<and>
    (case append_all e' w ds fs1 of (errs, fs2) \<Rightarrow>
       errs = replicate (length ds) None \<and> ReadWAL e' w n fs2 = Inr (drop n (wal_bytes w fs)))"
proof -
  have ord: "wal_ordered w fs" and clean: "wal_rest (wal_file w fs ''wal.log'') = []"
    using assms(1) by (simp_all add: wal_inv_def)
  define x where "x = take k b @ concat (map (\<lambda>d. frame_hdr (length d) @ d) ds)"
  have "length x < length b" using assms(6) by (simp add: x_def length_concat comp_def)
  then have "wal_scan (frame_hdr (length b) @ x) = []" by (rule wal_scan_short [OF _ assms(2)])
  then have "wal_bytes w (fmupd (walPath w) (wal_file w fs ''wal.log'' @ frame_hdr (length b) @ x) fs) = wal_bytes w fs"
    using wal_scan_append [OF clean, of "frame_hdr (length b) @ x"]
    by (simp add: wal_replace(3) [OF ord refl] wal_bytes_split [OF ord])
  then show ?thesis
    by (simp add: AppendWAL_torn [OF assms(3-5)] append_all_quiet [OF assms(7)] ReadWAL_quiet [OF assms(7)] x_def)
qed

definition torn_payload_env :: env where
  "torn_payload_env = \<lparr> env_fault = (\<lambda>c. if c = Os_Append ''d/wal.log'' ''0123456789'' then FailsAfter 2 else Works), env_clock = (\<lambda>_. 0) \<rparr>"

theorem wal_acknowledged_append_lost_witness:
  "case AppendWAL torn_payload_env sample_wal ''0123456789'' sample_wal_fs of (err, fs1) \<Rightarrow> err \<noteq> None \<and>
    (case append_all calm_env sample_wal [''pq''] fs1 of (errs, fs2) \<Rightarrow>
       errs = [None] \<and> ReadWAL calm_env sample_wal 0 fs2 = Inr ''ab'')"
proof -
  have h: "os_ok torn_payload_env (Os_OpenFile (walPath sample_wal))"
    "env_fault torn_payload_env (Os_Append (walPath sample_wal) (frame_hdr (length ''0123456789''))) = Works"
    "env_fault torn_payload_env (Os_Append (walPath sample_wal) ''0123456789'') = FailsAfter 2" by code_simp+
  have len: "length ''0123456789'' < 2 ^ 32" "2 + sum_list (map (\<lambda>d. 4 + length d) [''pq'']) < length ''0123456789''"
    "replicate (length [''pq'']) None = [None :: go_error option]" by simp_all
  show ?thesis
    using wal_acknowledged_append_lost [OF sample_wal_inv(1) len(1) h len(2) quiet_calm_env, of 0]
    unfolding len(3) by (simp only: sample_wal_inv(2) drop_0)
qed

text \<open>C13. Rotation keeps the log, whatever fails: what is read back after it is what was read back before.  A
  rotation that succeeds ends with a well-formed current file, so it also ends the effect of a torn frame.
\<close>

theorem wal_rotate_preserves:
  assumes "wal_ordered w fs" "fresh_ts w fs (env_clock e 0)" "RotateWAL e w fs = (err, fs')" "quiet e'"
  shows "ReadWAL e' w k fs' = ReadWAL e' w k fs \<and> (err = None \<longrightarrow> wal_inv w fs')"
  using RotateWAL_effect [OF assms(1-3)] ReadWAL_quiet [OF assms(4)] by auto

lemma sample_wal_fresh: "fresh_ts sample_wal sample_wal_fs t"
proof -
  have pre: "dir_prefix ''d'' = ''d/''" by code_simp
  show ?thesis
    by (auto simp: fresh_ts_def wal_names_def dir_files_def sample_wal_def sample_wal_fs_def pre)
qed

theorem wal_rotate_preserves_witness:
  "ReadWAL calm_env sample_wal 0 (snd (RotateWAL calm_env sample_wal sample_wal_fs)) = Inr ''ab''"
proof -
  have "wal_ordered sample_wal sample_wal_fs" using sample_wal_inv(1) by (simp add: wal_inv_def)
  from wal_rotate_preserves [OF this sample_wal_fresh prod.collapse [symmetric] quiet_calm_env]
  have "ReadWAL calm_env sample_wal 0 (snd (RotateWAL calm_env sample_wal sample_wal_fs)) =
      ReadWAL calm_env sample_wal 0 sample_wal_fs" by blast
  then show ?thesis by (simp add: ReadWAL_quiet sample_wal_inv(2))
qed

text \<open>C14. Compaction of a log of indexed entries at an index: it succeeds, and the entries read back are exactly
  those above the index, in their order, in one file.  The protobuf codec of the entries is assumed to decode
  what it encoded.
\<close>

theorem wal_compact_keeps_later:
  assumes "proto_codec mar unm" "quiet e" "quiet e'"
    and "marshalEntries mar ents = Some (wal_bytes w fs)" "length (wal_bytes w fs) < 2 ^ 32"
    and "list_all (\<lambda>e. idx e > 0) ents"
  shows "case wal_Compact idx mar unm e w i fs of (err, fs') \<Rightarrow> err = None \<and>
    (case ReadWAL e' w 0 fs' of Inl _ \<Rightarrow> False
     | Inr d \<Rightarrow> unmarshalEntries unm d = Some (filter (\<lambda>e. idx e > i) ents))"
proof -
  have part: "\<exists>b. marshalEntries mar (filter P xs) = Some b \<and> length b \<le> length a"
    if "marshalEntries mar xs = Some a" for P xs a
    using that
  proof (induction xs arbitrary: a)
    case (Cons x xs)
    then obtain c out where c: "mar x = Some c" "marshalEntries mar xs = Some out" and a: "a = frame_hdr (length c) @ c @ out"
      by (auto split: option.splits)
    from Cons.IH [OF c(2)] obtain b where "marshalEntries mar (filter P xs) = Some b" "length b \<le> length out" by blast
    then show ?case by (cases "P x") (auto simp: c a)
  qed simp
  obtain b where b: "marshalEntries mar (filter (\<lambda>e. idx e > i) ents) = Some b" "length b \<le> length (wal_bytes w fs)"
    using part [OF assms(4)] by blast
  have "unmarshalEntries unm (wal_bytes w fs) = Some ents"
    using entries_roundtrip [OF assms(1,4)] .
  moreover have "marshalEntries mar (keep_entries idx i ents) = Some b"
    by (simp add: keep_entries_indexed assms(6) b(1))
  moreover have "length b < 2 ^ 32" using b(2) assms(5) by linarith
  ultimately obtain fs' where "wal_Compact idx mar unm e w i fs = (None, fs')" "wal_bytes w fs' = b"
    using wal_Compact_quiet [OF assms(2)] by blast
  then show ?thesis
    using entries_roundtrip [OF assms(1) b(1)] by (simp add: ReadWAL_quiet assms(3))
qed

text \<open>A codec for the witness: an entry is its index below 256, in one byte.\<close>

definition byte_mar :: "nat \<Rightarrow> bytes option" where
  "byte_mar n = (if n < 256 then Some [char_of n] else None)"

definition byte_unm :: "bytes \<Rightarrow> nat option" where
  "byte_unm b = (case b of [c] \<Rightarrow> Some (of_char c) | _ \<Rightarrow> None)"

lemma byte_proto_codec: "proto_codec byte_mar byte_unm"
  by (auto simp: proto_codec_def byte_mar_def byte_unm_def split: if_splits)

definition sample_entries_fs :: fs where
  "sample_entries_fs = snd (AppendWAL calm_env sample_wal (the (marshalEntries byte_mar [3, 4, 7])) fmempty)"

lemma sample_entries_bytes: "Some (wal_bytes sample_wal sample_entries_fs) = marshalEntries byte_mar [3, 4, 7]"
proof -
  have "ReadWAL calm_env sample_wal 0 sample_entries_fs = Inr (the (marshalEntries byte_mar [3, 4, 7]))"
    by code_simp
  moreover have "marshalEntries byte_mar [3, 4, 7] \<noteq> None" by code_simp
  ultimately show ?thesis by (auto simp: ReadWAL_quiet)
qed

theorem wal_compact_keeps_later_witness:
  "case wal_Compact id byte_mar byte_unm calm_env sample_wal 3 sample_entries_fs of (err, fs') \<Rightarrow> err = None \<and>
    (case ReadWAL calm_env sample_wal 0 fs' of Inl _ \<Rightarrow> False | Inr d \<Rightarrow> unmarshalEntries byte_unm d = Some [4, 7])"
proof -
  have "length (the (marshalEntries byte_mar [3, 4, 7])) < 100" by code_simp
  then have "length (wal_bytes sample_wal sample_entries_fs) < 2 ^ 32"
    unfolding sample_entries_bytes [symmetric] option.sel by simp
  moreover have "list_all (\<lambda>e. id e > 0) [3, 4, 7 :: nat]" "filter (\<lambda>e. id e > 3) [3, 4, 7 :: nat] = [4, 7]" by simp_all
  ultimately show ?thesis
    using wal_compact_keeps_later [OF byte_proto_codec quiet_calm_env quiet_calm_env sample_entries_bytes [symmetric], of id 3]
    by (simp only:)
qed

text \<open>
  Saving with an object store, then losing the disk: the next load finds no snapshot in the directory, lists
  the store, downloads the newest object and keeps a local copy.
\<close>

lemma snapshot_offload_restore:
  assumes store: "object_store (off_Upload off) (off_Download off) (off_List off) objects"
    and q: "quiet e" "quiet e'" and off: "ws_offload w = Some off"
    and save: "SaveSnapshot e w (b, True) fs = (Inr sid, fs1)"
    and kept: "\<And>k. plain_name k \<Longrightarrow> objects fs2 ''snapshots'' k = objects fs1 ''snapshots'' k"
    and newest: "\<And>k. plain_name k \<Longrightarrow> is_snap k \<or> k = ''snapshot.'' \<Longrightarrow> objects fs1 ''snapshots'' k \<noteq> None \<Longrightarrow> k \<le> snap_name sid"
    and lost: "\<And>n. n \<in> dir_files (ws_dir w) fs2 \<Longrightarrow> \<not> is_snap n"
  shows "LoadSnapshot e' w fs2 = (Inr (b, True), fmupd (dir_prefix (ws_dir w) @ snap_name sid) b fs2)"
proof -
  have sid: "sid = fmt_d (UnixNano (env_clock e 0))"
    using save by (auto simp: SaveSnapshot_def Let_def split: option.splits prod.splits sum.splits)
  have plain: "plain_name (snap_name sid)" "plain_name ''snapshots''" "plain_name ''snapshot.''"
    by (simp_all add: sid) (simp_all add: plain_name_def)
  have "snd (off_Upload off e ''snapshots'' (snap_name sid) (b, True)
      (fmupd (dir_prefix (ws_dir w) @ snap_name sid) b fs)) = fs1"
    using save plain(1) by (simp add: SaveSnapshot_def Let_def off sid os_OpenTrunc_quiet io_Copy_quiet q(1)
        filepath_Join_plain os_Open_quiet)
  moreover obtain loc s' where up: "off_Upload off e ''snapshots'' (snap_name sid) (b, True)
      (fmupd (dir_prefix (ws_dir w) @ snap_name sid) b fs) = (Inr loc, s')"
    using object_store.upload_quiet [OF store q(1)] by blast
  ultimately have obj: "objects fs2 ''snapshots'' (snap_name sid) = Some b"
    using object_store.upload_ok [OF store plain(2,1) up] kept [OF plain(1)] by simp
  obtain keys where ls: "off_List off e' ''snapshots'' ''snapshot.'' fs2 = Inr keys" and
    keys: "set keys = {k. plain_name k \<and> objects fs2 ''snapshots'' k \<noteq> None \<and> take (length ''snapshot.'') k = ''snapshot.''}"
    using object_store.list_quiet [OF store q(2) plain(2,3)] by blast
  have snap: "is_snap k \<or> k = ''snapshot.''" if "take (length ''snapshot.'') k = ''snapshot.''" for k
  proof -
    have nine: "length ''snapshot.'' = 9" by simp
    show ?thesis
      using that unfolding nine by (cases "length k > 9") (simp_all add: is_snap_def)
  qed
  have mem: "snap_name sid \<in> set keys" using plain obj by (simp add: keys) (simp add: snap_name_def)
  have max: "\<forall>k \<in> set keys. k \<le> snap_name sid"
  proof
    fix k assume "k \<in> set keys"
    then have k: "plain_name k" "objects fs2 ''snapshots'' k \<noteq> None" "take (length ''snapshot.'') k = ''snapshot.''"
      unfolding keys by blast+
    show "k \<le> snap_name sid"
      using newest [OF k(1) snap [OF k(3)]] k(2) kept [OF k(1)] by simp
  qed
  have dl: "off_Download off e' ''snapshots'' (snap_name sid) fs2 = Inr (b, True)"
    using obj by (simp add: object_store.download_quiet [OF store q(2) plain(2,1)])
  show ?thesis
    by (rule load_from_offload [OF q(2) off lost ls mem max plain(1) dl])
qed

lemma local_offloader_store:
  "object_store (off_Upload (local_offloader l)) (off_Download (local_offloader l)) (off_List (local_offloader l)) (local_objects l)"
  by (simp add: local_offloader_def local_store.object_store_axioms)

text \<open>C15. A node that saved a snapshot with a local object store and then lost its own directory restores that
  snapshot: if the objects are still there and the saved one is the newest, the load returns its contents and
  leaves a local copy.
\<close>

theorem snapshot_survives_disk_loss:
  assumes "quiet e" "quiet e'" "ws_offload w = Some (local_offloader l)"
    and "SaveSnapshot e w (b, True) fs = (Inr sid, fs1)"
    and "\<And>k. plain_name k \<Longrightarrow> local_objects l fs2 ''snapshots'' k = local_objects l fs1 ''snapshots'' k"
    and "\<And>k. plain_name k \<Longrightarrow> is_snap k \<or> k = ''snapshot.'' \<Longrightarrow> local_objects l fs1 ''snapshots'' k \<noteq> None \<Longrightarrow> k \<le> snap_name sid"
    and "\<And>n. n \<in> dir_files (ws_dir w) fs2 \<Longrightarrow> \<not> is_snap n"
  shows "LoadSnapshot e' w fs2 = (Inr (b, True), fmupd (dir_prefix (ws_dir w) @ snap_name sid) b fs2)"
  by (rule snapshot_offload_restore [OF local_offloader_store assms])

definition sample_off_wal :: walStorage where
  "sample_off_wal = \<lparr> ws_dir = ''d'', ws_offload = Some (local_offloader (NewLocalOffloader ''o'')) \<rparr>"

definition epoch_env :: env where
  "epoch_env = \<lparr> env_fault = (\<lambda>_. Works), env_clock = (\<lambda>_. 62135596800000000005) \<rparr>"

definition sample_lost_fs :: fs where
  "sample_lost_fs = fmupd ''o/snapshots/snapshot.5.snap'' ''state'' fmempty"

theorem snapshot_survives_disk_loss_witness:
  "LoadSnapshot calm_env sample_off_wal sample_lost_fs =
     (Inr (''state'', True), fmupd (dir_prefix (ws_dir sample_off_wal) @ snap_name ''5'') ''state'' sample_lost_fs)"
proof -
  let ?l = "NewLocalOffloader ''o''"
  define fs1 where "fs1 = fmupd ''d/snapshot.5.snap'' ''state'' sample_lost_fs"
  have pre: "dir_prefix ''d'' = ''d/''" "dir_prefix ''o'' = ''o/''" by code_simp+
  have save: "SaveSnapshot epoch_env sample_off_wal (''state'', True) fmempty = (Inr ''5'', fs1)"
  proof -
    have "UnixNano (env_clock epoch_env 0) = 5" by (simp add: UnixNano_def int64_range_def epoch_env_def)
    moreover have "fmt_d 5 = ''5''" by code_simp
    moreover have "quiet epoch_env" by (simp add: quiet_def epoch_env_def)
    moreover have "plain_name (snap_name ''5'')" "snap_name ''5'' = ''snapshot.5.snap''" by code_simp+
    moreover have "filepath_Join [filepath_Join [''o'', ''snapshots''], snap_name ''5''] = ''o/snapshots/snapshot.5.snap''"
      by code_simp
    moreover have "fmupd ''o/snapshots/snapshot.5.snap'' ''state'' (fmupd ''d/snapshot.5.snap'' ''state'' fmempty) =
        fmupd ''d/snapshot.5.snap'' ''state'' (fmupd ''o/snapshots/snapshot.5.snap'' ''state'' fmempty)"
      by (rule fmap_ext) simp
    ultimately show ?thesis
      by (simp add: SaveSnapshot_def sample_off_wal_def Let_def os_OpenTrunc_quiet io_Copy_quiet filepath_Join_plain pre
          os_Open_quiet local_offloader_def Local_Upload_def NewLocalOffloader_def fs1_def sample_lost_fs_def)
  qed
  have obj: "local_objects ?l fs ''snapshots'' k = fmlookup fs (''o/snapshots/'' @ k)" if "plain_name k" for k fs
    using that local_path [of "''snapshots''" k ?l] by (simp add: local_objects_def NewLocalOffloader_def pre plain_name_def)
  show ?thesis
  proof (rule snapshot_survives_disk_loss [OF _ quiet_calm_env _ save])
    show "quiet epoch_env" by (simp add: quiet_def epoch_env_def)
    show "ws_offload sample_off_wal = Some (local_offloader ?l)" by (simp add: sample_off_wal_def)
    show "local_objects ?l sample_lost_fs ''snapshots'' k = local_objects ?l fs1 ''snapshots'' k" if "plain_name k" for k
      by (simp add: obj that fs1_def)
    show "k \<le> snap_name ''5''" if "plain_name k" "local_objects ?l fs1 ''snapshots'' k \<noteq> None" for k
      using that by (simp add: obj fs1_def sample_lost_fs_def snap_name_def split: if_splits)
    show "\<not> is_snap n" if "n \<in> dir_files (ws_dir sample_off_wal) sample_lost_fs" for n
      using that by (auto simp: dir_files_def sample_lost_fs_def sample_off_wal_def pre)
  qed
qed

text \<open>
  Purging the snapshots of a node keeps the newest ones, as many as asked for, removes the others and
  touches no other file of the directory.
\<close>

theorem purge_keeps_newest:
  assumes "quiet e" "0 \<le> keep"
  shows "case PurgeOldSnapshots e w keep fs of (err, fs') \<Rightarrow>
    err = None \<and>
    filter is_snap (dir_names (ws_dir w) fs') =
      drop (length (filter is_snap (dir_names (ws_dir w) fs)) - nat keep) (filter is_snap (dir_names (ws_dir w) fs)) \<and>
    (\<forall>n. \<not> is_snap n \<longrightarrow> n \<in> dir_files (ws_dir w) fs' \<longleftrightarrow> n \<in> dir_files (ws_dir w) fs)"
proof (cases "PurgeOldSnapshots e w keep fs")
  case (Pair err fs')
  from purge_quiet [OF assms this refl] show ?thesis unfolding Pair prod.case by blast
qed

definition sample_snaps :: fs where
  "sample_snaps = fmupd ''d/snapshot.1.snap'' ''a'' (fmupd ''d/snapshot.2.snap'' ''b'' (fmupd ''d/snapshot.3.snap'' ''c'' fmempty))"

theorem purge_keeps_newest_witness:
  "filter is_snap (dir_names ''d'' (snd (PurgeOldSnapshots calm_env sample_wal 2 sample_snaps))) =
     [''snapshot.2.snap'', ''snapshot.3.snap'']"
proof -
  have "filter is_snap (dir_names ''d'' sample_snaps) = [''snapshot.1.snap'', ''snapshot.2.snap'', ''snapshot.3.snap'']"
    by code_simp
  then show ?thesis
    using purge_keeps_newest [OF quiet_calm_env, of 2 sample_wal sample_snaps]
    by (simp add: case_prod_beta sample_wal_def)
qed

end
