(* ===== verification/Raft_Node.thy ===== *)
theory Raft_Node
  imports Raft_Wal Go_Json "HOL-Library.FSet"
begin

text \<open>
  The Raft node around the log (\<^verbatim>\<open>broker/internal/raft\<close>): the storage interface and its two implementations
  (\<^verbatim>\<open>storage.go\<close>, \<^verbatim>\<open>wal.go\<close>), the adapters to the etcd library (\<^verbatim>\<open>persistent_storage.go\<close>, \<^verbatim>\<open>persistent_mem.go\<close>), the
  start and the ready loop of \<^verbatim>\<open>node.go\<close>, the in-sync replica set (\<^verbatim>\<open>isr.go\<close>), the in-process transport and the
  checkpoint scheduler.  The etcd library itself is third-party: the record \<open>raftlib\<close> collects what the node calls.
\<close>

section \<open>Storage\<close>

datatype storage = Mem_Storage | Wal_Storage walStorage

definition Storage_SaveSnapshot :: "env \<Rightarrow> storage \<Rightarrow> reader \<Rightarrow> fs \<Rightarrow> (go_error + string) \<times> fs" where
  "Storage_SaveSnapshot e st r fs =
     (case st of Mem_Storage \<Rightarrow> (Inr [], fs) | Wal_Storage w \<Rightarrow> SaveSnapshot e w r fs)"

definition Storage_LoadSnapshot :: "env \<Rightarrow> storage \<Rightarrow> fs \<Rightarrow> (go_error + reader option) \<times> fs" where
  "Storage_LoadSnapshot e st fs =
     (case st of
        Mem_Storage \<Rightarrow> (Inr None, fs)
      | Wal_Storage w \<Rightarrow>
          (case LoadSnapshot e w fs of (Inl err, fs1) \<Rightarrow> (Inl err, fs1) | (Inr rc, fs1) \<Rightarrow> (Inr (Some rc), fs1)))"

definition Storage_AppendWAL :: "env \<Rightarrow> storage \<Rightarrow> bytes \<Rightarrow> fs \<Rightarrow> go_error option \<times> fs" where
  "Storage_AppendWAL e st b fs =
     (case st of Mem_Storage \<Rightarrow> (None, fs) | Wal_Storage w \<Rightarrow> AppendWAL e w b fs)"

definition Storage_ReadWAL :: "env \<Rightarrow> storage \<Rightarrow> nat \<Rightarrow> fs \<Rightarrow> go_error + bytes" where
  "Storage_ReadWAL e st i fs = (case st of Mem_Storage \<Rightarrow> Inr [] | Wal_Storage w \<Rightarrow> ReadWAL e w i fs)"

section \<open>Adapters to the library\<close>

record ('e, 's, 'm, 'g) raftlib =
  rl_Index :: "'e \<Rightarrow> nat"
  rl_Term :: "'e \<Rightarrow> nat"
  rl_Marshal :: "'e \<Rightarrow> bytes option"
  rl_Unmarshal :: "bytes \<Rightarrow> 'e option"
  rl_Snapshot :: "bytes \<Rightarrow> 's"
  rl_IsEmptySnap :: "'s \<Rightarrow> bool"
  rl_Append :: "'e list \<Rightarrow> 'm \<Rightarrow> go_error option \<times> 'm"
  rl_ApplySnapshot :: "'s \<Rightarrow> 'm \<Rightarrow> go_error option \<times> 'm"
  rl_To :: "'g \<Rightarrow> nat"
  rl_MarshalMsg :: "'g \<Rightarrow> bytes option"

record 'e walAdapter =
  wa_ents :: "'e list"

definition NewEtcdStorageAdapter :: "(bytes \<Rightarrow> 'e option) \<Rightarrow> env \<Rightarrow> storage \<Rightarrow> fs \<Rightarrow> 'e walAdapter" where
  "NewEtcdStorageAdapter unm e st fs =
     (case Storage_ReadWAL e st 0 fs of
        Inl _ \<Rightarrow> \<lparr> wa_ents = [] \<rparr>
      | Inr data \<Rightarrow>
          (if data = [] then \<lparr> wa_ents = [] \<rparr>
           else case unmarshalEntries unm data of
                  None \<Rightarrow> \<lparr> wa_ents = [] \<rparr>
                | Some ents \<Rightarrow> \<lparr> wa_ents = ents \<rparr>))"

definition ErrUnavailable :: go_error where
  "ErrUnavailable = Err ''requested entry at index is unavailable''"

fun entries_loop :: "('e \<Rightarrow> nat) \<Rightarrow> nat \<Rightarrow> nat \<Rightarrow> nat \<Rightarrow> 'e list \<Rightarrow> 'e list \<Rightarrow> 'e list" where
  "entries_loop idx lo hi maxSize out [] = out"
| "entries_loop idx lo hi maxSize out (e # es) =
     (if idx e \<ge> lo \<and> idx e < hi then
        (let out' = out @ [e]
         in if maxSize > 0 \<and> length out' \<ge> maxSize then out' else entries_loop idx lo hi maxSize out' es)
      else entries_loop idx lo hi maxSize out es)"

definition wa_Entries :: "('e \<Rightarrow> nat) \<Rightarrow> 'e walAdapter \<Rightarrow> nat \<Rightarrow> nat \<Rightarrow> nat \<Rightarrow> go_error + 'e list" where
  "wa_Entries idx a lo hi maxSize =
     (let out = entries_loop idx lo hi maxSize [] (wa_ents a) in if out = [] then Inl ErrUnavailable else Inr out)"

definition wa_Term :: "('e \<Rightarrow> nat) \<Rightarrow> ('e \<Rightarrow> nat) \<Rightarrow> 'e walAdapter \<Rightarrow> nat \<Rightarrow> go_error + nat" where
  "wa_Term idx trm a i =
     (if i = 0 then Inr 0
      else case find (\<lambda>e. idx e = i) (wa_ents a) of None \<Rightarrow> Inl ErrUnavailable | Some e \<Rightarrow> Inr (trm e))"

definition wa_LastIndex :: "('e \<Rightarrow> nat) \<Rightarrow> 'e walAdapter \<Rightarrow> nat" where
  "wa_LastIndex idx a = (if wa_ents a = [] then 0 else idx (wa_ents a ! (length (wa_ents a) - 1)))"

definition wa_FirstIndex :: "('e \<Rightarrow> nat) \<Rightarrow> 'e walAdapter \<Rightarrow> nat" where
  "wa_FirstIndex idx a = (if wa_ents a = [] then 1 else idx (wa_ents a ! 0))"

text \<open>\<^verbatim>\<open>persistentMemory.Append\<close>: the log first, the library's memory storage after it.\<close>

definition pm_Append ::
  "('e, 's, 'm, 'g) raftlib \<Rightarrow> env \<Rightarrow> storage \<Rightarrow> 'e list \<Rightarrow> 'm \<Rightarrow> fs \<Rightarrow> go_error option \<times> 'm \<times> fs" where
  "pm_Append rl e st ents m fs =
     (if ents = [] then (None, m, fs)
      else case marshalEntries (rl_Marshal rl) ents of
             None \<Rightarrow> (Some (Err ''proto''), m, fs)
           | Some b \<Rightarrow>
               (case Storage_AppendWAL e st b fs of
                  (Some err, fs1) \<Rightarrow> (Some err, m, fs1)
                | (None, fs1) \<Rightarrow> (case rl_Append rl ents m of (err, m1) \<Rightarrow> (err, m1, fs1))))"

section \<open>The node\<close>

record node =
  nd_id :: nat
  nd_store :: "storage option"
  nd_peerAddrs :: "(nat, string) fmap option"
  nd_running :: bool
  nd_stopped :: bool

definition NewNode :: "nat \<Rightarrow> storage option \<Rightarrow> node" where
  "NewNode i store = \<lparr> nd_id = i, nd_store = store, nd_peerAddrs = None, nd_running = False, nd_stopped = False \<rparr>"

text \<open>
  The first part of \<^verbatim>\<open>Start\<close>: the memory storage is filled from the newest snapshot and the log; the result says
  whether later entries go through \<^verbatim>\<open>persistentMemory\<close>.  The environments are those of its three storage calls.
\<close>

definition Start_restore ::
  "('e, 's, 'm, 'g) raftlib \<Rightarrow> (nat \<Rightarrow> env) \<Rightarrow> node \<Rightarrow> 'm \<Rightarrow> fs \<Rightarrow> bool \<times> 'm \<times> fs" where
  "Start_restore rl es n mem fs =
     (case nd_store n of
        None \<Rightarrow> (False, mem, fs)
      | Some st \<Rightarrow>
          (let (m1, fs1) =
             (case Storage_LoadSnapshot (es 0) st fs of
                (Inr (Some (snapBytes, _)), fs1) \<Rightarrow>
                  (if snapBytes = [] then mem else snd (rl_ApplySnapshot rl (rl_Snapshot rl snapBytes) mem), fs1)
              | (_, fs1) \<Rightarrow> (mem, fs1))
           in case Storage_ReadWAL (es 1) st 0 fs1 of
                Inl _ \<Rightarrow> (False, m1, fs1)
              | Inr data \<Rightarrow>
                  (if data = [] then (False, m1, fs1)
                   else case unmarshalEntries (rl_Unmarshal rl) data of
                          None \<Rightarrow> (False, m1, fs1)
                        | Some ents \<Rightarrow>
                            (if ents = [] then (False, m1, fs1)
                             else case pm_Append rl (es 2) st ents m1 fs1 of (_, m2, fs2) \<Rightarrow> (True, m2, fs2)))))"

definition Node_Compact ::
  "('e, 's, 'm, 'g) raftlib \<Rightarrow> (nat \<Rightarrow> env) \<Rightarrow> node \<Rightarrow> nat \<Rightarrow> fs \<Rightarrow> go_error option \<times> fs" where
  "Node_Compact rl es n i fs =
     (case nd_store n of
        Some (Wal_Storage ws) \<Rightarrow>
          (case wal_Compact (rl_Index rl) (rl_Marshal rl) (rl_Unmarshal rl) (es 0) ws i fs of
             (Some err, fs1) \<Rightarrow> (Some err, fs1)
           | (None, fs1) \<Rightarrow>
               (case RotateWAL (es 1) ws fs1 of
                  (Some err, fs2) \<Rightarrow> (Some err, fs2)
                | (None, fs2) \<Rightarrow> PurgeOldSnapshots (es 2) ws 2 fs2))
      | _ \<Rightarrow> (None, fs))"

record ('e, 's, 'g) ready =
  rd_Snapshot :: 's
  rd_Entries :: "'e list"
  rd_Messages :: "'g list"

text \<open>The address a message goes to: the configured one, else the decimal id.\<close>

definition peer_addr :: "node \<Rightarrow> nat \<Rightarrow> string" where
  "peer_addr n i =
     (case nd_peerAddrs n of
        None \<Rightarrow> nat_dec i
      | Some m \<Rightarrow> (case fmlookup m i of None \<Rightarrow> nat_dec i | Some a \<Rightarrow> a))"

fun send_messages ::
  "('e, 's, 'm, 'g) raftlib \<Rightarrow> (string \<Rightarrow> bytes \<Rightarrow> 't \<Rightarrow> go_error option \<times> 't) \<Rightarrow> node \<Rightarrow> 'g list \<Rightarrow> 't \<Rightarrow> 't" where
  "send_messages rl send n [] t = t"
| "send_messages rl send n (g # gs) t =
     (case rl_MarshalMsg rl g of
        None \<Rightarrow> send_messages rl send n gs t
      | Some b \<Rightarrow> send_messages rl send n gs (snd (send (peer_addr n (rl_To rl g)) b t)))"

definition snapshotThreshold :: nat where
  "snapshotThreshold = 50"

definition node_snapshot :: "nat \<Rightarrow> time \<Rightarrow> bytes" where
  "node_snapshot i t =
     json_text (JObj [(''node_id'', JNum (nat_dec i)), (''timestamp'', JNum (fmt_d (UnixNano t)))]) @ [CHR 0x0A]"

definition persist_entries ::
  "('e, 's, 'm, 'g) raftlib \<Rightarrow> (nat \<Rightarrow> env) \<Rightarrow> node \<Rightarrow> bool \<Rightarrow> 'e list \<Rightarrow> 'm \<Rightarrow> fs \<Rightarrow> 'm \<times> fs" where
  "persist_entries rl es n persistent ents m fs =
     (if ents = [] then (m, fs)
      else
        (let fs1 =
           (case nd_store n of
              None \<Rightarrow> fs
            | Some st \<Rightarrow>
                (case marshalEntries (rl_Marshal rl) ents of
                   None \<Rightarrow> fs
                 | Some b \<Rightarrow> snd (Storage_AppendWAL (es 0) st b fs)))
         in case nd_store n of
              Some st \<Rightarrow>
                (if persistent then (case pm_Append rl (es 1) st ents m fs1 of (_, m1, fs2) \<Rightarrow> (m1, fs2))
                 else (snd (rl_Append rl ents m), fs1))
            | None \<Rightarrow> (snd (rl_Append rl ents m), fs1)))"

definition maybe_snapshot ::
  "('e, 's, 'm, 'g) raftlib \<Rightarrow> (nat \<Rightarrow> env) \<Rightarrow> node \<Rightarrow> 'e list \<Rightarrow> fs \<Rightarrow> fs" where
  "maybe_snapshot rl es n ents fs =
     (case nd_store n of
        None \<Rightarrow> fs
      | Some st \<Rightarrow>
          (if length ents \<ge> snapshotThreshold then
             (case Storage_SaveSnapshot (es 2) st (node_snapshot (nd_id n) (env_clock (es 2) 1), True) fs of
                (Inl _, fs1) \<Rightarrow> fs1
              | (Inr _, fs1) \<Rightarrow> snd (Node_Compact rl (\<lambda>i. es (3 + i)) n 0 fs1))
           else fs))"

text \<open>One round of the ready loop of \<^verbatim>\<open>Start\<close>; \<open>send\<close> is the transport's.\<close>

definition handle_ready ::
  "('e, 's, 'm, 'g) raftlib \<Rightarrow> (string \<Rightarrow> bytes \<Rightarrow> 't \<Rightarrow> go_error option \<times> 't) \<Rightarrow> (nat \<Rightarrow> env) \<Rightarrow> node \<Rightarrow> bool \<Rightarrow>
     ('e, 's, 'g) ready \<Rightarrow> 'm \<times> fs \<times> 't \<Rightarrow> 'm \<times> fs \<times> 't" where
  "handle_ready rl send es n persistent rd s =
     (case s of (m, fs, t) \<Rightarrow>
        let m1 = (if rl_IsEmptySnap rl (rd_Snapshot rd) then m else snd (rl_ApplySnapshot rl (rd_Snapshot rd) m));
            (m2, fs2) = persist_entries rl es n persistent (rd_Entries rd) m1 fs;
            t1 = send_messages rl send n (rd_Messages rd) t
        in (m2, maybe_snapshot rl es n (rd_Entries rd) fs2, t1))"

definition Node_Stop :: "node \<Rightarrow> node" where
  "Node_Stop n = (if nd_stopped n then n else n\<lparr>nd_stopped := True\<rparr>)"

section \<open>The log contract\<close>

text \<open>
  What a node relies on of its log: bytes appended successfully are at the end of what is read back, and a
  quiet operating system lets appends and reads succeed.
\<close>

locale log_store =
  fixes inv :: "'s \<Rightarrow> bool"
    and contents :: "'s \<Rightarrow> bytes"
    and append :: "env \<Rightarrow> bytes \<Rightarrow> 's \<Rightarrow> go_error option \<times> 's"
    and read_all :: "env \<Rightarrow> 's \<Rightarrow> go_error + bytes"
  assumes append_ok: "inv s \<Longrightarrow> length b < 2 ^ 32 \<Longrightarrow> append e b s = (None, s') \<Longrightarrow> inv s' \<and> contents s' = contents s @ b"
    and append_quiet: "inv s \<Longrightarrow> quiet e \<Longrightarrow> fst (append e b s) = None"
    and read_quiet: "quiet e \<Longrightarrow> read_all e s = Inr (contents s)"
begin

text \<open>The state holds a list of entries when its contents are their encoding.\<close>

definition holds :: "('e \<Rightarrow> bytes option) \<Rightarrow> 's \<Rightarrow> 'e list \<Rightarrow> bool" where
  "holds mar s ents \<longleftrightarrow> inv s \<and> marshalEntries mar ents = Some (contents s)"

lemma holds_append:
  assumes "holds mar s ents" "marshalEntries mar new = Some b" "length b < 2 ^ 32" "append e b s = (None, s')"
  shows "holds mar s' (ents @ new)"
  using append_ok [of s b e s'] assms by (simp add: holds_def marshalEntries_append)

lemma holds_append_quiet:
  assumes "holds mar s ents" "marshalEntries mar new = Some b" "length b < 2 ^ 32" "quiet e"
  shows "holds mar (snd (append e b s)) (ents @ new)"
proof -
  have "inv s" using assms(1) by (simp add: holds_def)
  with append_quiet [OF _ assms(4)] have "append e b s = (None, snd (append e b s))" by (metis prod.collapse)
  from holds_append [OF assms(1-3) this] show ?thesis .
qed

lemma holds_read:
  assumes "proto_codec mar unm" "holds mar s ents" "quiet e"
  shows "\<exists>d. read_all e s = Inr d \<and> unmarshalEntries unm d = Some ents \<and> (d = [] \<longleftrightarrow> ents = [])"
proof -
  have m: "marshalEntries mar ents = Some (contents s)" using assms(2) by (simp add: holds_def)
  have "contents s = [] \<longleftrightarrow> ents = []"
    using m by (cases ents) (auto split: option.splits dest: arg_cong [where f = length])
  then show ?thesis
    using read_quiet [OF assms(3)] entries_roundtrip [OF assms(1) m] by blast
qed

end

lemma AppendWAL_quiet: "quiet e \<Longrightarrow> fst (AppendWAL e w b fs) = None"
  by (simp add: AppendWAL_def os_OpenCreate_def write_frame_quiet)

interpretation wal_log: log_store "wal_inv w" "wal_bytes w" "\<lambda>e. AppendWAL e w" "\<lambda>e. ReadWAL e w 0" for w
proof unfold_locales
  fix s b e s'
  assume "wal_inv w s" "length b < 2 ^ 32" "AppendWAL e w b s = (None, s')"
  then show "wal_inv w s' \<and> wal_bytes w s' = wal_bytes w s @ b"
    using AppendWAL_effect(3) by blast
next
  fix s e b
  assume "quiet e"
  then show "fst (AppendWAL e w b s) = None" by (rule AppendWAL_quiet)
next
  fix e s
  assume "quiet e"
  then show "ReadWAL e w 0 s = Inr (wal_bytes w s)" by (simp add: ReadWAL_quiet)
qed

section \<open>Snapshots and compaction leave the log as it is\<close>

lemma wal_same:
  assumes "\<And>n. is_wal n \<Longrightarrow> fmlookup fs' (dir_prefix (ws_dir w) @ n) = fmlookup fs (dir_prefix (ws_dir w) @ n)"
  shows "wal_inv w fs' = wal_inv w fs" "wal_bytes w fs' = wal_bytes w fs"
proof -
  have "n \<in> wal_names w fs' \<longleftrightarrow> n \<in> wal_names w fs" for n
    by (cases "is_wal n") (simp_all add: wal_names_def dir_files_def fmlookup_dom'_iff assms)
  then have names: "wal_names w fs' = wal_names w fs" by blast
  have fil: "wal_file w fs' n = wal_file w fs n" if "is_wal n" for n
    using assms [OF that] by (simp add: wal_file_def map_get_def)
  show "wal_inv w fs' = wal_inv w fs" by (simp add: wal_inv_def wal_ordered_def names fil)
  have "wal_concat w fs' (wal_names w fs) = wal_concat w fs (wal_names w fs)"
    using fil by (intro wal_concat_cong) (auto simp: wal_names_def)
  then show "wal_bytes w fs' = wal_bytes w fs" by (simp add: wal_bytes_def names)
qed

lemma snap_not_wal: "is_snap n \<Longrightarrow> \<not> is_wal n"
proof
  assume n: "is_snap n" "is_wal n"
  then obtain m where "n = ''snapshot.'' @ m" by (metis append_take_drop_id is_snap_def)
  with n(2) show False by (simp add: is_wal_def)
qed

lemma SaveSnapshot_wal:
  assumes "quiet e" "ws_offload w = None" "SaveSnapshot e w (b, True) fs = (res, fs')"
  shows "wal_inv w fs' = wal_inv w fs" "wal_bytes w fs' = wal_bytes w fs"
proof -
  let ?n = "snap_name (fmt_d (UnixNano (env_clock e 0)))"
  have fs': "fs' = fmupd (dir_prefix (ws_dir w) @ ?n) b fs"
    using assms by (simp add: SaveSnapshot_def Let_def os_OpenTrunc_quiet io_Copy_quiet filepath_Join_plain)
  have "\<not> is_wal ?n" using snap_not_wal [of ?n] by simp
  then show "wal_inv w fs' = wal_inv w fs" "wal_bytes w fs' = wal_bytes w fs"
    by (auto intro!: wal_same simp: fs')
qed

lemma Purge_wal:
  assumes q: "quiet e" and run: "PurgeOldSnapshots e w keep fs = (err, fs')"
  shows "wal_inv w fs' = wal_inv w fs" "wal_bytes w fs' = wal_bytes w fs"
proof -
  define k where "k = nat (int (length (filter is_snap (dir_names (ws_dir w) fs))) - keep)"
  have "fs' = fs \<or> fs' = remove_files e (ws_dir w) (take k (filter is_snap (dir_names (ws_dir w) fs))) fs"
    using run q unfolding PurgeOldSnapshots_def Let_def os_ReadDir_quiet [OF q] sum.case k_def [symmetric]
    by (simp split: if_splits)
  moreover have "\<forall>n \<in> set (take k (filter is_snap (dir_names (ws_dir w) fs))). plain_name n \<and> is_snap n"
    using is_snap_plain by (force dest!: in_set_takeD simp: set_dir_names)
  ultimately have "fmlookup fs' (dir_prefix (ws_dir w) @ n) = fmlookup fs (dir_prefix (ws_dir w) @ n)" if "is_wal n" for n
    using that snap_not_wal remove_files_quiet(2) [OF q] by metis
  then show "wal_inv w fs' = wal_inv w fs" "wal_bytes w fs' = wal_bytes w fs"
    by (auto intro!: wal_same)
qed

lemma fresh_single: "wal_names w fs = {''wal.log''} \<Longrightarrow> fresh_ts w fs t"
  by (simp add: fresh_ts_def)

lemma Node_Compact_zero:
  assumes store: "nd_store n = Some (Wal_Storage w)" and q: "\<And>i. quiet (es i)"
    and codec: "proto_codec (rl_Marshal rl) (rl_Unmarshal rl)"
    and holds: "wal_log.holds w (rl_Marshal rl) fs ents" and idx: "list_all (\<lambda>e. rl_Index rl e > 0) ents"
    and len: "length (wal_bytes w fs) < 2 ^ 32"
    and run: "Node_Compact rl es n 0 fs = (err, fs')"
  shows "wal_log.holds w (rl_Marshal rl) fs' ents"
proof -
  have m: "marshalEntries (rl_Marshal rl) ents = Some (wal_bytes w fs)" and inv: "wal_inv w fs"
    using holds by (simp_all add: wal_log.holds_def)
  have "filter (\<lambda>e. rl_Index rl e > 0) ents = ents" using idx by (simp add: list_all_iff)
  then have "marshalEntries (rl_Marshal rl) (keep_entries (rl_Index rl) 0 ents) = Some (wal_bytes w fs)"
    using m by (simp add: keep_entries_indexed idx)
  then obtain fs1 where 1: "wal_Compact (rl_Index rl) (rl_Marshal rl) (rl_Unmarshal rl) (es 0) w 0 fs = (None, fs1)"
    "wal_inv w fs1" "wal_bytes w fs1 = wal_bytes w fs" "wal_names w fs1 = {''wal.log''}"
    using wal_Compact_quiet [OF q entries_roundtrip [OF codec m] _ len] by blast
  obtain err2 fs2 where 2: "RotateWAL (es 1) w fs1 = (err2, fs2)" by force
  have ord: "wal_ordered w fs1" using 1(2) by (simp add: wal_inv_def)
  note rot = RotateWAL_effect [OF ord fresh_single [OF 1(4)] 2]
  have "err2 = None"
    using 2 q by (auto simp: RotateWAL_def os_Rename_def os_OpenTrunc_quiet Let_def split: if_splits option.splits)
  with 1(1) 2 run store have "PurgeOldSnapshots (es 2) w 2 fs2 = (err, fs')" by (simp add: Node_Compact_def)
  from Purge_wal [OF q this] rot \<open>err2 = None\<close> 1 show ?thesis
    using m by (simp add: wal_log.holds_def)
qed

section \<open>The ready loop and a restart\<close>

text \<open>Rounds of the ready loop, each with the environments of its storage calls.\<close>

fun node_run ::
  "('e, 's, 'm, 'g) raftlib \<Rightarrow> (string \<Rightarrow> bytes \<Rightarrow> 't \<Rightarrow> go_error option \<times> 't) \<Rightarrow> (nat \<Rightarrow> nat \<Rightarrow> env) \<Rightarrow> node \<Rightarrow> bool \<Rightarrow>
     ('e, 's, 'g) ready list \<Rightarrow> 'm \<times> fs \<times> 't \<Rightarrow> 'm \<times> fs \<times> 't" where
  "node_run rl send es n p [] s = s"
| "node_run rl send es n p (rd # rds) s = node_run rl send (\<lambda>i. es (Suc i)) n p rds (handle_ready rl send (es 0) n p rd s)"

text \<open>What a round adds to the log: with \<^verbatim>\<open>persistentMemory\<close> in place, both it and the loop append.\<close>

definition logged :: "bool \<Rightarrow> 'e list \<Rightarrow> 'e list" where
  "logged persistent ents = (if persistent then ents @ ents else ents)"

lemma marshal_length_le:
  "marshalEntries mar (xs @ ys) = Some c \<Longrightarrow> marshalEntries mar xs = Some a \<Longrightarrow> length a \<le> length c"
  "marshalEntries mar (xs @ ys) = Some c \<Longrightarrow> marshalEntries mar ys = Some a \<Longrightarrow> length a \<le> length c"
  by (auto simp: marshalEntries_append split: option.splits)

lemma marshal_parts:
  "marshalEntries mar (xs @ ys) = Some c \<Longrightarrow> \<exists>a b. marshalEntries mar xs = Some a \<and> marshalEntries mar ys = Some b"
  by (auto simp: marshalEntries_append split: option.splits)

lemma persist_entries_holds:
  assumes store: "nd_store n = Some (Wal_Storage w)" and q: "\<And>i. quiet (es i)"
    and holds: "wal_log.holds w (rl_Marshal rl) fs ents"
    and enc: "marshalEntries (rl_Marshal rl) (ents @ logged p new) = Some c" "length c < 2 ^ 32"
    and run: "persist_entries rl es n p new m fs = (m', fs')"
  shows "wal_log.holds w (rl_Marshal rl) fs' (ents @ logged p new)"
proof (cases "new = []")
  case True
  with holds run show ?thesis by (simp add: persist_entries_def logged_def)
next
  case False
  obtain b where b: "marshalEntries (rl_Marshal rl) new = Some b" and len: "length b < 2 ^ 32"
  proof -
    obtain l where l: "marshalEntries (rl_Marshal rl) (logged p new) = Some l" using marshal_parts [OF enc(1)] by blast
    have "length l < 2 ^ 32" using marshal_length_le(2) [OF enc(1) l] enc(2) by linarith
    moreover have "\<exists>ys. logged p new = new @ ys" by (simp add: logged_def)
    then obtain ys where ys: "logged p new = new @ ys" by blast
    then obtain b where b: "marshalEntries (rl_Marshal rl) new = Some b" using marshal_parts l by metis
    moreover have "length b \<le> length l" using marshal_length_le(1) [OF l [unfolded ys] b] .
    ultimately show ?thesis using that by (meson order_le_less_trans)
  qed
  define fs1 where "fs1 = snd (AppendWAL (es 0) w b fs)"
  have h1: "wal_log.holds w (rl_Marshal rl) fs1 (ents @ new)"
    unfolding fs1_def by (rule wal_log.holds_append_quiet [OF holds b len q])
  show ?thesis
  proof (cases p)
    case True
    have "fst (AppendWAL (es 1) w b fs1) = None" by (rule AppendWAL_quiet [OF q])
    then have app: "AppendWAL (es 1) w b fs1 = (None, snd (AppendWAL (es 1) w b fs1))" by (metis prod.collapse)
    have "fs' = snd (AppendWAL (es 1) w b fs1)"
      using run False True b store app
      by (auto simp: persist_entries_def pm_Append_def Storage_AppendWAL_def Let_def fs1_def split: prod.splits)
    then show ?thesis
      using wal_log.holds_append_quiet [OF h1 b len q, of 1] True by (simp add: logged_def)
  next
    case False
    then have "fs' = fs1"
      using run \<open>new \<noteq> []\<close> b store by (simp add: persist_entries_def Storage_AppendWAL_def fs1_def)
    with h1 False show ?thesis by (simp add: logged_def)
  qed
qed

lemma maybe_snapshot_holds:
  assumes store: "nd_store n = Some (Wal_Storage w)" and off: "ws_offload w = None" and q: "\<And>i. quiet (es i)"
    and codec: "proto_codec (rl_Marshal rl) (rl_Unmarshal rl)"
    and holds: "wal_log.holds w (rl_Marshal rl) fs ents" and idx: "list_all (\<lambda>e. rl_Index rl e > 0) ents"
    and len: "length (wal_bytes w fs) < 2 ^ 32"
  shows "wal_log.holds w (rl_Marshal rl) (maybe_snapshot rl es n new fs) ents"
proof (cases "length new \<ge> snapshotThreshold")
  case True
  obtain r fs1 where save: "SaveSnapshot (es 2) w (node_snapshot (nd_id n) (env_clock (es 2) 1), True) fs = (r, fs1)"
    by force
  note same = SaveSnapshot_wal [OF q off save]
  have h1: "wal_log.holds w (rl_Marshal rl) fs1 ents" using holds by (simp add: wal_log.holds_def same)
  obtain err fs2 where comp: "Node_Compact rl (\<lambda>i. es (3 + i)) n 0 fs1 = (err, fs2)" by force
  have "wal_log.holds w (rl_Marshal rl) fs2 ents"
    by (rule Node_Compact_zero [OF store q codec h1 idx _ comp]) (use len in \<open>simp add: same\<close>)
  moreover have "maybe_snapshot rl es n new fs = fs1 \<or> maybe_snapshot rl es n new fs = fs2"
    using True by (auto simp: maybe_snapshot_def store Storage_SaveSnapshot_def save [unfolded One_nat_def] comp split: sum.splits)
  ultimately show ?thesis using h1 by auto
qed (use holds in \<open>simp add: maybe_snapshot_def store\<close>)

lemma handle_ready_holds:
  assumes store: "nd_store n = Some (Wal_Storage w)" and off: "ws_offload w = None" and q: "\<And>i. quiet (es i)"
    and codec: "proto_codec (rl_Marshal rl) (rl_Unmarshal rl)"
    and holds: "wal_log.holds w (rl_Marshal rl) fs ents"
    and idx: "list_all (\<lambda>e. rl_Index rl e > 0) (ents @ rd_Entries rd)"
    and enc: "marshalEntries (rl_Marshal rl) (ents @ logged p (rd_Entries rd)) = Some c" "length c < 2 ^ 32"
    and run: "handle_ready rl send es n p rd (m, fs, t) = (m', fs', t')"
  shows "wal_log.holds w (rl_Marshal rl) fs' (ents @ logged p (rd_Entries rd))"
proof -
  define m1 where "m1 = (if rl_IsEmptySnap rl (rd_Snapshot rd) then m else snd (rl_ApplySnapshot rl (rd_Snapshot rd) m))"
  obtain m2 fs2 where pe: "persist_entries rl es n p (rd_Entries rd) m1 fs = (m2, fs2)" by force
  have h2: "wal_log.holds w (rl_Marshal rl) fs2 (ents @ logged p (rd_Entries rd))"
    by (rule persist_entries_holds [OF store q holds enc pe])
  then have "wal_bytes w fs2 = c" using enc(1) by (simp add: wal_log.holds_def)
  moreover have "list_all (\<lambda>e. rl_Index rl e > 0) (ents @ logged p (rd_Entries rd))" using idx by (simp add: logged_def)
  moreover have "fs' = maybe_snapshot rl es n (rd_Entries rd) fs2"
    using run pe by (simp add: handle_ready_def Let_def m1_def)
  ultimately show ?thesis using maybe_snapshot_holds [OF store off q codec h2] enc(2) by simp
qed

definition run_logged :: "bool \<Rightarrow> ('e, 's, 'g) ready list \<Rightarrow> 'e list" where
  "run_logged p rds = concat (map (\<lambda>rd. logged p (rd_Entries rd)) rds)"

lemma node_run_holds:
  assumes "nd_store n = Some (Wal_Storage w)" "ws_offload w = None" "\<And>i j. quiet (es i j)"
    "proto_codec (rl_Marshal rl) (rl_Unmarshal rl)" "wal_log.holds w (rl_Marshal rl) fs ents"
    "list_all (\<lambda>e. rl_Index rl e > 0) (ents @ run_logged p rds)"
    "marshalEntries (rl_Marshal rl) (ents @ run_logged p rds) = Some c" "length c < 2 ^ 32"
  shows "case node_run rl send es n p rds (m, fs, t) of (_, fs', _) \<Rightarrow>
    wal_log.holds w (rl_Marshal rl) fs' (ents @ run_logged p rds)"
  using assms(3,5-8)
proof (induction rds arbitrary: es m fs t ents)
  case Nil
  then show ?case by (simp add: run_logged_def)
next
  case (Cons rd rds)
  let ?new = "logged p (rd_Entries rd)"
  have split: "ents @ run_logged p (rd # rds) = (ents @ ?new) @ run_logged p rds" by (simp add: run_logged_def)
  obtain m1 fs1 t1 where run: "handle_ready rl send (es 0) n p rd (m, fs, t) = (m1, fs1, t1)" by (rule prod_cases3)
  obtain c1 where c1: "marshalEntries (rl_Marshal rl) (ents @ ?new) = Some c1"
    using marshal_parts Cons.prems(4) unfolding split by blast
  have "length c1 < 2 ^ 32"
    using marshal_length_le(1) [OF Cons.prems(4) [unfolded split] c1] Cons.prems(5) by linarith
  moreover have "list_all (\<lambda>e. rl_Index rl e > 0) (ents @ rd_Entries rd)"
    using Cons.prems(3) by (auto simp: run_logged_def logged_def split: if_splits)
  ultimately have "wal_log.holds w (rl_Marshal rl) fs1 (ents @ ?new)"
    using handle_ready_holds [OF assms(1,2) Cons.prems(1) assms(4) Cons.prems(2) _ c1 _ run] by blast
  note IH = Cons.IH [OF Cons.prems(1) this Cons.prems(3,4) [unfolded split] Cons.prems(5)]
  have step: "node_run rl send es n p (rd # rds) (m, fs, t) = node_run rl send (\<lambda>i. es (Suc i)) n p rds (m1, fs1, t1)"
    by (simp add: run)
  show ?case unfolding step split by (rule IH)
qed

lemma Start_restore_holds:
  assumes store: "nd_store n = Some (Wal_Storage w)" and off: "ws_offload w = None"
    and q: "quiet (es 1)" "quiet (es 2)" and codec: "proto_codec (rl_Marshal rl) (rl_Unmarshal rl)"
    and holds: "wal_log.holds w (rl_Marshal rl) fs ents" and ne: "ents \<noteq> []" and len: "length (wal_bytes w fs) < 2 ^ 32"
  obtains m1 fs' where "Start_restore rl es n mem fs = (True, snd (rl_Append rl ents m1), fs')"
    "m1 = mem \<or> (\<exists>s. m1 = snd (rl_ApplySnapshot rl (rl_Snapshot rl s) mem))"
    "wal_log.holds w (rl_Marshal rl) fs' (ents @ ents)"
proof -
  have enc: "marshalEntries (rl_Marshal rl) ents = Some (wal_bytes w fs)"
    using holds by (simp add: wal_log.holds_def)
  obtain d where d: "ReadWAL (es 1) w 0 fs = Inr d" "unmarshalEntries (rl_Unmarshal rl) d = Some ents" "d \<noteq> []"
    using wal_log.holds_read [OF codec holds q(1)] ne by blast
  have "fst (AppendWAL (es 2) w (wal_bytes w fs) fs) = None" by (rule AppendWAL_quiet [OF q(2)])
  then obtain fs' where app: "AppendWAL (es 2) w (wal_bytes w fs) fs = (None, fs')" by (metis prod.collapse)
  have h: "wal_log.holds w (rl_Marshal rl) fs' (ents @ ents)"
    by (rule wal_log.holds_append [OF holds enc len app])
  have pm: "pm_Append rl (es 2) (Wal_Storage w) ents m1 fs = (fst (rl_Append rl ents m1), snd (rl_Append rl ents m1), fs')" for m1
    using ne enc app by (simp add: pm_Append_def Storage_AppendWAL_def case_prod_beta)
  have load: "snd (LoadSnapshot (es 0) w fs) = fs"
    by (auto simp: LoadSnapshot_def off Let_def split: sum.splits)
  then obtain r0 where r0: "LoadSnapshot (es 0) w fs = (r0, fs)" by (metis prod.collapse)
  define r where "r = (case r0 of Inl err \<Rightarrow> Inl err | Inr rc \<Rightarrow> Inr (Some rc))"
  have r: "Storage_LoadSnapshot (es 0) (Wal_Storage w) fs = (r, fs)"
    by (simp add: Storage_LoadSnapshot_def r0 r_def split: sum.split)
  define m1 where "m1 = (case r of Inr (Some (snapBytes, _)) \<Rightarrow>
      (if snapBytes = [] then mem else snd (rl_ApplySnapshot rl (rl_Snapshot rl snapBytes) mem)) | _ \<Rightarrow> mem)"
  have first: "(case r of Inl a \<Rightarrow> (mem, fs) | Inr None \<Rightarrow> (mem, fs)
      | Inr (Some (snapBytes, x)) \<Rightarrow>
          (if snapBytes = [] then mem else snd (rl_ApplySnapshot rl (rl_Snapshot rl snapBytes) mem), fs)) = (m1, fs)"
    by (simp add: m1_def split: sum.split option.split prod.split)
  have "Start_restore rl es n mem fs = (True, snd (rl_Append rl ents m1), fs')"
    by (simp add: Start_restore_def store r first Storage_ReadWAL_def d(1) [unfolded One_nat_def] d(2,3) ne pm)
  moreover have "m1 = mem \<or> (\<exists>s. m1 = snd (rl_ApplySnapshot rl (rl_Snapshot rl s) mem))"
    by (auto simp: m1_def split: sum.splits option.splits)
  ultimately show ?thesis using that h by blast
qed

text \<open>C10. A node started on an empty log persists the entries of every round of its ready loop, rounds of fifty
  and more entries included, which also take a snapshot, compact, rotate and purge.  A restart then hands
  exactly those entries, in order, to the library's memory storage.
\<close>

theorem node_restart_recovers:
  assumes "nd_store n = Some (Wal_Storage w)" "ws_offload w = None" "\<And>i j. quiet (es i j)" "\<And>i. quiet (es' i)"
    and "proto_codec (rl_Marshal rl) (rl_Unmarshal rl)"
    and "wal_inv w fs" "wal_bytes w fs = []"
    and "ents = concat (map rd_Entries rds)" "ents \<noteq> []" "list_all (\<lambda>e. rl_Index rl e > 0) ents"
    and "marshalEntries (rl_Marshal rl) ents = Some c" "length c < 2 ^ 32"
  shows "case node_run rl send es n False rds (m, fs, t) of (_, fs1, _) \<Rightarrow>
    \<exists>m1 fs2. Start_restore rl es' n mem fs1 = (True, snd (rl_Append rl ents m1), fs2) \<and>
      (m1 = mem \<or> (\<exists>s. m1 = snd (rl_ApplySnapshot rl (rl_Snapshot rl s) mem)))"
proof -
  have holds: "wal_log.holds w (rl_Marshal rl) fs []" using assms(6,7) by (simp add: wal_log.holds_def)
  have logged: "run_logged False rds = ents" by (simp add: run_logged_def logged_def assms(8))
  obtain m' fs1 t' where run: "node_run rl send es n False rds (m, fs, t) = (m', fs1, t')" by (rule prod_cases3)
  have h1: "wal_log.holds w (rl_Marshal rl) fs1 ents"
    using node_run_holds [where es = es, OF assms(1,2,3,5) holds, where p = False and rds = rds and c = c and send = send and m = m and t = t] assms(10-12) run by (simp add: logged)
  then have "wal_bytes w fs1 = c" using assms(11) by (simp add: wal_log.holds_def)
  then show ?thesis
    using Start_restore_holds [where es = es' and mem = mem, OF assms(1,2,4,4,5) h1 assms(9)] assms(12)
    unfolding run prod.case by metis
qed

text \<open>C23. The restart also appends the log to itself, and from then on every round is logged twice: once by the
  loop and once by the memory storage that the restart put in place.
\<close>

theorem node_restart_doubles_log:
  assumes "nd_store n = Some (Wal_Storage w)" "ws_offload w = None" "\<And>i j. quiet (es i j)" "\<And>i. quiet (es' i)"
    and "proto_codec (rl_Marshal rl) (rl_Unmarshal rl)"
    and "wal_inv w fs" "marshalEntries (rl_Marshal rl) ents = Some (wal_bytes w fs)" "ents \<noteq> []"
    and "list_all (\<lambda>e. rl_Index rl e > 0) (ents @ concat (map rd_Entries rds))"
    and "marshalEntries (rl_Marshal rl) ((ents @ ents) @ concat (map (\<lambda>rd. rd_Entries rd @ rd_Entries rd) rds)) = Some c"
      "length c < 2 ^ 32"
  shows "case Start_restore rl es' n mem fs of (persistent, m1, fs1) \<Rightarrow>
    case node_run rl send es n persistent rds (m1, fs1, t) of (_, fs2, _) \<Rightarrow>
      (case ReadWAL calm_env w 0 fs2 of Inl _ \<Rightarrow> False
       | Inr d \<Rightarrow> unmarshalEntries (rl_Unmarshal rl) d =
           Some ((ents @ ents) @ concat (map (\<lambda>rd. rd_Entries rd @ rd_Entries rd) rds)))"
proof -
  have holds: "wal_log.holds w (rl_Marshal rl) fs ents" using assms(6,7) by (simp add: wal_log.holds_def)
  have logged: "run_logged True rds = concat (map (\<lambda>rd. rd_Entries rd @ rd_Entries rd) rds)"
    by (simp add: run_logged_def logged_def)
  obtain c1 where c1: "marshalEntries (rl_Marshal rl) (ents @ ents) = Some c1"
    using marshal_parts [OF assms(10)] by blast
  then have "length (wal_bytes w fs) \<le> length c" 
    using marshal_length_le(1) [OF assms(10) c1] marshal_length_le(1) [OF c1 assms(7)] by linarith
  then have len: "length (wal_bytes w fs) < 2 ^ 32" using assms(11) by linarith
  obtain m0 fs1 where start: "Start_restore rl es' n mem fs = (True, snd (rl_Append rl ents m0), fs1)"
    and h1: "wal_log.holds w (rl_Marshal rl) fs1 (ents @ ents)"
    by (rule Start_restore_holds [where es = es' and mem = mem, OF assms(1,2,4,4,5) holds assms(8) len])
  define m1 where "m1 = snd (rl_Append rl ents m0)"
  obtain m2 fs2 t2 where run: "node_run rl send es n True rds (m1, fs1, t) = (m2, fs2, t2)" by (rule prod_cases3)
  have idx: "list_all (\<lambda>e. rl_Index rl e > 0) ((ents @ ents) @ run_logged True rds)"
    using assms(9) by (auto simp: logged list_all_iff)
  have "wal_log.holds w (rl_Marshal rl) fs2 ((ents @ ents) @ run_logged True rds)"
    using node_run_holds [where es = es, OF assms(1,2,3,5) h1 idx _ assms(11), where send = send and m = m1 and t = t] assms(10) run by (simp add: logged)
  from wal_log.holds_read [OF assms(5) this quiet_calm_env] show ?thesis
    by (auto simp: start run logged simp flip: m1_def)
qed

definition sample_raftlib :: "(nat, bytes, nat list, nat) raftlib" where
  "sample_raftlib = \<lparr> rl_Index = id, rl_Term = (\<lambda>_. 1), rl_Marshal = byte_mar, rl_Unmarshal = byte_unm,
     rl_Snapshot = id, rl_IsEmptySnap = (\<lambda>s. s = []), rl_Append = (\<lambda>es m. (None, m @ es)),
     rl_ApplySnapshot = (\<lambda>s m. (None, m)), rl_To = id, rl_MarshalMsg = byte_mar \<rparr>"

definition sample_node :: node where
  "sample_node = NewNode 1 (Some (Wal_Storage sample_wal))"

definition sample_ready :: "nat list \<Rightarrow> (nat, bytes, nat) ready" where
  "sample_ready ents = \<lparr> rd_Snapshot = [], rd_Entries = ents, rd_Messages = [] \<rparr>"

definition no_send :: "string \<Rightarrow> bytes \<Rightarrow> unit \<Rightarrow> go_error option \<times> unit" where
  "no_send to payload t = (None, t)"

lemma sample_node_facts:
  "nd_store sample_node = Some (Wal_Storage sample_wal)" "ws_offload sample_wal = None"
  "proto_codec (rl_Marshal sample_raftlib) (rl_Unmarshal sample_raftlib)"
  by (simp_all add: sample_node_def NewNode_def sample_wal_def sample_raftlib_def byte_proto_codec)

lemma empty_wal: "wal_inv w fmempty" "wal_bytes w fmempty = []"
  by (simp_all add: wal_inv_def wal_ordered_def wal_names_def dir_files_def wal_file_def wal_bytes_def wal_concat_def)

lemma byte_mar_small: "list_all (\<lambda>n. n < 256) ents \<Longrightarrow> \<exists>c. marshalEntries byte_mar ents = Some c \<and> length c = 5 * length ents"
  by (induction ents) (auto simp: byte_mar_def)

theorem node_restart_recovers_witness:
  "case node_run sample_raftlib no_send (\<lambda>_ _. calm_env) sample_node False [sample_ready [1, 2], sample_ready [3]] ([], fmempty, ()) of
     (_, fs1, _) \<Rightarrow> \<exists>m1 fs2. Start_restore sample_raftlib (\<lambda>_. calm_env) sample_node [] fs1 =
        (True, snd (rl_Append sample_raftlib [1, 2, 3] m1), fs2) \<and>
        (m1 = [] \<or> (\<exists>s. m1 = snd (rl_ApplySnapshot sample_raftlib (rl_Snapshot sample_raftlib s) [])))"
proof -
  obtain c where c: "marshalEntries byte_mar [1, 2, 3] = Some c" "length c = 15"
    using byte_mar_small [of "[1, 2, 3]"] by auto
  show ?thesis
  proof (rule node_restart_recovers [OF sample_node_facts(1,2) _ _ sample_node_facts(3) empty_wal])
    show "[1, 2, 3] = concat (map rd_Entries [sample_ready [1, 2], sample_ready [3]])" by (simp add: sample_ready_def)
    show "marshalEntries (rl_Marshal sample_raftlib) [1, 2, 3] = Some c" using c by (simp add: sample_raftlib_def)
    show "length c < 2 ^ 32" using c by simp
  qed (simp_all add: sample_raftlib_def)
qed

theorem node_restart_doubles_log_witness:
  "case Start_restore sample_raftlib (\<lambda>_. calm_env) sample_node [] sample_entries_fs of (persistent, m1, fs1) \<Rightarrow>
    case node_run sample_raftlib no_send (\<lambda>_ _. calm_env) sample_node persistent [sample_ready [9]] (m1, fs1, ()) of (_, fs2, _) \<Rightarrow>
      (case ReadWAL calm_env sample_wal 0 fs2 of Inl _ \<Rightarrow> False
       | Inr d \<Rightarrow> unmarshalEntries (rl_Unmarshal sample_raftlib) d =
           Some (([3, 4, 7] @ [3, 4, 7]) @ concat (map (\<lambda>rd. rd_Entries rd @ rd_Entries rd) [sample_ready [9]])))"
proof -
  let ?all = "([3, 4, 7] @ [3, 4, 7]) @ concat (map (\<lambda>rd. rd_Entries rd @ rd_Entries rd) [sample_ready [9]])"
  obtain c where c: "marshalEntries byte_mar ?all = Some c" "length c = 40"
    using byte_mar_small [of ?all] by (auto simp: sample_ready_def simp del: marshalEntries.simps)
  have inv: "wal_inv sample_wal sample_entries_fs"
    unfolding sample_entries_fs_def
    using AppendWAL_effect(3) [OF empty_wal(1) _ prod.collapse [symmetric]] AppendWAL_quiet [OF quiet_calm_env] byte_mar_small [of "[3, 4, 7]"]
    by (auto simp del: marshalEntries.simps)
  show ?thesis
  proof (rule node_restart_doubles_log [OF sample_node_facts(1,2) _ _ sample_node_facts(3) inv])
    show "marshalEntries (rl_Marshal sample_raftlib) [3, 4, 7] = Some (wal_bytes sample_wal sample_entries_fs)"
      unfolding sample_entries_bytes by (simp add: sample_raftlib_def)
    show "marshalEntries (rl_Marshal sample_raftlib) ?all = Some c"
      using c(1) by (simp add: sample_raftlib_def del: marshalEntries.simps)
    show "length c < 2 ^ 32" using c by simp
  qed (simp_all add: sample_raftlib_def sample_ready_def)
qed

end
