(* ===== verification/Raft_Cluster.thy ===== *)
theory Raft_Cluster
  imports Raft_Node
begin

text \<open>
  The in-sync replica set (\<^verbatim>\<open>isr.go\<close>), the in-process transport (\<^verbatim>\<open>transport_inproc.go\<close>, \<^verbatim>\<open>transport.go\<close>), the checkpoint
  scheduler (\<^verbatim>\<open>checkpoint_scheduler.go\<close>), and what the log adapter of \<^verbatim>\<open>persistent_storage.go\<close> answers.  A Go channel
  is an object of a store, a queue with a capacity that is open or closed, because a receiver keeps the channel
  after its address is unregistered.
\<close>

section \<open>In-sync replicas\<close>

record ISRManager =
  isr_members :: "nat fset"
  isr_minISR :: int
  isr_leaderID :: nat

definition NewISRManager :: "int \<Rightarrow> ISRManager" where
  "NewISRManager minISR =
     \<lparr> isr_members = {||}, isr_minISR = (if minISR \<le> 0 then 1 else minISR), isr_leaderID = 0 \<rparr>"

definition SetLeader :: "nat \<Rightarrow> ISRManager \<Rightarrow> ISRManager" where
  "SetLeader i m = m\<lparr>isr_leaderID := i, isr_members := finsert i (isr_members m)\<rparr>"

definition MarkInSync :: "nat \<Rightarrow> ISRManager \<Rightarrow> ISRManager" where
  "MarkInSync i m = m\<lparr>isr_members := finsert i (isr_members m)\<rparr>"

definition MarkOutOfSync :: "nat \<Rightarrow> ISRManager \<Rightarrow> ISRManager" where
  "MarkOutOfSync i m = m\<lparr>isr_members := isr_members m |-| {|i|}\<rparr>"

definition CanAcceptWrites :: "ISRManager \<Rightarrow> bool" where
  "CanAcceptWrites m \<longleftrightarrow> int (fcard (isr_members m)) \<ge> isr_minISR m"

definition isr_Members :: "ISRManager \<Rightarrow> nat fset" where
  "isr_Members m = isr_members m"

datatype isr_op = Isr_Leader nat | Isr_In nat | Isr_Out nat

fun isr_step :: "isr_op \<Rightarrow> ISRManager \<Rightarrow> ISRManager" where
  "isr_step (Isr_Leader i) m = SetLeader i m"
| "isr_step (Isr_In i) m = MarkInSync i m"
| "isr_step (Isr_Out i) m = MarkOutOfSync i m"

text \<open>The reference: a replica is in sync when the last operation about it says so.\<close>

fun isr_subject :: "isr_op \<Rightarrow> nat" where
  "isr_subject (Isr_Leader i) = i"
| "isr_subject (Isr_In i) = i"
| "isr_subject (Isr_Out i) = i"

definition in_sync :: "isr_op list \<Rightarrow> nat \<Rightarrow> bool" where
  "in_sync ops i = (case find (\<lambda>op. isr_subject op = i) (rev ops) of None \<Rightarrow> False | Some (Isr_Out _) \<Rightarrow> False | Some _ \<Rightarrow> True)"

lemma isr_members_run:
  "i |\<in>| isr_members (fold isr_step ops (NewISRManager k)) \<longleftrightarrow> in_sync ops i"
proof (induction ops rule: rev_induct)
  case Nil
  then show ?case by (simp add: NewISRManager_def in_sync_def)
next
  case (snoc op ops)
  then show ?case
    by (cases op) (auto simp: SetLeader_def MarkInSync_def MarkOutOfSync_def in_sync_def)
qed

lemma isr_minISR_run: "isr_minISR (fold isr_step ops m) = isr_minISR m"
proof (induction ops arbitrary: m)
  case (Cons op ops)
  then show ?case by (cases op) (simp_all add: SetLeader_def MarkInSync_def MarkOutOfSync_def)
qed simp

text \<open>The write gate against its reference: after any sequence of changes, writes are accepted exactly when the
  number of replicas whose last change put them in sync reaches the configured minimum, which is never below
  one, so without any replica in sync no write is accepted.
\<close>

theorem isr_write_gate:
  "CanAcceptWrites (fold isr_step ops (NewISRManager k)) \<longleftrightarrow> card {i. in_sync ops i} \<ge> max 1 (nat k)"
proof -
  let ?m = "fold isr_step ops (NewISRManager k)"
  have "fset (isr_members ?m) = {i. in_sync ops i}" using isr_members_run by auto
  then have "fcard (isr_members ?m) = card {i. in_sync ops i}" by (simp add: fcard.rep_eq)
  moreover have "isr_minISR ?m = (if k \<le> 0 then 1 else k)" by (simp add: isr_minISR_run) (simp add: NewISRManager_def)
  ultimately show ?thesis by (auto simp: CanAcceptWrites_def)
qed

section \<open>The log adapter\<close>

definition limited :: "nat \<Rightarrow> 'e list \<Rightarrow> 'e list" where
  "limited maxSize xs = (if maxSize = 0 then xs else take maxSize xs)"

lemma entries_loop_eq:
  "maxSize = 0 \<or> length out < maxSize \<Longrightarrow>
     entries_loop idx lo hi maxSize out ents = limited maxSize (out @ filter (\<lambda>e. lo \<le> idx e \<and> idx e < hi) ents)"
proof (induction ents arbitrary: out)
  case (Cons e ents)
  show ?case
  proof (cases "lo \<le> idx e \<and> idx e < hi \<and> maxSize > 0 \<and> length (out @ [e]) \<ge> maxSize")
    case True
    with Cons.prems have "maxSize = Suc (length out)" by auto
    with True show ?thesis by (simp add: limited_def)
  next
    case False
    with Cons show ?thesis by (auto simp: Let_def)
  qed
qed (auto simp: limited_def)

text \<open>
  The log adapter answers from the entries of the log: built on a log that holds the encoding of some
  entries, \<^verbatim>\<open>Entries(lo, hi, max)\<close> returns those with an index from \<open>lo\<close> up to but not \<open>hi\<close>, in log order, at most \<open>max\<close> of them
  when \<open>max\<close> is positive, and the unavailable error when there are none.
\<close>

theorem adapter_serves_log:
  assumes "proto_codec mar unm" "quiet e" "marshalEntries mar ents = Some (wal_bytes w fs)"
  shows "wa_Entries idx (NewEtcdStorageAdapter unm e (Wal_Storage w) fs) lo hi maxSize =
    (let out = limited maxSize (filter (\<lambda>e. lo \<le> idx e \<and> idx e < hi) ents)
     in if out = [] then Inl ErrUnavailable else Inr out)"
proof -
  have "unmarshalEntries unm (wal_bytes w fs) = Some ents" by (rule entries_roundtrip [OF assms(1,3)])
  moreover have "wal_bytes w fs = [] \<longleftrightarrow> ents = []"
    using assms(3) by (cases ents) (auto split: option.splits dest: arg_cong [where f = length])
  ultimately have "wa_ents (NewEtcdStorageAdapter unm e (Wal_Storage w) fs) = ents"
    by (simp add: NewEtcdStorageAdapter_def Storage_ReadWAL_def ReadWAL_quiet assms(2))
  then show ?thesis by (cases "maxSize = 0") (simp_all add: wa_Entries_def entries_loop_eq)
qed

theorem adapter_serves_log_witness:
  "wa_Entries id (NewEtcdStorageAdapter byte_unm calm_env (Wal_Storage sample_wal) sample_entries_fs) 4 8 0 = Inr [4, 7]"
  using adapter_serves_log [OF byte_proto_codec quiet_calm_env sample_entries_bytes [symmetric], of id 4 8 0]
  by (simp add: limited_def)

section \<open>The in-process transport\<close>

text \<open>
  A channel of the runtime: its buffer, its capacity, whether it was closed, how many receivers are blocked on it, and the
  messages it has delivered so far.
\<close>

record chan =
  ch_queue :: "bytes list"
  ch_cap :: nat
  ch_closed :: bool
  ch_waiting :: nat
  ch_taken :: "bytes list"

record InProcTransport =
  ipt_peers :: "(string, nat) fmap"
  ipt_chans :: "chan list"
  ipt_buf :: int
  ipt_closed :: bool

definition NewInProcTransport :: "int \<Rightarrow> InProcTransport" where
  "NewInProcTransport buf = \<lparr> ipt_peers = fmempty, ipt_chans = [], ipt_buf = buf, ipt_closed = False \<rparr>"

definition upd_chan :: "nat \<Rightarrow> (chan \<Rightarrow> chan) \<Rightarrow> InProcTransport \<Rightarrow> InProcTransport" where
  "upd_chan c f t = t\<lparr>ipt_chans := (ipt_chans t)[c := f (ipt_chans t ! c)]\<rparr>"

text \<open>\<^verbatim>\<open>make(chan []byte, buf)\<close> refuses a size whose buffer of 24-byte slices, with its header, is beyond the address space.\<close>

definition makechan_ok :: "int \<Rightarrow> bool" where
  "makechan_ok buf \<longleftrightarrow> 0 \<le> buf \<and> 24 * buf \<le> 2 ^ 48 - 96"

definition Register :: "string \<Rightarrow> InProcTransport \<Rightarrow> (go_error + nat) \<times> InProcTransport" where
  "Register addr t =
     (if ipt_closed t then (Inl (Err ''transport closed''), t)
      else if fmlookup (ipt_peers t) addr \<noteq> None then (Inl (ErrFmt ''address already registered: %s'' [addr]), t)
      else if \<not> makechan_ok (ipt_buf t) then (Inl (ErrPanic ''makechan: size out of range''), t)
      else
        (let c = length (ipt_chans t);
             ch = \<lparr> ch_queue = [], ch_cap = nat (ipt_buf t), ch_closed = False, ch_waiting = 0, ch_taken = [] \<rparr>
         in (Inr c, t\<lparr>ipt_chans := ipt_chans t @ [ch], ipt_peers := fmupd addr c (ipt_peers t)\<rparr>)))"

text \<open>Closing a channel wakes its receivers; what is buffered can still be received.\<close>

definition close_chan :: "chan \<Rightarrow> chan" where
  "close_chan ch = ch\<lparr>ch_closed := True, ch_waiting := 0\<rparr>"

definition Unregister :: "string \<Rightarrow> InProcTransport \<Rightarrow> InProcTransport" where
  "Unregister addr t =
     (case fmlookup (ipt_peers t) addr of
        None \<Rightarrow> t
      | Some c \<Rightarrow> (upd_chan c close_chan t)\<lparr>ipt_peers := fmdrop addr (ipt_peers t)\<rparr>)"

text \<open>
  \<^verbatim>\<open>Send\<close> looks the channel up under the lock and sends after releasing it, so it is two steps between which other goroutines
  run; \<open>Send\<close> is both in a row.  The send hands the message to a blocked receiver if there is one, puts it in the buffer if
  there is room, and takes the default branch otherwise; on a channel closed in the meantime it panics.
\<close>

definition Send_lookup :: "string \<Rightarrow> InProcTransport \<Rightarrow> go_error + nat" where
  "Send_lookup to t =
     (case fmlookup (ipt_peers t) to of None \<Rightarrow> Inl (ErrFmt ''peer not found: %s'' [to]) | Some c \<Rightarrow> Inr c)"

definition Send_put :: "string \<Rightarrow> nat \<Rightarrow> bytes \<Rightarrow> InProcTransport \<Rightarrow> go_error option \<times> InProcTransport" where
  "Send_put to c payload t =
     (let ch = ipt_chans t ! c
      in if ch_closed ch then (Some (ErrPanic ''send on closed channel''), t)
         else if 0 < ch_waiting ch
         then (None, upd_chan c (\<lambda>ch. ch\<lparr>ch_waiting := ch_waiting ch - 1, ch_taken := ch_taken ch @ [payload]\<rparr>) t)
         else if length (ch_queue ch) < ch_cap ch
         then (None, upd_chan c (\<lambda>ch. ch\<lparr>ch_queue := ch_queue ch @ [payload]\<rparr>) t)
         else (Some (ErrFmt ''peer channel full: %s'' [to]), t))"

definition Send :: "string \<Rightarrow> bytes \<Rightarrow> InProcTransport \<Rightarrow> go_error option \<times> InProcTransport" where
  "Send to payload t =
     (case Send_lookup to t of Inl err \<Rightarrow> (Some err, t) | Inr c \<Rightarrow> Send_put to c payload t)"

text \<open>
  A goroutine that receives from a channel takes the oldest buffered message, sees the end of a closed empty channel, or
  blocks; a receiver blocked in a \<^verbatim>\<open>select\<close> may leave it by another branch.
\<close>

definition Recv :: "nat \<Rightarrow> InProcTransport \<Rightarrow> InProcTransport" where
  "Recv c t =
     (case ch_queue (ipt_chans t ! c) of
        [] \<Rightarrow> if ch_closed (ipt_chans t ! c) then t else upd_chan c (\<lambda>ch. ch\<lparr>ch_waiting := ch_waiting ch + 1\<rparr>) t
      | b # q \<Rightarrow> upd_chan c (\<lambda>ch. ch\<lparr>ch_queue := q, ch_taken := ch_taken ch @ [b]\<rparr>) t)"

definition Leave :: "nat \<Rightarrow> InProcTransport \<Rightarrow> InProcTransport" where
  "Leave c t = upd_chan c (\<lambda>ch. ch\<lparr>ch_waiting := ch_waiting ch - 1\<rparr>) t"

definition Close :: "InProcTransport \<Rightarrow> InProcTransport" where
  "Close t =
     (if ipt_closed t then t
      else (foldl (\<lambda>t k. Unregister k t) t (sorted_keys (ipt_peers t)))\<lparr>ipt_closed := True\<rparr>)"

text \<open>The steps of concurrent goroutines: \<open>Op_Lookup\<close> is the first half of a \<^verbatim>\<open>Send\<close> and \<open>Op_Put\<close> the second half of a pending one.\<close>

datatype ipt_op =
    Op_Register string
  | Op_Unregister string
  | Op_Lookup string bytes
  | Op_Put nat
  | Op_Recv nat
  | Op_Leave nat
  | Op_Close

record ipt_trace =
  tr_state :: InProcTransport
  tr_pending :: "(string \<times> nat \<times> bytes) list"
  tr_sent :: "(nat \<times> bytes) list"
  tr_panicked :: bool

text \<open>One step, with the sends that succeeded recorded; a panic ends the process.\<close>

fun ipt_do :: "ipt_op \<Rightarrow> ipt_trace \<Rightarrow> ipt_trace" where
  "ipt_do (Op_Register a) s =
     (case Register a (tr_state s) of
        (Inl (ErrPanic _), t) \<Rightarrow> s\<lparr>tr_panicked := True\<rparr>
      | (_, t) \<Rightarrow> s\<lparr>tr_state := t\<rparr>)"
| "ipt_do (Op_Unregister a) s = s\<lparr>tr_state := Unregister a (tr_state s)\<rparr>"
| "ipt_do (Op_Lookup a b) s =
     (case Send_lookup a (tr_state s) of
        Inl err \<Rightarrow> s
      | Inr c \<Rightarrow> s\<lparr>tr_pending := tr_pending s @ [(a, c, b)]\<rparr>)"
| "ipt_do (Op_Put i) s =
     (if i \<ge> length (tr_pending s) then s
      else
        (case tr_pending s ! i of (a, c, b) \<Rightarrow>
          (let s' = s\<lparr>tr_pending := take i (tr_pending s) @ drop (Suc i) (tr_pending s)\<rparr>
           in case Send_put a c b (tr_state s) of
                (None, t) \<Rightarrow> s'\<lparr>tr_state := t, tr_sent := tr_sent s @ [(c, b)]\<rparr>
              | (Some (ErrPanic _), t) \<Rightarrow> s'\<lparr>tr_panicked := True\<rparr>
              | (Some _, t) \<Rightarrow> s'\<lparr>tr_state := t\<rparr>)))"
| "ipt_do (Op_Recv c) s = (if c < length (ipt_chans (tr_state s)) then s\<lparr>tr_state := Recv c (tr_state s)\<rparr> else s)"
| "ipt_do (Op_Leave c) s = (if c < length (ipt_chans (tr_state s)) then s\<lparr>tr_state := Leave c (tr_state s)\<rparr> else s)"
| "ipt_do Op_Close s = s\<lparr>tr_state := Close (tr_state s)\<rparr>"

definition ipt_step :: "ipt_trace \<Rightarrow> ipt_op \<Rightarrow> ipt_trace" where
  "ipt_step s op = (if tr_panicked s then s else ipt_do op s)"

definition ipt_run :: "int \<Rightarrow> ipt_op list \<Rightarrow> ipt_trace" where
  "ipt_run buf ops =
     foldl ipt_step \<lparr> tr_state = NewInProcTransport buf, tr_pending = [], tr_sent = [], tr_panicked = False \<rparr> ops"

definition on_chan :: "nat \<Rightarrow> (nat \<times> bytes) list \<Rightarrow> bytes list" where
  "on_chan c xs = map snd (filter (\<lambda>x. fst x = c) xs)"

text \<open>
  A registered address has a channel of its own, which is open; every queue is within its capacity, and a receiver is
  blocked on an open empty channel only.
\<close>

definition chan_ok :: "int \<Rightarrow> chan \<Rightarrow> bool" where
  "chan_ok buf ch \<longleftrightarrow> ch_cap ch = nat buf \<and> length (ch_queue ch) \<le> nat buf \<and>
     (0 < ch_waiting ch \<longrightarrow> ch_queue ch = [] \<and> \<not> ch_closed ch)"

definition ipt_inv :: "InProcTransport \<Rightarrow> bool" where
  "ipt_inv t \<longleftrightarrow>
     (\<forall>a c. fmlookup (ipt_peers t) a = Some c \<longrightarrow> c < length (ipt_chans t) \<and> \<not> ch_closed (ipt_chans t ! c)) \<and>
     (\<forall>a a' c. fmlookup (ipt_peers t) a = Some c \<and> fmlookup (ipt_peers t) a' = Some c \<longrightarrow> a = a') \<and>
     (\<forall>c < length (ipt_chans t). chan_ok (ipt_buf t) (ipt_chans t ! c))"

definition queues :: "InProcTransport \<Rightarrow> nat \<Rightarrow> bytes list" where
  "queues t c = (if c < length (ipt_chans t) then ch_queue (ipt_chans t ! c) else [])"

definition taken :: "InProcTransport \<Rightarrow> nat \<Rightarrow> bytes list" where
  "taken t c = (if c < length (ipt_chans t) then ch_taken (ipt_chans t ! c) else [])"

text \<open>The messages a channel accepted, as its state shows them.\<close>

definition chan_accepted :: "InProcTransport \<Rightarrow> nat \<Rightarrow> bytes list" where
  "chan_accepted t c = taken t c @ queues t c"

lemma upd_chan_simps [simp]:
  "ipt_peers (upd_chan c f t) = ipt_peers t" "ipt_buf (upd_chan c f t) = ipt_buf t"
  "length (ipt_chans (upd_chan c f t)) = length (ipt_chans t)"
  "c < length (ipt_chans t) \<Longrightarrow> ipt_chans (upd_chan c f t) ! i = (if i = c then f (ipt_chans t ! c) else ipt_chans t ! i)"
  by (simp_all add: upd_chan_def nth_list_update)

lemmas ipt_defs = ipt_inv_def chan_ok_def chan_accepted_def queues_def taken_def fun_eq_iff

lemma Register_inv: "ipt_inv t \<Longrightarrow> ipt_inv (snd (Register a t)) \<and> chan_accepted (snd (Register a t)) = chan_accepted t"
  by (auto simp: ipt_defs Register_def Let_def nth_append less_Suc_eq split: if_splits)

lemma Unregister_inv: "ipt_inv t \<Longrightarrow> ipt_inv (Unregister a t) \<and> chan_accepted (Unregister a t) = chan_accepted t"
  by (cases "fmlookup (ipt_peers t) a") (auto simp: ipt_defs Unregister_def close_chan_def split: if_splits)

lemma Send_put_inv:
  assumes "ipt_inv t" "c < length (ipt_chans t)" "Send_put a c b t = (err, t')"
  shows "ipt_inv t' \<and> length (ipt_chans t') = length (ipt_chans t) \<and> (case err of
      None \<Rightarrow> chan_accepted t' = (chan_accepted t)(c := chan_accepted t c @ [b])
    | Some _ \<Rightarrow> t' = t)"
  using assms by (auto simp: Send_put_def Let_def ipt_defs split: if_splits)

lemma Recv_inv:
  assumes "ipt_inv t" "c < length (ipt_chans t)"
  shows "ipt_inv (Recv c t) \<and> chan_accepted (Recv c t) = chan_accepted t"
proof (cases "ch_queue (ipt_chans t ! c)")
  case (Cons b q)
  have "length (b # q) \<le> nat (ipt_buf t)" using assms by (auto simp: ipt_inv_def chan_ok_def simp flip: Cons)
  with Cons assms show ?thesis by (fastforce simp: Recv_def ipt_defs split: if_splits)
qed (use assms in \<open>auto simp: Recv_def ipt_defs split: if_splits\<close>)

lemma Leave_inv: "ipt_inv t \<Longrightarrow> c < length (ipt_chans t) \<Longrightarrow> ipt_inv (Leave c t) \<and> chan_accepted (Leave c t) = chan_accepted t"
  by (auto simp: Leave_def ipt_defs)

lemma Close_inv: "ipt_inv t \<Longrightarrow> ipt_inv (Close t) \<and> chan_accepted (Close t) = chan_accepted t"
proof -
  assume inv: "ipt_inv t"
  have "ipt_inv (foldl (\<lambda>t k. Unregister k t) t ks) \<and> chan_accepted (foldl (\<lambda>t k. Unregister k t) t ks) = chan_accepted t" for ks
    using inv by (induction ks arbitrary: t) (simp_all add: Unregister_inv)
  moreover have "ipt_inv (s\<lparr>ipt_closed := True\<rparr>) = ipt_inv s" "chan_accepted (s\<lparr>ipt_closed := True\<rparr>) = chan_accepted s" for s
    by (simp_all add: ipt_defs)
  ultimately show ?thesis using inv by (simp add: Close_def)
qed

lemma ipt_sizes:
  "length (ipt_chans (Unregister a t)) = length (ipt_chans t)" "length (ipt_chans (Recv c t)) = length (ipt_chans t)"
  "length (ipt_chans (Leave c t)) = length (ipt_chans t)" "length (ipt_chans (Close t)) = length (ipt_chans t)"
  "length (ipt_chans t) \<le> length (ipt_chans (snd (Register a t)))"
proof -
  show un: "length (ipt_chans (Unregister a t)) = length (ipt_chans t)" for a t by (simp add: Unregister_def split: option.split)
  then have "length (ipt_chans (foldl (\<lambda>t k. Unregister k t) t ks)) = length (ipt_chans t)" for ks
    by (induction ks arbitrary: t) simp_all
  then show "length (ipt_chans (Close t)) = length (ipt_chans t)" by (simp add: Close_def)
qed (simp_all add: Recv_def Leave_def Register_def Let_def split: list.split)

definition trace_inv :: "ipt_trace \<Rightarrow> bool" where
  "trace_inv s \<longleftrightarrow> ipt_inv (tr_state s) \<and> (\<forall>c. on_chan c (tr_sent s) = chan_accepted (tr_state s) c) \<and>
     (\<forall>(a, c, b) \<in> set (tr_pending s). c < length (ipt_chans (tr_state s)))"

lemma on_chan_snoc [simp]: "on_chan c (xs @ [(c', b)]) = on_chan c xs @ (if c' = c then [b] else [])"
  by (simp add: on_chan_def)

lemma ipt_do_Register:
  "ipt_do (Op_Register a) s = s\<lparr>tr_panicked := True\<rparr> \<or> ipt_do (Op_Register a) s = s\<lparr>tr_state := snd (Register a (tr_state s))\<rparr>"
  by (auto split: prod.splits sum.splits go_error.splits)

lemma ipt_put_inv:
  assumes inv: "trace_inv s" and i: "i < length (tr_pending s)"
  shows "trace_inv (ipt_do (Op_Put i) s)"
proof -
  obtain a c b where p: "tr_pending s ! i = (a, c, b)" by (metis prod_cases3)
  with inv i have c: "c < length (ipt_chans (tr_state s))" by (force simp: trace_inv_def dest: nth_mem)
  obtain err t' where run: "Send_put a c b (tr_state s) = (err, t')" by force
  have sub: "set (take i (tr_pending s) @ drop (Suc i) (tr_pending s)) \<subseteq> set (tr_pending s)"
    by (auto dest: in_set_takeD in_set_dropD)
  note eff = Send_put_inv [OF _ c run]
  show ?thesis
  proof (cases err)
    case None
    with eff inv sub i show ?thesis by (auto simp: trace_inv_def p run Let_def)
  next
    case (Some er)
    with eff inv sub i show ?thesis by (cases er) (auto simp: trace_inv_def p run Let_def)
  qed
qed

lemma ipt_step_inv: "trace_inv s \<Longrightarrow> trace_inv (ipt_step s op)"
proof (cases "tr_panicked s")
  case False
  assume inv: "trace_inv s"
  have same: "ipt_step s x = ipt_do x s" for x by (simp add: ipt_step_def False)
  show ?thesis
  proof (cases op)
    case (Op_Register a)
    have "trace_inv (s\<lparr>tr_state := snd (Register a (tr_state s))\<rparr>)" "trace_inv (s\<lparr>tr_panicked := True\<rparr>)"
      using inv Register_inv [of "tr_state s" a] ipt_sizes(5) [of "tr_state s" a] by (fastforce simp: trace_inv_def)+
    then show ?thesis using ipt_do_Register [of a s] by (metis same Op_Register)
  next
    case (Op_Put i)
    then show ?thesis using ipt_put_inv [OF inv, of i] inv by (cases "i < length (tr_pending s)") (simp_all add: same)
  next
    case (Op_Lookup a b)
    then show ?thesis using inv by (auto simp: same trace_inv_def Send_lookup_def ipt_inv_def split: sum.splits option.splits)
  qed (use inv in \<open>auto simp: same trace_inv_def Unregister_inv Close_inv Recv_inv Leave_inv ipt_sizes\<close>)
qed (simp add: ipt_step_def)

lemma ipt_run_inv: "trace_inv (ipt_run buf ops)"
proof -
  have keep: "trace_inv (foldl ipt_step s ops)" if "trace_inv s" for s
    using that by (induction ops arbitrary: s) (simp_all add: ipt_step_inv)
  have "trace_inv \<lparr> tr_state = NewInProcTransport buf, tr_pending = [], tr_sent = [], tr_panicked = False \<rparr>"
    by (simp add: trace_inv_def ipt_defs NewInProcTransport_def on_chan_def)
  then show ?thesis unfolding ipt_run_def by (rule keep)
qed

lemma ipt_buf_simps [simp]:
  "ipt_buf (Unregister a t) = ipt_buf t" "ipt_buf (Close t) = ipt_buf t" "ipt_buf (Recv c t) = ipt_buf t"
  "ipt_buf (Leave c t) = ipt_buf t" "ipt_buf (snd (Register a t)) = ipt_buf t" "ipt_buf (snd (Send_put a c b t)) = ipt_buf t"
proof -
  show un: "ipt_buf (Unregister a t) = ipt_buf t" for a t by (simp add: Unregister_def split: option.split)
  then have "ipt_buf (foldl (\<lambda>t k. Unregister k t) t ks) = ipt_buf t" for ks by (induction ks arbitrary: t) simp_all
  then show "ipt_buf (Close t) = ipt_buf t" by (simp add: Close_def)
qed (simp_all add: Recv_def Leave_def Register_def Send_put_def Let_def split: list.split)

lemma ipt_step_buf [simp]: "ipt_buf (tr_state (ipt_step s op)) = ipt_buf (tr_state s)"
proof (cases op)
  case (Op_Register a)
  then show ?thesis using ipt_do_Register [of a s] by (auto simp: ipt_step_def simp del: ipt_do.simps)
next
  case (Op_Put i)
  obtain a c b where p: "tr_pending s ! i = (a, c, b)" by (metis prod_cases3)
  obtain err t where run: "Send_put a c b (tr_state s) = (err, t)" by force
  then have "ipt_buf t = ipt_buf (tr_state s)" using ipt_buf_simps(6) [of a c b "tr_state s"] by simp
  then show ?thesis
    by (auto simp: ipt_step_def Op_Put p run Let_def split: option.splits go_error.splits)
qed (auto simp: ipt_step_def split: sum.splits)

lemma ipt_buf_run: "ipt_buf (tr_state (ipt_run buf ops)) = buf"
proof -
  have "ipt_buf (tr_state (foldl ipt_step s ops)) = ipt_buf (tr_state s)" for s
    by (induction ops arbitrary: s) simp_all
  then show ?thesis by (simp add: ipt_run_def NewInProcTransport_def)
qed

text \<open>As long as nothing is unregistered or closed, every channel is open and no step panics.\<close>

definition open_chans :: "InProcTransport \<Rightarrow> bool" where
  "open_chans t \<longleftrightarrow> (\<forall>ch \<in> set (ipt_chans t). \<not> ch_closed ch)"

definition all_open :: "ipt_trace \<Rightarrow> bool" where
  "all_open s \<longleftrightarrow> \<not> tr_panicked s \<and> open_chans (tr_state s)"

fun closes :: "ipt_op \<Rightarrow> bool" where
  "closes (Op_Unregister a) = True"
| "closes Op_Close = True"
| "closes _ = False"

lemma upd_chan_open: "open_chans t \<Longrightarrow> \<not> ch_closed (f (ipt_chans t ! c)) \<Longrightarrow> open_chans (upd_chan c f t)"
  by (auto simp: open_chans_def upd_chan_def dest!: set_update_subset_insert [THEN subsetD])

lemma open_chans_nth: "open_chans t \<Longrightarrow> c < length (ipt_chans t) \<Longrightarrow> \<not> ch_closed (ipt_chans t ! c)"
  by (simp add: open_chans_def)

lemma ipt_step_open:
  assumes inv: "trace_inv s" and ok: "all_open s" "\<not> closes op" "makechan_ok (ipt_buf (tr_state s))"
  shows "all_open (ipt_step s op)"
proof (cases op)
  case (Op_Register a)
  with ok show ?thesis by (auto simp: all_open_def ipt_step_def Register_def Let_def open_chans_def)
next
  case (Op_Put i)
  show ?thesis
  proof (cases "i < length (tr_pending s)")
    case True
    obtain a c b where p: "tr_pending s ! i = (a, c, b)" by (metis prod_cases3)
    with inv True have c: "c < length (ipt_chans (tr_state s))" by (force simp: trace_inv_def dest: nth_mem)
    with ok have op: "\<not> ch_closed (ipt_chans (tr_state s) ! c)" by (simp add: all_open_def open_chans_nth)
    with ok True show ?thesis
      by (simp add: all_open_def ipt_step_def Op_Put p Send_put_def Let_def upd_chan_open)
  qed (use ok Op_Put in \<open>simp add: all_open_def ipt_step_def\<close>)
next
  case (Op_Recv c)
  with ok show ?thesis
    by (auto simp: all_open_def ipt_step_def Recv_def open_chans_nth split: list.split intro!: upd_chan_open)
next
  case (Op_Leave c)
  with ok show ?thesis by (auto simp: all_open_def ipt_step_def Leave_def open_chans_nth intro!: upd_chan_open)
qed (use ok in \<open>auto simp: all_open_def ipt_step_def split: sum.splits\<close>)

lemma ipt_run_open:
  assumes "list_all (\<lambda>op. \<not> closes op) ops" "makechan_ok buf"
  shows "\<not> tr_panicked (ipt_run buf ops)"
proof -
  have "all_open (foldl ipt_step s ops)" if "trace_inv s" "all_open s" "ipt_buf (tr_state s) = buf" for s
    using that assms by (induction ops arbitrary: s) (simp_all add: ipt_step_inv ipt_step_open)
  moreover have "trace_inv (ipt_run buf [])" "all_open (ipt_run buf [])" "ipt_buf (tr_state (ipt_run buf [])) = buf"
    using ipt_run_inv [of buf "[]"] by (simp_all add: ipt_run_def all_open_def open_chans_def NewInProcTransport_def)
  ultimately have "all_open (ipt_run buf ops)" by (simp add: ipt_run_def)
  then show ?thesis by (simp add: all_open_def)
qed

text \<open>C12. The in-process transport under any interleaving of registrations, the two halves of sends, receives,
  unregistrations and a close, up to a panic if there is one: on every channel the messages delivered so far
  are the first ones whose send succeeded, in order and without loss or duplication, the rest is still queued, even
  after its address is gone, and never more than the buffer size is queued. Without an unregistration and a close,
  and with a buffer size the runtime accepts, no step panics.
\<close>

theorem transport_fifo_bounded:
  "(\<exists>queued. on_chan c (tr_sent (ipt_run buf ops)) = taken (tr_state (ipt_run buf ops)) c @ queued \<and>
      queued = queues (tr_state (ipt_run buf ops)) c \<and> length queued \<le> nat buf) \<and>
   (list_all (\<lambda>op. \<not> closes op) ops \<and> makechan_ok buf \<longrightarrow> \<not> tr_panicked (ipt_run buf ops))"
proof -
  have "length (queues (tr_state (ipt_run buf ops)) c) \<le> nat buf"
    using ipt_run_inv [of buf ops] ipt_buf_run [of buf ops] by (auto simp: trace_inv_def ipt_inv_def chan_ok_def queues_def)
  then show ?thesis using ipt_run_inv [of buf ops] ipt_run_open by (auto simp: trace_inv_def chan_accepted_def)
qed

theorem transport_fifo_bounded_witness:
  "\<not> tr_panicked (ipt_run 0 [Op_Register ''a'', Op_Lookup ''a'' ''m'', Op_Recv 0, Op_Put 0]) \<and>
   on_chan 0 (tr_sent (ipt_run 0 [Op_Register ''a'', Op_Lookup ''a'' ''m'', Op_Recv 0, Op_Put 0])) = [''m''] \<and>
   tr_panicked (ipt_run 1 [Op_Register ''a'', Op_Lookup ''a'' ''m'', Op_Unregister ''a'', Op_Put 0])"
proof -
  have "on_chan 0 (tr_sent (ipt_run 0 [Op_Register ''a'', Op_Lookup ''a'' ''m'', Op_Recv 0, Op_Put 0])) = [''m'']"
    "tr_panicked (ipt_run 1 [Op_Register ''a'', Op_Lookup ''a'' ''m'', Op_Unregister ''a'', Op_Put 0])" by code_simp+
  then show ?thesis
    using transport_fifo_bounded [of 0 0 "[Op_Register ''a'', Op_Lookup ''a'' ''m'', Op_Recv 0, Op_Put 0]"]
    by (simp add: makechan_ok_def)
qed

section \<open>The checkpoint scheduler\<close>

record CheckpointScheduler =
  cs_Interval :: int
  cs_stopped :: bool

definition NewCheckpointScheduler :: CheckpointScheduler where
  "NewCheckpointScheduler = \<lparr> cs_Interval = 30000000000, cs_stopped = False \<rparr>"

text \<open>What the loop selects on: a tick, with what \<^verbatim>\<open>makeSnapshot\<close> returns then, or the stop channel.\<close>

datatype sched_event = Sched_Tick env reader | Sched_Stop

fun sched_Run :: "storage option \<Rightarrow> bool \<Rightarrow> sched_event list \<Rightarrow> fs \<Rightarrow> fs" where
  "sched_Run None made evs fs = fs"
| "sched_Run (Some st) False evs fs = fs"
| "sched_Run (Some st) True [] fs = fs"
| "sched_Run (Some st) True (Sched_Stop # evs) fs = fs"
| "sched_Run (Some st) True (Sched_Tick e r # evs) fs = sched_Run (Some st) True evs (snd (Storage_SaveSnapshot e st r fs))"

definition sched_Stop :: "CheckpointScheduler \<Rightarrow> CheckpointScheduler" where
  "sched_Stop s = (if cs_stopped s then s else s\<lparr>cs_stopped := True\<rparr>)"

lemma sched_Run_wal:
  assumes "ws_offload w = None" "\<forall>ev \<in> set evs. case ev of Sched_Tick e r \<Rightarrow> quiet e \<and> snd r | Sched_Stop \<Rightarrow> True"
  shows "wal_bytes w (sched_Run (Some (Wal_Storage w)) True evs fs) = wal_bytes w fs"
  using assms(2)
proof (induction "Some (Wal_Storage w)" True evs fs rule: sched_Run.induct)
  case (5 e r evs fs)
  obtain res fs1 where run: "SaveSnapshot e w (fst r, True) fs = (res, fs1)" by force
  with 5 have "wal_bytes w fs1 = wal_bytes w fs" using SaveSnapshot_wal [OF _ assms(1) run] by simp
  moreover have "r = (fst r, True)" using 5 by (cases r) auto
  ultimately show ?case using 5 run by (simp add: Storage_SaveSnapshot_def)
qed simp_all

end
