(* ===== verification/Raft_Grpc.thy ===== *)
theory Raft_Grpc
  imports Raft_Cluster
begin

text \<open>
  The network transport of the raft nodes (\<^verbatim>\<open>transport_grpc.go\<close>) and how a node receives messages (\<^verbatim>\<open>Start\<close> in
  \<^verbatim>\<open>node.go\<close>).  The gRPC library and the certificate parser are arguments: \<open>'w\<close> is the state of the network as the
  library sees it, connections, streams, certificates and pools are values of its types.
\<close>

section \<open>The codec\<close>

text \<open>Messages are handed to gRPC as bytes; anything else is refused with the name of its type.\<close>

datatype any = Any_Bytes bytes | Any_Ptr bytes | Any_Other string

definition raw_Marshal :: "any \<Rightarrow> go_error + bytes" where
  "raw_Marshal v =
     (case v of
        Any_Bytes b \<Rightarrow> Inr b
      | Any_Ptr b \<Rightarrow> Inr b
      | Any_Other t \<Rightarrow> Inl (ErrFmt ''rawCodec: unsupported marshal type %T'' [t]))"

definition raw_Unmarshal :: "bytes \<Rightarrow> any \<Rightarrow> go_error + any" where
  "raw_Unmarshal data v =
     (case v of
        Any_Ptr _ \<Rightarrow> Inr (Any_Ptr data)
      | Any_Bytes _ \<Rightarrow> Inl (ErrFmt ''rawCodec: unsupported unmarshal type %T'' [''[]uint8''])
      | Any_Other t \<Rightarrow> Inl (ErrFmt ''rawCodec: unsupported unmarshal type %T'' [t]))"

section \<open>Credentials\<close>

datatype ('cert, 'pool) creds = Insecure | TLS 'pool "'cert option"

record ('cert, 'pool) server_creds =
  sc_cert :: 'cert
  sc_ClientCAs :: "'pool option"

record ('w, 'conn, 'stream, 'cert, 'pool) grpc_lib =
  gl_X509KeyPair :: "bytes \<Rightarrow> bytes \<Rightarrow> go_error + 'cert"
  gl_CertsFromPEM :: "bytes \<Rightarrow> 'pool option"
  gl_Dial :: "string \<Rightarrow> ('cert, 'pool) creds \<Rightarrow> 'w \<Rightarrow> (go_error + 'conn) \<times> 'w"
  gl_NewStream :: "'conn \<Rightarrow> string \<Rightarrow> 'w \<Rightarrow> (go_error + 'stream) \<times> 'w"
  gl_SendMsg :: "'stream \<Rightarrow> bytes \<Rightarrow> 'w \<Rightarrow> go_error option \<times> 'w"
  gl_CloseSend :: "'stream \<Rightarrow> 'w \<Rightarrow> 'w"
  gl_CloseConn :: "'conn \<Rightarrow> 'w \<Rightarrow> 'w"
  gl_StopServer :: "'w \<Rightarrow> 'w"

record ('conn, 'stream, 'cert, 'pool, 'h) GRPCTransport =
  g_conns :: "(string, 'conn) fmap"
  g_streams :: "(string, 'stream) fmap"
  g_handler :: "'h option"
  g_tls :: bool
  g_caPool :: "'pool option"
  g_clientCert :: "'cert option"

definition LoadX509KeyPair ::
  "('w, 'conn, 'stream, 'cert, 'pool) grpc_lib \<Rightarrow> env \<Rightarrow> string \<Rightarrow> string \<Rightarrow> fs \<Rightarrow> go_error + 'cert" where
  "LoadX509KeyPair lib e certFile keyFile fs =
     (case os_ReadFile e certFile fs of
        Inl err \<Rightarrow> Inl (ErrOs err)
      | Inr c \<Rightarrow>
          (case os_ReadFile e keyFile fs of Inl err \<Rightarrow> Inl (ErrOs err) | Inr k \<Rightarrow> gl_X509KeyPair lib c k))"

definition load_pool :: "('w, 'conn, 'stream, 'cert, 'pool) grpc_lib \<Rightarrow> env \<Rightarrow> string \<Rightarrow> fs \<Rightarrow> go_error + 'pool" where
  "load_pool lib e caFile fs =
     (case os_ReadFile e caFile fs of
        Inl err \<Rightarrow> Inl (ErrOs err)
      | Inr b \<Rightarrow> (case gl_CertsFromPEM lib b of None \<Rightarrow> Inl (Err ''failed to append CA cert'') | Some pool \<Rightarrow> Inr pool))"

text \<open>An optional part of the configuration: absent, loaded, or an error.\<close>

definition optionally :: "bool \<Rightarrow> (go_error + 'a) \<Rightarrow> go_error + 'a option" where
  "optionally wanted r = (if wanted then (case r of Inl err \<Rightarrow> Inl err | Inr x \<Rightarrow> Inr (Some x)) else Inr None)"

definition server_config ::
  "('w, 'conn, 'stream, 'cert, 'pool) grpc_lib \<Rightarrow> env \<Rightarrow> string \<Rightarrow> string \<Rightarrow> string \<Rightarrow> fs \<Rightarrow> go_error + ('cert, 'pool) server_creds" where
  "server_config lib e certFile keyFile caFile fs =
     (case LoadX509KeyPair lib e certFile keyFile fs of
        Inl err \<Rightarrow> Inl err
      | Inr cert \<Rightarrow>
          (case optionally (caFile \<noteq> []) (load_pool lib e caFile fs) of
             Inl err \<Rightarrow> Inl err
           | Inr pool \<Rightarrow> Inr \<lparr> sc_cert = cert, sc_ClientCAs = pool \<rparr>))"

definition NewGRPCTransport ::
  "('w, 'conn, 'stream, 'cert, 'pool) grpc_lib \<Rightarrow> env \<Rightarrow> go_error option \<Rightarrow> string \<Rightarrow> string \<Rightarrow> string \<Rightarrow> string \<Rightarrow> string \<Rightarrow> fs \<Rightarrow>
     go_error + ('conn, 'stream, 'cert, 'pool, 'h) GRPCTransport \<times> ('cert, 'pool) server_creds option" where
  "NewGRPCTransport lib e listen serverCert serverKey ca clientCert clientKey fs =
     (case listen of
        Some err \<Rightarrow> Inl err
      | None \<Rightarrow>
          (case optionally (serverCert \<noteq> [] \<and> serverKey \<noteq> []) (server_config lib e serverCert serverKey ca fs) of
             Inl err \<Rightarrow> Inl err
           | Inr srv \<Rightarrow>
               (case optionally (clientCert \<noteq> [] \<and> clientKey \<noteq> []) (LoadX509KeyPair lib e clientCert clientKey fs) of
                  Inl err \<Rightarrow> Inl err
                | Inr cert \<Rightarrow>
                    (case optionally (ca \<noteq> []) (load_pool lib e ca fs) of
                       Inl err \<Rightarrow> Inl err
                     | Inr pool \<Rightarrow>
                         Inr (\<lparr> g_conns = fmempty, g_streams = fmempty, g_handler = None, g_tls = srv \<noteq> None,
                                g_caPool = pool, g_clientCert = cert \<rparr>, srv)))))"

section \<open>Sending\<close>

definition dial_creds :: "('conn, 'stream, 'cert, 'pool, 'h) GRPCTransport \<Rightarrow> ('cert, 'pool) creds" where
  "dial_creds g =
     (if g_tls g then (case g_caPool g of Some pool \<Rightarrow> TLS pool (g_clientCert g) | None \<Rightarrow> Insecure) else Insecure)"

definition getConn ::
  "('w, 'conn, 'stream, 'cert, 'pool) grpc_lib \<Rightarrow> string \<Rightarrow> ('conn, 'stream, 'cert, 'pool, 'h) GRPCTransport \<Rightarrow> 'w \<Rightarrow>
     (go_error + 'conn) \<times> ('conn, 'stream, 'cert, 'pool, 'h) GRPCTransport \<times> 'w" where
  "getConn lib addr g w =
     (case fmlookup (g_conns g) addr of
        Some c \<Rightarrow> (Inr c, g, w)
      | None \<Rightarrow>
          (case gl_Dial lib addr (dial_creds g) w of
             (Inl err, w1) \<Rightarrow> (Inl err, g, w1)
           | (Inr conn, w1) \<Rightarrow> (Inr conn, g\<lparr>g_conns := fmupd addr conn (g_conns g)\<rparr>, w1)))"

definition raft_stream :: string where
  "raft_stream = ''/raft.Raft/Stream''"

text \<open>The stream kept for a peer, opened on first use.\<close>

definition getStream ::
  "('w, 'conn, 'stream, 'cert, 'pool) grpc_lib \<Rightarrow> string \<Rightarrow> 'conn \<Rightarrow> ('conn, 'stream, 'cert, 'pool, 'h) GRPCTransport \<Rightarrow> 'w \<Rightarrow>
     (go_error + 'stream) \<times> ('conn, 'stream, 'cert, 'pool, 'h) GRPCTransport \<times> 'w" where
  "getStream lib addr conn g w =
     (case fmlookup (g_streams g) addr of
        Some cs \<Rightarrow> (Inr cs, g, w)
      | None \<Rightarrow>
          (case gl_NewStream lib conn raft_stream w of
             (Inl err, w1) \<Rightarrow> (Inl err, g, w1)
           | (Inr stream, w1) \<Rightarrow> (Inr stream, g\<lparr>g_streams := fmupd addr stream (g_streams g)\<rparr>, w1)))"

text \<open>A message whose stream is broken is sent once more, on a new stream that replaces the old one.\<close>

definition send_on ::
  "('w, 'conn, 'stream, 'cert, 'pool) grpc_lib \<Rightarrow> string \<Rightarrow> bytes \<Rightarrow> 'conn \<Rightarrow> 'stream \<Rightarrow> ('conn, 'stream, 'cert, 'pool, 'h) GRPCTransport \<Rightarrow> 'w \<Rightarrow>
     go_error option \<times> ('conn, 'stream, 'cert, 'pool, 'h) GRPCTransport \<times> 'w" where
  "send_on lib addr payload conn cs g w =
     (case gl_SendMsg lib cs payload w of
        (None, w1) \<Rightarrow> (None, g, w1)
      | (Some err, w1) \<Rightarrow>
          (case gl_NewStream lib conn raft_stream (gl_CloseSend lib cs w1) of
             (Inl _, w2) \<Rightarrow> (Some err, g, w2)
           | (Inr stream, w2) \<Rightarrow>
               (case gl_SendMsg lib stream payload w2 of
                  (res, w3) \<Rightarrow> (res, g\<lparr>g_streams := fmupd addr stream (g_streams g)\<rparr>, w3))))"

definition grpc_Send ::
  "('w, 'conn, 'stream, 'cert, 'pool) grpc_lib \<Rightarrow> string \<Rightarrow> bytes \<Rightarrow> ('conn, 'stream, 'cert, 'pool, 'h) GRPCTransport \<Rightarrow> 'w \<Rightarrow>
     go_error option \<times> ('conn, 'stream, 'cert, 'pool, 'h) GRPCTransport \<times> 'w" where
  "grpc_Send lib to payload g w =
     (case getConn lib to g w of
        (Inl err, g1, w1) \<Rightarrow> (Some err, g1, w1)
      | (Inr conn, g1, w1) \<Rightarrow>
          (case getStream lib to conn g1 w1 of
             (Inl err, g2, w2) \<Rightarrow> (Some err, g2, w2)
           | (Inr cs, g2, w2) \<Rightarrow> send_on lib to payload conn cs g2 w2))"

text \<open>Closing stops the server and closes the connections; the streams stay in their table.\<close>

definition grpc_Close ::
  "('w, 'conn, 'stream, 'cert, 'pool) grpc_lib \<Rightarrow> ('conn, 'stream, 'cert, 'pool, 'h) GRPCTransport \<Rightarrow> 'w \<Rightarrow>
     ('conn, 'stream, 'cert, 'pool, 'h) GRPCTransport \<times> 'w" where
  "grpc_Close lib g w =
     (g\<lparr>g_conns := fmempty\<rparr>,
      fold (\<lambda>k. gl_CloseConn lib (the (fmlookup (g_conns g) k))) (sorted_keys (g_conns g)) (gl_StopServer lib w))"

definition RegisterHandler :: "'h \<Rightarrow> ('conn, 'stream, 'cert, 'pool, 'h) GRPCTransport \<Rightarrow> ('conn, 'stream, 'cert, 'pool, 'h) GRPCTransport" where
  "RegisterHandler h g = g\<lparr>g_handler := Some h\<rparr>"

section \<open>Receiving\<close>

text \<open>
  What \<^verbatim>\<open>RecvMsg\<close> returns, one after the other, and the loop over it: it hands each message to the registered handler and
  ends, with or without an error, or waits.
\<close>

datatype recv = Msg bytes | Eof | Broken go_error

datatype ended = Waiting | Returned "go_error option"

fun stream_loop :: "(bytes \<Rightarrow> 'n \<Rightarrow> go_error option \<times> 'n) option \<Rightarrow> recv list \<Rightarrow> 'n \<Rightarrow> ended \<times> 'n" where
  "stream_loop h [] n = (Waiting, n)"
| "stream_loop h (Eof # rs) n = (Returned None, n)"
| "stream_loop h (Broken err # rs) n = (Returned (Some err), n)"
| "stream_loop h (Msg payload # rs) n =
     (case h of
        None \<Rightarrow> stream_loop h rs n
      | Some f \<Rightarrow>
          (case f payload n of
             (Some err, n1) \<Rightarrow> (Returned (Some err), n1)
           | (None, n1) \<Rightarrow> stream_loop h rs n1))"

text \<open>
  The two ways a node takes a message: from a gRPC stream, where a message that cannot be read or is refused is
  reported, and from the channel of the in-process transport, where it is skipped.
\<close>

definition node_handler :: "(bytes \<Rightarrow> 'm option) \<Rightarrow> ('m \<Rightarrow> 'n \<Rightarrow> go_error option \<times> 'n) \<Rightarrow> bytes \<Rightarrow> 'n \<Rightarrow> go_error option \<times> 'n" where
  "node_handler unmarshal step b n =
     (case unmarshal b of None \<Rightarrow> (Some (Err ''proto''), n) | Some m \<Rightarrow> step m n)"

definition inproc_step :: "(bytes \<Rightarrow> 'm option) \<Rightarrow> ('m \<Rightarrow> 'n \<Rightarrow> go_error option \<times> 'n) \<Rightarrow> bytes \<Rightarrow> 'n \<Rightarrow> 'n" where
  "inproc_step unmarshal step b n = (case unmarshal b of None \<Rightarrow> n | Some m \<Rightarrow> snd (step m n))"

definition inproc_loop :: "(bytes \<Rightarrow> 'm option) \<Rightarrow> ('m \<Rightarrow> 'n \<Rightarrow> go_error option \<times> 'n) \<Rightarrow> bytes list \<Rightarrow> 'n \<Rightarrow> 'n" where
  "inproc_loop unmarshal step = fold (inproc_step unmarshal step)"

section \<open>What the peers are sent\<close>

text \<open>
  What the transport relies on: a connection leads to the address it was dialled for, a stream to the peer of its
  connection, and a message is accepted for the peer of its stream exactly when sending it reports no error.
\<close>

definition grpc_laws ::
  "('w, 'conn, 'stream, 'cert, 'pool) grpc_lib \<Rightarrow> ('conn \<Rightarrow> string) \<Rightarrow> ('stream \<Rightarrow> string) \<Rightarrow> ('w \<Rightarrow> (string \<times> bytes) list) \<Rightarrow> bool" where
  "grpc_laws lib conn_peer stream_peer accepted \<longleftrightarrow>
     (\<forall>a c w. accepted (snd (gl_Dial lib a c w)) = accepted w \<and> (\<forall>conn. fst (gl_Dial lib a c w) = Inr conn \<longrightarrow> conn_peer conn = a)) \<and>
     (\<forall>conn p w. accepted (snd (gl_NewStream lib conn p w)) = accepted w \<and>
        (\<forall>s. fst (gl_NewStream lib conn p w) = Inr s \<longrightarrow> stream_peer s = conn_peer conn)) \<and>
     (\<forall>s b w. accepted (snd (gl_SendMsg lib s b w)) = accepted w @ (if fst (gl_SendMsg lib s b w) = None then [(stream_peer s, b)] else [])) \<and>
     (\<forall>s w. accepted (gl_CloseSend lib s w) = accepted w) \<and> (\<forall>c w. accepted (gl_CloseConn lib c w) = accepted w) \<and>
     (\<forall>w. accepted (gl_StopServer lib w) = accepted w)"

definition grpc_inv :: "('conn \<Rightarrow> string) \<Rightarrow> ('stream \<Rightarrow> string) \<Rightarrow> ('conn, 'stream, 'cert, 'pool, 'h) GRPCTransport \<Rightarrow> bool" where
  "grpc_inv conn_peer stream_peer g \<longleftrightarrow>
     (\<forall>a c. fmlookup (g_conns g) a = Some c \<longrightarrow> conn_peer c = a) \<and> (\<forall>a s. fmlookup (g_streams g) a = Some s \<longrightarrow> stream_peer s = a)"

datatype 'h grpc_op = G_Send string bytes | G_Close | G_Register 'h

fun grpc_step ::
  "('w, 'conn, 'stream, 'cert, 'pool) grpc_lib \<Rightarrow> 'h grpc_op \<Rightarrow> ('conn, 'stream, 'cert, 'pool, 'h) GRPCTransport \<Rightarrow> 'w \<Rightarrow>
     (string \<times> bytes) list \<times> ('conn, 'stream, 'cert, 'pool, 'h) GRPCTransport \<times> 'w" where
  "grpc_step lib (G_Send to b) g w = (case grpc_Send lib to b g w of (res, g1, w1) \<Rightarrow> (if res = None then [(to, b)] else [], g1, w1))"
| "grpc_step lib G_Close g w = ([], grpc_Close lib g w)"
| "grpc_step lib (G_Register h) g w = ([], RegisterHandler h g, w)"

fun grpc_run ::
  "('w, 'conn, 'stream, 'cert, 'pool) grpc_lib \<Rightarrow> 'h grpc_op list \<Rightarrow> ('conn, 'stream, 'cert, 'pool, 'h) GRPCTransport \<Rightarrow> 'w \<Rightarrow>
     (string \<times> bytes) list \<times> ('conn, 'stream, 'cert, 'pool, 'h) GRPCTransport \<times> 'w" where
  "grpc_run lib [] g w = ([], g, w)"
| "grpc_run lib (op # ops) g w =
     (case grpc_step lib op g w of (acks, g1, w1) \<Rightarrow> (case grpc_run lib ops g1 w1 of (rest, g2, w2) \<Rightarrow> (acks @ rest, g2, w2)))"

lemma grpc_laws_rules:
  assumes "grpc_laws lib cp sp acc"
  shows "gl_Dial lib a c w = (r, w') \<Longrightarrow> acc w' = acc w \<and> (\<forall>conn. r = Inr conn \<longrightarrow> cp conn = a)"
    and "gl_NewStream lib conn p w = (r', w') \<Longrightarrow> acc w' = acc w \<and> (\<forall>s. r' = Inr s \<longrightarrow> sp s = cp conn)"
    and "gl_SendMsg lib s b w = (e, w') \<Longrightarrow> acc w' = acc w @ (if e = None then [(sp s, b)] else [])"
    and "acc (gl_CloseSend lib s w) = acc w" "acc (gl_CloseConn lib conn w) = acc w" "acc (gl_StopServer lib w) = acc w"
proof -
  note l = assms [unfolded grpc_laws_def]
  show "gl_Dial lib a c w = (r, w') \<Longrightarrow> acc w' = acc w \<and> (\<forall>conn. r = Inr conn \<longrightarrow> cp conn = a)"
    using l [THEN conjunct1, rule_format, of a c w] by simp
  show "gl_NewStream lib conn p w = (r', w') \<Longrightarrow> acc w' = acc w \<and> (\<forall>s. r' = Inr s \<longrightarrow> sp s = cp conn)"
    using l [THEN conjunct2, THEN conjunct1, rule_format, of conn p w] by simp
  show "gl_SendMsg lib s b w = (e, w') \<Longrightarrow> acc w' = acc w @ (if e = None then [(sp s, b)] else [])"
    using l [THEN conjunct2, THEN conjunct2, THEN conjunct1, rule_format, of s b w] by simp
qed (use assms in \<open>simp_all add: grpc_laws_def\<close>)

lemma getConn_peer:
  assumes "grpc_laws lib cp sp acc" "grpc_inv cp sp g" "getConn lib a g w = (r, g', w')"
  shows "grpc_inv cp sp g' \<and> acc w' = acc w \<and> (\<forall>conn. r = Inr conn \<longrightarrow> cp conn = a)"
proof (cases "fmlookup (g_conns g) a")
  case None
  then show ?thesis
    using assms grpc_laws_rules(1) [OF assms(1), of a "dial_creds g" w]
    by (cases "gl_Dial lib a (dial_creds g) w") (auto simp: getConn_def grpc_inv_def split: sum.splits if_splits)
qed (use assms in \<open>auto simp: getConn_def grpc_inv_def\<close>)

lemma getStream_peer:
  assumes "grpc_laws lib cp sp acc" "grpc_inv cp sp g" "cp conn = a" "getStream lib a conn g w = (r, g', w')"
  shows "grpc_inv cp sp g' \<and> acc w' = acc w \<and> (\<forall>s. r = Inr s \<longrightarrow> sp s = a)"
proof (cases "fmlookup (g_streams g) a")
  case None
  then show ?thesis
    using assms grpc_laws_rules(2) [OF assms(1), of conn raft_stream w]
    by (cases "gl_NewStream lib conn raft_stream w") (auto simp: getStream_def grpc_inv_def split: sum.splits if_splits)
qed (use assms in \<open>auto simp: getStream_def grpc_inv_def\<close>)

lemma send_on_peer:
  assumes "grpc_laws lib cp sp acc" "grpc_inv cp sp g" "cp conn = a" "sp cs = a" "send_on lib a b conn cs g w = (r, g', w')"
  shows "grpc_inv cp sp g' \<and> acc w' = acc w @ (if r = None then [(a, b)] else [])"
proof (cases "gl_SendMsg lib cs b w")
  case (Pair e w1)
  note s1 = grpc_laws_rules(3) [OF assms(1) Pair]
  show ?thesis
  proof (cases e)
    case None
    then show ?thesis using assms Pair s1 by (auto simp: send_on_def)
  next
    case (Some err)
    obtain r2 w2 where n: "gl_NewStream lib conn raft_stream (gl_CloseSend lib cs w1) = (r2, w2)" by (rule prod.exhaust)
    note s2 = grpc_laws_rules(2) [OF assms(1) n]
    show ?thesis
    proof (cases r2)
      case (Inr s)
      obtain e3 w3 where m: "gl_SendMsg lib s b w2 = (e3, w3)" by (rule prod.exhaust)
      show ?thesis
        using assms Pair Some n Inr m s1 s2 grpc_laws_rules(3) [OF assms(1) m] grpc_laws_rules(4) [OF assms(1)]
        by (auto simp: send_on_def grpc_inv_def split: if_splits)
    qed (use assms Pair Some n s1 s2 grpc_laws_rules(4) [OF assms(1)] in \<open>auto simp: send_on_def\<close>)
  qed
qed

lemma grpc_Send_peer:
  assumes "grpc_laws lib cp sp acc" "grpc_inv cp sp g" "grpc_Send lib a b g w = (r, g', w')"
  shows "grpc_inv cp sp g' \<and> acc w' = acc w @ (if r = None then [(a, b)] else [])"
proof -
  obtain r1 g1 w1 where c: "getConn lib a g w = (r1, g1, w1)" by (cases "getConn lib a g w")
  note c1 = getConn_peer [OF assms(1,2) c]
  show ?thesis
  proof (cases r1)
    case (Inr conn)
    obtain r2 g2 w2 where s: "getStream lib a conn g1 w1 = (r2, g2, w2)" by (cases "getStream lib a conn g1 w1")
    note s1 = getStream_peer [OF assms(1) _ _ s]
    show ?thesis
    proof (cases r2)
      case (Inr cs)
      then have "send_on lib a b conn cs g2 w2 = (r, g', w')" using assms(3) c s \<open>r1 = Inr conn\<close> by (simp add: grpc_Send_def)
      then show ?thesis using send_on_peer [OF assms(1)] c1 s1 \<open>r1 = Inr conn\<close> Inr by fastforce
    qed (use assms(3) c c1 s s1 Inr in \<open>auto simp: grpc_Send_def\<close>)
  qed (use assms(3) c c1 in \<open>auto simp: grpc_Send_def\<close>)
qed

lemma close_accepted:
  "grpc_laws lib cp sp acc \<Longrightarrow> acc (fold (\<lambda>k. gl_CloseConn lib (f k)) ks w) = acc w"
  by (induction ks arbitrary: w) (simp_all add: grpc_laws_def)

lemma grpc_run_accepted:
  assumes "grpc_laws lib cp sp acc" "grpc_inv cp sp g" "grpc_run lib ops g w = (acks, g', w')"
  shows "acc w' = acc w @ acks"
  using assms(2,3)
proof (induction ops arbitrary: g w acks)
  case (Cons op ops)
  obtain a1 g1 w1 where s: "grpc_step lib op g w = (a1, g1, w1)" by (cases "grpc_step lib op g w")
  obtain a2 where r: "grpc_run lib ops g1 w1 = (a2, g', w')" "acks = a1 @ a2"
    using Cons.prems(2) s by (auto split: prod.splits)
  have "grpc_inv cp sp g1 \<and> acc w1 = acc w @ a1"
  proof (cases op)
    case (G_Send to b)
    obtain res g2 w2 where "grpc_Send lib to b g w = (res, g2, w2)" by (cases "grpc_Send lib to b g w")
    then show ?thesis using s G_Send grpc_Send_peer [OF assms(1) Cons.prems(1)] by (simp split: if_splits)
  next
    case G_Close
    then show ?thesis
      using s Cons.prems(1) grpc_laws_rules(6) [OF assms(1)]
        close_accepted [OF assms(1), of "\<lambda>k. the (fmlookup (g_conns g) k)" "sorted_keys (g_conns g)" "gl_StopServer lib w"]
      by (auto simp: grpc_Close_def grpc_inv_def)
  next
    case (G_Register h)
    then show ?thesis using s Cons.prems(1) by (auto simp: RegisterHandler_def grpc_inv_def)
  qed
  then show ?case using Cons.IH [OF _ r(1)] r(2) by simp
qed simp

text \<open>
  Over any history of sends, closings and registrations on a new transport, whatever connections and streams break
  and are replaced: the network accepted, in order, exactly the messages whose send reported no error, each once and for
  the peer it was addressed to.
\<close>

theorem grpc_sends_acknowledged:
  assumes "grpc_laws lib cp sp acc" "NewGRPCTransport lib e listen sc sk ca cc ck fs = Inr (g, srv)"
    and "grpc_run lib ops g w = (acks, g', w')"
  shows "acc w' = acc w @ acks"
proof -
  have "grpc_inv cp sp g" using assms(2) by (auto simp: NewGRPCTransport_def grpc_inv_def split: option.splits sum.splits)
  then show ?thesis using grpc_run_accepted [OF assms(1) _ assms(3)] by simp
qed

text \<open>A network whose first stream to a peer refuses its first message.\<close>

definition flaky_grpc :: "(nat \<times> (string \<times> bytes) list, string, string \<times> nat, bytes, bytes) grpc_lib" where
  "flaky_grpc =
     \<lparr> gl_X509KeyPair = (\<lambda>c k. Inr (c @ k)), gl_CertsFromPEM = (\<lambda>b. if b = [] then None else Some b),
       gl_Dial = (\<lambda>a c w. (Inr a, w)), gl_NewStream = (\<lambda>conn p (n, l). (Inr (conn, n), (Suc n, l))),
       gl_SendMsg = (\<lambda>(a, n) b (m, l). if n = 0 then (Some (Err ''broken''), (m, l)) else (None, (m, l @ [(a, b)]))),
       gl_CloseSend = (\<lambda>s w. w), gl_CloseConn = (\<lambda>c w. w), gl_StopServer = (\<lambda>w. w) \<rparr>"

lemma flaky_laws: "grpc_laws flaky_grpc id fst snd"
  by (auto simp: grpc_laws_def flaky_grpc_def split: prod.splits if_splits)

lemma fold_idle: "fold (\<lambda>k w. w) ks w = w"
  by (induction ks) simp_all

theorem grpc_sends_acknowledged_witness:
  "\<exists>g g' w'. NewGRPCTransport flaky_grpc calm_env None [] [] [] [] [] fmempty = Inr (g, None) \<and>
     grpc_run flaky_grpc [G_Register (), G_Send ''n2'' ''x'', G_Close, G_Send ''n2'' ''y''] g (0, []) =
       ([(''n2'', ''x''), (''n2'', ''y'')], g', w') \<and> snd w' = [(''n2'', ''x''), (''n2'', ''y'')]"
proof -
  let ?ops = "[G_Register (), G_Send ''n2'' ''x'', G_Close, G_Send ''n2'' ''y'']"
  obtain g :: "(string, string \<times> nat, bytes, bytes, unit) GRPCTransport" where g: "NewGRPCTransport flaky_grpc calm_env None [] [] [] [] [] fmempty = Inr (g, None)"
    by (simp add: NewGRPCTransport_def optionally_def)
  then have "g = \<lparr> g_conns = fmempty, g_streams = fmempty, g_handler = None, g_tls = False, g_caPool = None, g_clientCert = None \<rparr>"
    by (simp add: NewGRPCTransport_def optionally_def)
  then have "fst (grpc_run flaky_grpc ?ops g (0, [])) = [(''n2'', ''x''), (''n2'', ''y'')]"
    by (simp add: flaky_grpc_def grpc_Send_def getConn_def getStream_def send_on_def grpc_Close_def RegisterHandler_def fold_idle)
  then obtain g' w' where r: "grpc_run flaky_grpc ?ops g (0, []) = ([(''n2'', ''x''), (''n2'', ''y'')], g', w')"
    by (cases "grpc_run flaky_grpc ?ops g (0, [])") auto
  moreover have "snd w' = [(''n2'', ''x''), (''n2'', ''y'')]" using grpc_sends_acknowledged [OF flaky_laws g r] by simp
  ultimately show ?thesis using g by blast
qed

section \<open>Encryption\<close>

lemma grpc_step_creds: "grpc_step lib op g w = (a, g', w') \<Longrightarrow> dial_creds g' = dial_creds g"
  by (cases op)
    (auto simp: grpc_Close_def RegisterHandler_def dial_creds_def grpc_Send_def getConn_def getStream_def send_on_def
      split: prod.splits option.splits sum.splits)

lemma grpc_run_creds: "grpc_run lib ops g w = (acks, g', w') \<Longrightarrow> dial_creds g' = dial_creds g"
  by (induction ops arbitrary: g w acks) (auto split: prod.splits dest: grpc_step_creds)

text \<open>
  A transport dials its peers with TLS exactly when it was given a server certificate, its key and a certificate
  authority, and only then does its own server demand client certificates; in every other configuration, a client
  certificate with an authority included, it dials without encryption.
\<close>

theorem grpc_encrypts_iff:
  assumes "NewGRPCTransport lib e listen sc sk ca cc ck fs = Inr (g, srv)" "grpc_run lib ops g w = (acks, g', w')"
  shows "(dial_creds g' \<noteq> Insecure \<longleftrightarrow> sc \<noteq> [] \<and> sk \<noteq> [] \<and> ca \<noteq> []) \<and>
    ((\<exists>s pool. srv = Some s \<and> sc_ClientCAs s = Some pool) \<longleftrightarrow> sc \<noteq> [] \<and> sk \<noteq> [] \<and> ca \<noteq> [])"
proof -
  have "dial_creds g' = dial_creds g" by (rule grpc_run_creds [OF assms(2)])
  moreover have "(dial_creds g \<noteq> Insecure \<longleftrightarrow> sc \<noteq> [] \<and> sk \<noteq> [] \<and> ca \<noteq> []) \<and>
    ((\<exists>s pool. srv = Some s \<and> sc_ClientCAs s = Some pool) \<longleftrightarrow> sc \<noteq> [] \<and> sk \<noteq> [] \<and> ca \<noteq> [])"
    using assms(1)
    by (auto simp: NewGRPCTransport_def optionally_def server_config_def dial_creds_def split: option.splits sum.splits if_splits)
  ultimately show ?thesis by simp
qed

theorem grpc_encrypts_iff_witness:
  "\<exists>g :: (string, string \<times> nat, bytes, bytes, unit) GRPCTransport. NewGRPCTransport flaky_grpc calm_env None [] [] ''ca'' ''c'' ''k'' (fmap_of_list [(''ca'', ''A''), (''c'', ''B''), (''k'', ''C'')]) = Inr (g, None) \<and>
     dial_creds g = Insecure"
proof -
  obtain g :: "(string, string \<times> nat, bytes, bytes, unit) GRPCTransport" where g: "NewGRPCTransport flaky_grpc calm_env None [] [] ''ca'' ''c'' ''k'' (fmap_of_list [(''ca'', ''A''), (''c'', ''B''), (''k'', ''C'')]) = Inr (g, None)"
    by (simp add: NewGRPCTransport_def optionally_def LoadX509KeyPair_def load_pool_def os_ReadFile_def flaky_grpc_def)
  with grpc_encrypts_iff [OF g, of "[]"] show ?thesis by simp
qed

end
