(* ===== verification/Processor_Windows.thy ===== *)
theory Processor_Windows
  imports Processor_Ops Go_Time "HOL-Library.Multiset" "HOL-Library.Sublist"
begin

text \<open>
  Event-time processing (\<^verbatim>\<open>processor/advanced_streaming.go\<close>): tumbling, sliding and session windows, the watermark, the
  pattern detector and the interval join, and the switch of \<^verbatim>\<open>window-manager/pkg/window\<close>.  A time is a number of
  nanoseconds, as in the clock model, and the identity of its Location, which the equality of \<^verbatim>\<open>time.Time\<close> compares and
  the order does not: the map of tumbling windows is keyed by both.  The starts of sliding windows are all computed
  from the first record and carry its Location, so there the instant alone identifies the key.  \<^verbatim>\<open>sort.Slice\<close> is not stable, so
  the sort is an argument of the definitions, any function that returns the records ordered by time.
\<close>

record TimedRecord =
  tr_At :: time
  tr_Loc :: nat
  tr_Record :: Rec

definition time_Truncate :: "time \<Rightarrow> int \<Rightarrow> time" where
  "time_Truncate t d = (if d \<le> 0 then t else t - t mod d)"

text \<open>The difference of two times, limited to what a 64-bit duration can hold.\<close>

definition time_Sub :: "time \<Rightarrow> time \<Rightarrow> int" where
  "time_Sub t u = max (- (2 ^ 63)) (min (2 ^ 63 - 1) (t - u))"

definition put_bucket :: "'k \<Rightarrow> Rec \<Rightarrow> ('k, Rec list) fmap \<Rightarrow> ('k, Rec list) fmap" where
  "put_bucket b r out = fmupd b (map_get [] out b @ [r]) out"

definition TumblingWindows :: "TimedRecord list \<Rightarrow> int \<Rightarrow> (time \<times> nat, Rec list) fmap" where
  "TumblingWindows ins sz =
     foldl (\<lambda>out tr. put_bucket (time_Truncate (tr_At tr) sz, tr_Loc tr) (tr_Record tr) out) fmempty ins"

text \<open>The windows of \<^verbatim>\<open>SlidingWindows\<close>: a loop that need not end, \<^verbatim>\<open>None\<close> when it does not.\<close>

definition fill_window :: "TimedRecord list \<Rightarrow> int \<Rightarrow> time \<Rightarrow> (time, Rec list) fmap \<Rightarrow> (time, Rec list) fmap" where
  "fill_window ins sz w out =
     foldl (\<lambda>out tr. if \<not> tr_At tr < w \<and> tr_At tr < w + sz then put_bucket w (tr_Record tr) out else out) out ins"

partial_function (option) sliding_loop ::
  "TimedRecord list \<Rightarrow> int \<Rightarrow> int \<Rightarrow> time \<Rightarrow> time \<Rightarrow> (time, Rec list) fmap \<Rightarrow> (time, Rec list) fmap option" where
  "sliding_loop ins sz slide stop w out =
     (if w > stop then Some out else sliding_loop ins sz slide stop (w + slide) (fill_window ins sz w out))"

declare sliding_loop.simps [code]

definition SlidingWindows ::
  "(TimedRecord list \<Rightarrow> TimedRecord list) \<Rightarrow> TimedRecord list \<Rightarrow> int \<Rightarrow> int \<Rightarrow> (time, Rec list) fmap option" where
  "SlidingWindows srt ins sz slide =
     (if ins = [] then Some fmempty
      else
        (let sorted_ins = srt ins
         in sliding_loop sorted_ins sz slide (tr_At (sorted_ins ! (length sorted_ins - 1)))
              (time_Truncate (tr_At (sorted_ins ! 0)) slide) fmempty))"

fun session_loop :: "int \<Rightarrow> Rec list list \<Rightarrow> Rec list \<Rightarrow> time \<Rightarrow> TimedRecord list \<Rightarrow> Rec list list" where
  "session_loop gap out current prev [] = out @ [current]"
| "session_loop gap out current prev (tr # trs) =
     (if time_Sub (tr_At tr) prev > gap
      then session_loop gap (out @ [current]) [tr_Record tr] (tr_At tr) trs
      else session_loop gap out (current @ [tr_Record tr]) (tr_At tr) trs)"

definition SessionWindows ::
  "(TimedRecord list \<Rightarrow> TimedRecord list) \<Rightarrow> TimedRecord list \<Rightarrow> int \<Rightarrow> Rec list list" where
  "SessionWindows srt ins gap =
     (case srt ins of
        [] \<Rightarrow> []
      | tr # trs \<Rightarrow> session_loop gap [] [tr_Record tr] (tr_At tr) trs)"

record WatermarkGenerator =
  wm_AllowedLateness :: int
  wm_maxEvent :: time

definition Observe :: "time \<Rightarrow> WatermarkGenerator \<Rightarrow> time \<times> WatermarkGenerator" where
  "Observe ts w =
     (let w' = (if ts > wm_maxEvent w then w\<lparr>wm_maxEvent := ts\<rparr> else w)
      in (wm_maxEvent w' + wrap64 (- wm_AllowedLateness w'), w'))"

record LateDataResult =
  ld_RetractKey :: string
  ld_UpsertKey :: string

definition ApplyLateDataPipeline :: "string \<Rightarrow> LateDataResult" where
  "ApplyLateDataPipeline primaryKey =
     \<lparr> ld_RetractKey = primaryKey @ '':retract'', ld_UpsertKey = primaryKey @ '':upsert'' \<rparr>"

record CEPStateMachine =
  cep_Pattern :: "string list"
  cep_idx :: nat

definition NewCEPStateMachine :: "string list \<Rightarrow> CEPStateMachine" where
  "NewCEPStateMachine p = \<lparr> cep_Pattern = p, cep_idx = 0 \<rparr>"

definition cep_Next :: "string \<Rightarrow> CEPStateMachine \<Rightarrow> bool \<times> CEPStateMachine" where
  "cep_Next ev c =
     (if cep_Pattern c = [] then (False, c)
      else if cep_Pattern c ! cep_idx c = ev then
        (let i = cep_idx c + 1
         in if i = length (cep_Pattern c) then (True, c\<lparr>cep_idx := 0\<rparr>) else (False, c\<lparr>cep_idx := i\<rparr>))
      else (False, c\<lparr>cep_idx := if cep_Pattern c ! 0 = ev then 1 else 0\<rparr>))"

text \<open>Comparison of two interface values: values of different types differ, uncomparable types panic.\<close>

fun iface_eq :: "gval \<Rightarrow> gval \<Rightarrow> bool option" where
  "iface_eq (VFloat x) (VFloat y) = Some (f_eq x y)"
| "iface_eq (VList _) (VList _) = None"
| "iface_eq (VMap _) (VMap _) = None"
| "iface_eq (VCounts _) (VCounts _) = None"
| "iface_eq (VGroups _) (VGroups _) = None"
| "iface_eq a b = Some (a = b)"

definition prefixed :: "string \<Rightarrow> Rec \<Rightarrow> Rec" where
  "prefixed p r = fmap_of_list (map (\<lambda>k. (p @ k, map_get VNil r k)) (sorted_keys r))"

fun join_right :: "TimedRecord \<Rightarrow> gval \<Rightarrow> string \<Rightarrow> int \<Rightarrow> TimedRecord list \<Rightarrow> go_error + Rec list" where
  "join_right l lv key bound [] = Inr []"
| "join_right l lv key bound (r # rs) =
     (case fmlookup (tr_Record r) key of
        None \<Rightarrow> join_right l lv key bound rs
      | Some rv \<Rightarrow>
          (case iface_eq rv lv of
             None \<Rightarrow> Inl (ErrPanic ''comparing uncomparable type'')
           | Some False \<Rightarrow> join_right l lv key bound rs
           | Some True \<Rightarrow>
               (let delta = time_Sub (tr_At l) (tr_At r); delta' = (if delta < 0 then wrap64 (- delta) else delta)
                in case join_right l lv key bound rs of
                     Inl err \<Rightarrow> Inl err
                   | Inr out \<Rightarrow>
                       Inr (if delta' \<le> bound
                            then (prefixed ''left.'' (tr_Record l) ++\<^sub>f prefixed ''right.'' (tr_Record r)) # out
                            else out))))"

fun StreamJoinWithin :: "TimedRecord list \<Rightarrow> TimedRecord list \<Rightarrow> string \<Rightarrow> int \<Rightarrow> go_error + Rec list" where
  "StreamJoinWithin [] right key bound = Inr []"
| "StreamJoinWithin (l # ls) right key bound =
     (case fmlookup (tr_Record l) key of
        None \<Rightarrow> StreamJoinWithin ls right key bound
      | Some lv \<Rightarrow>
          (case join_right l lv key bound right of
             Inl err \<Rightarrow> Inl err
           | Inr out \<Rightarrow>
               (case StreamJoinWithin ls right key bound of Inl err \<Rightarrow> Inl err | Inr out' \<Rightarrow> Inr (out @ out'))))"

section \<open>The window manager\<close>

record WindowManager =
  wmg_running :: bool

definition WindowManager_New :: WindowManager where
  "WindowManager_New = \<lparr> wmg_running = False \<rparr>"

definition WindowManager_Start :: "WindowManager \<Rightarrow> WindowManager" where
  "WindowManager_Start w = w\<lparr>wmg_running := True\<rparr>"

definition WindowManager_Stop :: "WindowManager \<Rightarrow> WindowManager" where
  "WindowManager_Stop w = w\<lparr>wmg_running := False\<rparr>"

section \<open>Tumbling windows\<close>

lemma tumbling_lookup:
  "fmlookup (TumblingWindows ins sz) (b, loc) =
     (let rs = map tr_Record (filter (\<lambda>tr. time_Truncate (tr_At tr) sz = b \<and> tr_Loc tr = loc) ins)
      in if rs = [] then None else Some rs)"
proof (induction ins rule: rev_induct)
  case Nil
  then show ?case by (simp add: TumblingWindows_def)
next
  case (snoc tr ins)
  have "TumblingWindows (ins @ [tr]) sz =
      put_bucket (time_Truncate (tr_At tr) sz, tr_Loc tr) (tr_Record tr) (TumblingWindows ins sz)"
    by (simp add: TumblingWindows_def)
  with snoc show ?case by (auto simp: put_bucket_def map_get_def Let_def split: if_splits)
qed

lemma time_Truncate_iff:
  "0 < d \<Longrightarrow> time_Truncate t d = b \<longleftrightarrow> b mod d = 0 \<and> b \<le> t \<and> t < b + d"
proof
  assume d: "0 < d" and "time_Truncate t d = b"
  then have b: "b = t - t mod d" by (simp add: time_Truncate_def)
  have "0 \<le> t mod d" "t mod d < d" using d by simp_all
  moreover have "b mod d = 0" unfolding b by (simp only: minus_mod_eq_mult_div mod_mult_self1_is_0)
  ultimately show "b mod d = 0 \<and> b \<le> t \<and> t < b + d" by (simp add: b)
next
  assume d: "0 < d" and b: "b mod d = 0 \<and> b \<le> t \<and> t < b + d"
  then have "(t - b) mod d = t - b" by (intro mod_pos_pos_trivial) auto
  then have "t mod d = t - b" using b by (metis diff_zero mod_diff_right_eq)
  then show "time_Truncate t d = b" using d by (simp add: time_Truncate_def)
qed

text \<open>C26. Tumbling windows partition the records by event time and time zone: the result has an entry for a start and
  a Location exactly when the start is a multiple of the window size and some record of that Location falls into
  the half-open interval from there; the entry then holds exactly those records, in the order they came. In
  particular records of one Location are partitioned by event time alone, while equal instants in different
  Locations land in different entries, since the key is a struct that carries its Location.
\<close>

theorem tumbling_partition:
  assumes "0 < sz"
  shows "fmlookup (TumblingWindows ins sz) (b, loc) =
    (let rs = map tr_Record (filter (\<lambda>tr. tr_Loc tr = loc \<and> b \<le> tr_At tr \<and> tr_At tr < b + sz) ins)
     in if b mod sz = 0 \<and> rs \<noteq> [] then Some rs else None)"
  using assms by (cases "b mod sz = 0") (simp_all add: tumbling_lookup time_Truncate_iff Let_def conj_ac)

section \<open>Sliding windows\<close>

lemma fill_window_lookup:
  "fmlookup (fill_window ins sz w out) b =
     (if b = w then
        (let rs = map tr_Record (filter (\<lambda>tr. w \<le> tr_At tr \<and> tr_At tr < w + sz) ins)
         in if rs = [] then fmlookup out w else Some (map_get [] out w @ rs))
      else fmlookup out b)"
proof (induction ins rule: rev_induct)
  case Nil
  then show ?case by (simp add: fill_window_def)
next
  case (snoc tr ins)
  have "fill_window (ins @ [tr]) sz w out =
      (if \<not> tr_At tr < w \<and> tr_At tr < w + sz then put_bucket w (tr_Record tr) (fill_window ins sz w out)
       else fill_window ins sz w out)"
    by (simp add: fill_window_def)
  with snoc show ?case by (auto simp: put_bucket_def map_get_def Let_def not_less split: if_splits)
qed

definition window_records :: "TimedRecord list \<Rightarrow> int \<Rightarrow> time \<Rightarrow> Rec list" where
  "window_records ins sz w = map tr_Record (filter (\<lambda>tr. w \<le> tr_At tr \<and> tr_At tr < w + sz) ins)"

text \<open>The starts the loop goes through from \<open>w\<close>.\<close>

definition on_grid :: "time \<Rightarrow> int \<Rightarrow> time \<Rightarrow> time \<Rightarrow> bool" where
  "on_grid w slide stop b \<longleftrightarrow> w \<le> b \<and> b \<le> stop \<and> (b - w) mod slide = 0"

lemma on_grid_step:
  assumes "0 < slide" "w \<le> stop"
  shows "on_grid w slide stop b \<longleftrightarrow> b = w \<or> on_grid (w + slide) slide stop b"
proof -
  have shift: "(b - (w + slide)) mod slide = (b - w) mod slide"
    by (metis diff_diff_eq minus_mod_self2)
  have "w + slide \<le> b" if "w \<le> b" "b \<noteq> w" "(b - w) mod slide = 0"
  proof -
    have "slide dvd b - w" using that by (simp add: dvd_eq_mod_eq_0)
    then have "slide \<le> b - w" using that by (intro zdvd_imp_le) auto
    then show ?thesis by simp
  qed
  then show ?thesis using assms by (auto simp: on_grid_def shift)
qed

lemma sliding_loop_total:
  assumes "0 < slide"
  shows "(\<And>b. w \<le> b \<Longrightarrow> fmlookup out b = None) \<Longrightarrow>
    \<exists>res. sliding_loop ins sz slide stop w out = Some res \<and>
      (\<forall>b. fmlookup res b =
         (if on_grid w slide stop b then (if window_records ins sz b = [] then None else Some (window_records ins sz b))
          else fmlookup out b))"
proof (induction "nat (stop - w + 1)" arbitrary: w out rule: less_induct)
  case less
  show ?case
  proof (cases "w > stop")
    case True
    then have "\<not> on_grid w slide stop b" for b by (simp add: on_grid_def)
    with True show ?thesis by (simp add: sliding_loop.simps [of _ _ _ _ w])
  next
    case False
    let ?out = "fill_window ins sz w out"
    have look: "fmlookup ?out b = (if b = w then (if window_records ins sz w = [] then None else Some (window_records ins sz w)) else fmlookup out b)" for b
      using less.prems by (simp add: fill_window_lookup Let_def window_records_def map_get_def)
    have "nat (stop - (w + slide) + 1) < nat (stop - w + 1)" using assms False by simp
    moreover have "fmlookup ?out b = None" if "w + slide \<le> b" for b
      using that assms less.prems by (simp add: look)
    ultimately obtain res where res: "sliding_loop ins sz slide stop (w + slide) ?out = Some res"
      "\<forall>b. fmlookup res b = (if on_grid (w + slide) slide stop b
         then (if window_records ins sz b = [] then None else Some (window_records ins sz b)) else fmlookup ?out b)"
      using less.hyps [of "w + slide" ?out] by blast
    have "\<not> on_grid (w + slide) slide stop w" using assms by (simp add: on_grid_def)
    then have "fmlookup res b =
        (if on_grid w slide stop b then (if window_records ins sz b = [] then None else Some (window_records ins sz b)) else fmlookup out b)" for b
      using False assms by (simp add: res(2) look on_grid_step)
    with res(1) False show ?thesis by (simp add: sliding_loop.simps [of _ _ _ _ w])
  qed
qed

text \<open>What \<^verbatim>\<open>sort.Slice\<close> promises: the same records, ordered by time; nothing about equal times.\<close>

definition sorts_by_time :: "(TimedRecord list \<Rightarrow> TimedRecord list) \<Rightarrow> bool" where
  "sorts_by_time srt \<longleftrightarrow> (\<forall>xs. mset (srt xs) = mset xs \<and> sorted (map tr_At (srt xs)))"

lemma sliding_loop_diverges:
  assumes "slide \<le> 0" "w \<le> stop"
  shows "sliding_loop ins sz slide stop w out = None"
proof -
  have "\<not> w \<le> stop \<or> \<not> slide \<le> 0" if "sliding_loop ins sz slide stop w out = Some res" for res
  proof (rule sliding_loop.raw_induct [where P = "\<lambda>ins sz slide stop w out res. \<not> w \<le> stop \<or> \<not> slide \<le> 0", OF _ that])
    fix f :: "TimedRecord list \<Rightarrow> int \<Rightarrow> int \<Rightarrow> time \<Rightarrow> time \<Rightarrow> (time, Rec list) fmap \<Rightarrow> (time, Rec list) fmap option"
      and ins sz slide stop w out res
    assume IH: "\<And>ins sz slide stop w out res. f ins sz slide stop w out = Some res \<Longrightarrow> \<not> w \<le> stop \<or> \<not> slide \<le> 0"
      and step: "(if w > stop then Some out else f ins sz slide stop (w + slide) (fill_window ins sz w out)) = Some res"
    show "\<not> w \<le> stop \<or> \<not> slide \<le> 0"
      using IH [of ins sz slide stop "w + slide" "fill_window ins sz w out" res] step by (auto split: if_splits)
  qed
  then show ?thesis using assms by (cases "sliding_loop ins sz slide stop w out") auto
qed

lemma sorted_ends:
  fixes xs :: "int list"
  assumes "sorted xs"
  shows "xs \<noteq> [] \<Longrightarrow> xs ! 0 = Min (set xs)" "xs \<noteq> [] \<Longrightarrow> xs ! (length xs - 1) = Max (set xs)"
proof -
  assume ne: "xs \<noteq> []"
  have "xs ! 0 \<le> x \<and> x \<le> xs ! (length xs - 1)" if "x \<in> set xs" for x
    using that sorted_nth_mono [OF assms] by (auto simp: in_set_conv_nth)
  moreover have "xs ! 0 \<in> set xs" "xs ! (length xs - 1) \<in> set xs" using ne by (simp_all add: nth_mem)
  ultimately show "xs ! 0 = Min (set xs)" "xs ! (length xs - 1) = Max (set xs)"
    by (auto intro!: Min_eqI [symmetric] Max_eqI [symmetric])
qed

text \<open>C27. Sliding windows: with a positive slide the loop ends.  It yields a window at every step of the slide from
  the first event time rounded down, up to the last event time, for which the half-open interval of the given size
  has records, and the window holds exactly those, in time order.  With a slide of zero or less and at least one
  record the loop never ends.
\<close>

theorem sliding_windows_terminate:
  assumes "sorts_by_time srt" "ins \<noteq> []" "t0 = Min (tr_At ` set ins)" "t1 = Max (tr_At ` set ins)"
  shows "if slide > 0 then
      \<exists>res. SlidingWindows srt ins sz slide = Some res \<and>
        (\<forall>b. fmlookup res b =
          (if on_grid (time_Truncate t0 slide) slide t1 b \<and> window_records (srt ins) sz b \<noteq> []
           then Some (window_records (srt ins) sz b) else None))
    else SlidingWindows srt ins sz slide = None"
proof -
  let ?xs = "srt ins"
  have ms: "mset ?xs = mset ins" and sorted: "sorted (map tr_At ?xs)" using assms(1) by (auto simp: sorts_by_time_def)
  have set: "set ?xs = set ins" using ms by (metis set_mset_mset)
  have ne: "?xs \<noteq> []" using set assms(2) by auto
  have img: "set (map tr_At ?xs) = tr_At ` set ins" by (simp add: set)
  note ends = sorted_ends [OF sorted, unfolded img]
  have hd: "tr_At (?xs ! 0) = t0" "tr_At (?xs ! (length ?xs - 1)) = t1"
    using ends ne by (simp_all add: assms(3,4))
  have run: "SlidingWindows srt ins sz slide = sliding_loop ?xs sz slide t1 (time_Truncate t0 slide) fmempty"
    using assms(2) by (simp add: SlidingWindows_def Let_def hd del: One_nat_def)
  show ?thesis
  proof (cases "slide > 0")
    case True
    have "fmlookup fmempty b = None" for b :: time by simp
    with sliding_loop_total [OF True, of "time_Truncate t0 slide" fmempty ?xs sz t1] True show ?thesis
      unfolding run by (metis (no_types, lifting))
  next
    case False
    have "t0 \<le> t1" unfolding assms(3,4) using assms(2) by (intro Min.boundedI Max_ge order_trans [OF Min_le Max_ge]) auto
    with False sliding_loop_diverges [of slide t0 t1 ?xs sz fmempty] show ?thesis
      by (simp add: run time_Truncate_def)
  qed
qed

lemma sorts_sort_key: "sorts_by_time (sort_key tr_At)"
  by (simp add: sorts_by_time_def)

definition sample_timed :: "TimedRecord list" where
  "sample_timed = [\<lparr> tr_At = 7, tr_Loc = 0, tr_Record = sample_rec ''a'' (VInt 1) \<rparr>, \<lparr> tr_At = 3, tr_Loc = 0, tr_Record = sample_rec ''b'' (VInt 2) \<rparr>]"

theorem tumbling_partition_witness:
  "fmlookup (TumblingWindows (sample_timed @ [\<lparr> tr_At = 7, tr_Loc = 1, tr_Record = sample_rec ''c'' VNil \<rparr>]) 5) (5, 0) =
     Some [sample_rec ''a'' (VInt 1)]"
  using tumbling_partition [of 5 "sample_timed @ [\<lparr> tr_At = 7, tr_Loc = 1, tr_Record = sample_rec ''c'' VNil \<rparr>]" 5 0]
  by (simp add: sample_timed_def)

theorem sliding_windows_terminate_witness:
  "SlidingWindows (sort_key tr_At) sample_timed 4 0 = None \<and>
   (\<exists>res. SlidingWindows (sort_key tr_At) sample_timed 4 2 = Some res \<and> fmlookup res 4 = Some [sample_rec ''a'' (VInt 1)])"
proof -
  have ne: "sample_timed \<noteq> []" by (simp add: sample_timed_def)
  have img: "tr_At ` set sample_timed = {7, 3}" by (simp add: sample_timed_def)
  have mm: "3 = Min (tr_At ` set sample_timed)" "7 = Max (tr_At ` set sample_timed)" by (simp_all add: img)
  have "on_grid (time_Truncate 3 2) 2 7 4" by (simp add: on_grid_def time_Truncate_def)
  moreover have "window_records (sort_key tr_At sample_timed) 4 4 = [sample_rec ''a'' (VInt 1)]"
    by (simp add: window_records_def sample_timed_def)
  ultimately show ?thesis
    using sliding_windows_terminate [OF sorts_sort_key ne mm, of 0 4] sliding_windows_terminate [OF sorts_sort_key ne mm, of 2 4]
    by fastforce
qed

section \<open>Session windows\<close>

definition close_by :: "int \<Rightarrow> TimedRecord \<Rightarrow> TimedRecord \<Rightarrow> bool" where
  "close_by gap a b \<longleftrightarrow> time_Sub (tr_At b) (tr_At a) \<le> gap"

text \<open>A division of a sequence into sessions: no gap inside, a gap between.\<close>

definition sessions :: "int \<Rightarrow> TimedRecord list list \<Rightarrow> bool" where
  "sessions gap ss \<longleftrightarrow> [] \<notin> set ss \<and> (\<forall>s \<in> set ss. successively (close_by gap) s) \<and>
     successively (\<lambda>s t. \<not> close_by gap (last s) (hd t)) ss"

lemma sessions_snoc:
  "sessions gap (ss @ [s @ [x]]) \<Longrightarrow> close_by gap x y \<Longrightarrow> sessions gap (ss @ [s @ [x, y]])"
  by (auto simp: sessions_def successively_append_iff hd_append split: if_splits)

lemma sessions_new:
  "sessions gap (ss @ [s @ [x]]) \<Longrightarrow> \<not> close_by gap x y \<Longrightarrow> sessions gap (ss @ [s @ [x], [y]])"
  by (auto simp: sessions_def successively_append_iff)

lemma session_loop_sessions:
  "sessions gap (ss @ [s @ [x]]) \<Longrightarrow>
     \<exists>ss'. session_loop gap (map (map tr_Record) ss) (map tr_Record (s @ [x])) (tr_At x) trs = map (map tr_Record) ss' \<and>
       sessions gap ss' \<and> concat ss' = concat ss @ s @ [x] @ trs"
proof (induction trs arbitrary: ss s x)
  case Nil
  then show ?case by (intro exI [of _ "ss @ [s @ [x]]"]) simp
next
  case (Cons y trs)
  show ?case
  proof (cases "close_by gap x y")
    case True
    then have "sessions gap (ss @ [(s @ [x]) @ [y]])" using sessions_snoc [OF Cons.prems True] by simp
    from Cons.IH [OF this] True show ?thesis by (simp add: close_by_def)
  next
    case False
    then have "sessions gap ((ss @ [s @ [x]]) @ [[] @ [y]])" using sessions_new [OF Cons.prems False] by simp
    from Cons.IH [OF this] False show ?thesis by (simp add: close_by_def)
  qed
qed

text \<open>C28. Session windows divide the time-ordered records, losing and repeating none: within a session each record
  follows its predecessor by at most the gap, and between two sessions there is more than the gap.
\<close>

theorem session_windows_divide:
  "\<exists>ss. SessionWindows srt ins gap = map (map tr_Record) ss \<and> concat ss = srt ins \<and> sessions gap ss"
proof (cases "srt ins")
  case Nil
  then show ?thesis by (intro exI [of _ "[]"]) (simp add: SessionWindows_def sessions_def)
next
  case (Cons x xs)
  have "sessions gap ([] @ [[] @ [x]])" by (simp add: sessions_def)
  from session_loop_sessions [OF this, of xs] Cons show ?thesis by (auto simp: SessionWindows_def)
qed

section \<open>Watermarks\<close>

definition observe_all :: "time list \<Rightarrow> WatermarkGenerator \<Rightarrow> WatermarkGenerator" where
  "observe_all ts w = foldl (\<lambda>w t. snd (Observe t w)) w ts"

lemma observe_all_max:
  "wm_maxEvent (observe_all ts w) = Max (insert (wm_maxEvent w) (set ts)) \<and>
   wm_AllowedLateness (observe_all ts w) = wm_AllowedLateness w"
proof (induction ts rule: rev_induct)
  case (snoc t ts)
  let ?S = "insert (wm_maxEvent w) (set ts)"
  have "wm_maxEvent (observe_all (ts @ [t]) w) = max t (wm_maxEvent (observe_all ts w)) \<and>
      wm_AllowedLateness (observe_all (ts @ [t]) w) = wm_AllowedLateness (observe_all ts w)"
    by (simp add: observe_all_def Observe_def Let_def max_def)
  moreover have "Max (insert t ?S) = max t (Max ?S)" by (rule Max_insert) auto
  moreover have "insert (wm_maxEvent w) (set (ts @ [t])) = insert t ?S" by auto
  ultimately show ?case using snoc by (simp only:)
qed (simp add: observe_all_def)

text \<open>C29. The watermark never goes back and trails the latest event by exactly the allowed lateness: after any events, the
  watermark returned for the next one is the maximum of the initial value and all event times so far minus the lateness,
  so it is at least every watermark returned before.
\<close>

theorem watermark_monotone:
  assumes "- (2 ^ 63) < wm_AllowedLateness w" "wm_AllowedLateness w < 2 ^ 63"
  shows "fst (Observe t (observe_all ts w)) = Max (insert (wm_maxEvent w) (set (ts @ [t]))) - wm_AllowedLateness w \<and>
    fst (Observe t (observe_all ts w)) \<le> fst (Observe t' (observe_all (ts @ t # us) w))"
proof -
  have wm: "fst (Observe t (observe_all ts w)) = Max (insert (wm_maxEvent w) (set (ts @ [t]))) - wm_AllowedLateness w" for t ts
  proof -
    have "int64_range (- wm_AllowedLateness w)" using assms by (simp add: int64_range_def)
    moreover have "wm_maxEvent (snd (Observe t (observe_all ts w))) = Max (insert (wm_maxEvent w) (set (ts @ [t])))"
      using observe_all_max [of "ts @ [t]" w] by (simp add: observe_all_def)
    ultimately show ?thesis using observe_all_max [of ts w] by (simp add: Observe_def Let_def split: if_splits)
  qed
  have "Max (insert (wm_maxEvent w) (set (ts @ [t]))) \<le> Max (insert (wm_maxEvent w) (set ((ts @ t # us) @ [t'])))"
    by (intro Max_mono) auto
  then show ?thesis unfolding wm by simp
qed

theorem watermark_monotone_witness:
  "fst (Observe 8 (observe_all [5, 9] \<lparr> wm_AllowedLateness = 2, wm_maxEvent = 0 \<rparr>)) = 7"
  using watermark_monotone [of "\<lparr> wm_AllowedLateness = 2, wm_maxEvent = 0 \<rparr>" 8 "[5, 9]"] by simp

section \<open>Pattern detection\<close>

text \<open>The detector fed with a history, and its answer to one more event.\<close>

definition cep_feed :: "string list \<Rightarrow> string list \<Rightarrow> CEPStateMachine" where
  "cep_feed p evs = foldl (\<lambda>c ev. snd (cep_Next ev c)) (NewCEPStateMachine p) evs"

definition cep_answer :: "string list \<Rightarrow> string list \<Rightarrow> string \<Rightarrow> bool" where
  "cep_answer p evs ev = fst (cep_Next ev (cep_feed p evs))"

lemma cep_feed_snoc: "cep_feed p (evs @ [ev]) = snd (cep_Next ev (cep_feed p evs))"
  by (simp add: cep_feed_def)

lemma cep_Pattern_feed [simp]: "cep_Pattern (cep_feed p evs) = p"
  by (induction evs rule: rev_induct) (auto simp: cep_feed_snoc cep_Next_def Let_def, simp add: cep_feed_def NewCEPStateMachine_def)

lemma suffix_take_Suc:
  "i < length p \<Longrightarrow> suffix (take (Suc i) p) (evs @ [ev]) \<longleftrightarrow> p ! i = ev \<and> suffix (take i p) evs"
  by (auto simp: take_Suc_conv_app_nth suffix_def)

text \<open>The state is a matched prefix of the pattern at the end of the history.\<close>

lemma cep_idx_suffix:
  "p \<noteq> [] \<Longrightarrow> cep_idx (cep_feed p evs) < length p \<and> suffix (take (cep_idx (cep_feed p evs)) p) evs"
proof (induction evs rule: rev_induct)
  case Nil
  then show ?case by (simp add: cep_feed_def NewCEPStateMachine_def)
next
  case (snoc ev evs)
  let ?i = "cep_idx (cep_feed p evs)"
  have i: "?i < length p" "suffix (take ?i p) evs" using snoc by auto
  consider "p ! ?i = ev" | "p ! ?i \<noteq> ev" "p ! 0 = ev" | "p ! ?i \<noteq> ev" "p ! 0 \<noteq> ev" by blast
  then show ?case
  proof cases
    case 1
    with i show ?thesis
      using suffix_take_Suc [of ?i p evs ev] snoc.prems by (auto simp: cep_feed_snoc cep_Next_def Let_def)
  next
    case 2
    then have "?i \<noteq> 0" by metis
    with 2 i show ?thesis
      using suffix_take_Suc [of 0 p evs ev] snoc.prems by (auto simp: cep_feed_snoc cep_Next_def)
  next
    case 3
    with snoc.prems show ?thesis by (simp add: cep_feed_snoc cep_Next_def)
  qed
qed

lemma cep_sound:
  assumes "cep_answer p evs ev"
  shows "suffix p (evs @ [ev])"
proof -
  have ne: "p \<noteq> []" using assms by (auto simp: cep_answer_def cep_Next_def)
  let ?i = "cep_idx (cep_feed p evs)"
  from assms ne have "p ! ?i = ev" "Suc ?i = length p"
    by (auto simp: cep_answer_def cep_Next_def Let_def split: if_splits)
  then show ?thesis
    using suffix_take_Suc [of ?i p evs ev] cep_idx_suffix [OF ne, of evs] by simp
qed

text \<open>When the first event of the pattern does not recur in it, the state is the only matched prefix.\<close>

lemma cep_idx_unique:
  assumes "p \<noteq> []" "hd p \<notin> set (tl p)"
  shows "0 < k \<Longrightarrow> k < length p \<Longrightarrow> suffix (take k p) evs \<Longrightarrow> k = cep_idx (cep_feed p evs)"
proof (induction evs arbitrary: k rule: rev_induct)
  case Nil
  then show ?case by (simp add: suffix_def)
next
  case (snoc ev evs)
  let ?i = "cep_idx (cep_feed p evs)"
  have first: "j = 0" if "j < length p" "p ! j = p ! 0" for j
    using that assms by (cases p; cases j) (auto dest: nth_mem)
  obtain j where j: "k = Suc j" using snoc.prems(1) by (cases k) auto
  with snoc.prems have m: "p ! j = ev" "suffix (take j p) evs" using suffix_take_Suc [of j p evs ev] by auto
  have i: "?i < length p" using cep_idx_suffix [OF assms(1)] by blast
  have ji: "j = ?i \<or> j = 0" using snoc.IH [of j] m snoc.prems(2) j by (cases "j = 0") auto
  show ?case
  proof (cases "p ! ?i = ev")
    case True
    have "j = ?i" using ji first [OF i] True m by auto
    with True j snoc.prems(2) assms(1) show ?thesis by (simp add: cep_feed_snoc cep_Next_def Let_def)
  next
    case False
    then have "j = 0" using ji m by auto
    with False j m assms(1) show ?thesis by (simp add: cep_feed_snoc cep_Next_def)
  qed
qed

lemma cep_complete:
  assumes "p \<noteq> []" "hd p \<notin> set (tl p)" "suffix p (evs @ [ev])"
  shows "cep_answer p evs ev"
proof -
  obtain j where j: "length p = Suc j" using assms(1) by (cases p) auto
  let ?i = "cep_idx (cep_feed p evs)"
  have m: "p ! j = ev" "suffix (take j p) evs" using suffix_take_Suc [of j p evs ev] assms(3) j by auto
  have "j = ?i"
  proof (cases "j = 0")
    case True
    then show ?thesis using cep_idx_suffix [OF assms(1), of evs] j by simp
  next
    case False
    then show ?thesis using cep_idx_unique [OF assms(1,2) _ _ m(2)] j by simp
  qed
  with m j assms(1) show ?thesis by (simp add: cep_answer_def cep_Next_def Let_def)
qed

text \<open>The pattern detector reports a match exactly when the events so far end with the pattern, for a pattern
  whose first event does not occur again in it.
\<close>

theorem cep_exact:
  assumes "p \<noteq> []" "hd p \<notin> set (tl p)"
  shows "cep_answer p evs ev \<longleftrightarrow> suffix p (evs @ [ev])"
  using cep_sound cep_complete [OF assms] by blast

theorem cep_exact_witness:
  "cep_answer [''login'', ''fail''] [''x'', ''login''] ''fail''"
  using cep_exact [of "[''login'', ''fail'']" "[''x'', ''login'']" "''fail''"] by (simp add: suffix_def)

text \<open>
  For other patterns it misses matches: after two equal events that begin the pattern a third one makes it
  forget one of them.  What it reports is still right.
\<close>

theorem cep_misses_match:
  "(\<forall>p evs ev. cep_answer p evs ev \<longrightarrow> suffix p (evs @ [ev])) \<and>
   suffix [''a'', ''a'', ''b''] ([''a'', ''a'', ''a''] @ [''b'']) \<and>
   \<not> cep_answer [''a'', ''a'', ''b''] [''a'', ''a'', ''a''] ''b''"
proof -
  have "\<not> cep_answer [''a'', ''a'', ''b''] [''a'', ''a'', ''a''] ''b''" by code_simp
  then show ?thesis using cep_sound by (auto simp: suffix_def)
qed

section \<open>The interval join\<close>

definition joins :: "string \<Rightarrow> int \<Rightarrow> TimedRecord \<Rightarrow> TimedRecord \<Rightarrow> bool" where
  "joins key bound l r \<longleftrightarrow>
     (case (fmlookup (tr_Record l) key, fmlookup (tr_Record r) key) of
        (Some lv, Some rv) \<Rightarrow> iface_eq rv lv = Some True \<and> \<bar>tr_At l - tr_At r\<bar> \<le> bound
      | _ \<Rightarrow> False)"

definition comparable_key :: "string \<Rightarrow> TimedRecord \<Rightarrow> bool" where
  "comparable_key key r \<longleftrightarrow>
     (case fmlookup (tr_Record r) key of
        Some (VList _) \<Rightarrow> False | Some (VMap _) \<Rightarrow> False | Some (VCounts _) \<Rightarrow> False | Some (VGroups _) \<Rightarrow> False | _ \<Rightarrow> True)"

definition joined :: "TimedRecord \<Rightarrow> TimedRecord \<Rightarrow> Rec" where
  "joined l r = prefixed ''left.'' (tr_Record l) ++\<^sub>f prefixed ''right.'' (tr_Record r)"

lemma iface_eq_total:
  "comparable_key key r \<Longrightarrow> fmlookup (tr_Record r) key = Some rv \<Longrightarrow> \<exists>b. iface_eq rv lv = Some b"
  by (cases rv; cases lv) (auto simp: comparable_key_def)

lemma delta_abs:
  assumes "\<bar>t - u\<bar> < 2 ^ 63"
  shows "(let delta = time_Sub t u in if delta < 0 then wrap64 (- delta) else delta) = \<bar>t - u\<bar>"
proof -
  have "time_Sub t u = t - u" using assms by (simp add: time_Sub_def)
  moreover have "int64_range (- (t - u))" using assms by (simp add: int64_range_def abs_less_iff)
  ultimately show ?thesis by (simp add: Let_def)
qed

lemma join_right_eq:
  assumes "fmlookup (tr_Record l) key = Some lv" "list_all (comparable_key key) right"
    "list_all (\<lambda>r. \<bar>tr_At l - tr_At r\<bar> < 2 ^ 63) right"
  shows "join_right l lv key bound right = Inr (map (joined l) (filter (joins key bound l) right))"
  using assms(2,3)
proof (induction right)
  case (Cons r rs)
  then have IH: "join_right l lv key bound rs = Inr (map (joined l) (filter (joins key bound l) rs))" by simp
  show ?case
  proof (cases "fmlookup (tr_Record r) key")
    case None
    then have "\<not> joins key bound l r" by (simp add: joins_def assms(1))
    with None show ?thesis by (simp add: IH)
  next
    case (Some rv)
    then obtain b where b: "iface_eq rv lv = Some b" using iface_eq_total Cons.prems(1) by fastforce
    have d: "\<bar>tr_At l - tr_At r\<bar> < 2 ^ 63" using Cons.prems(2) by simp
    have "joins key bound l r \<longleftrightarrow> b \<and> \<bar>tr_At l - tr_At r\<bar> \<le> bound" by (simp add: joins_def assms(1) Some b)
    then show ?thesis
      using delta_abs [OF d] by (cases b) (simp_all add: Some b IH joined_def Let_def)
  qed
qed simp

lemma fmadd_lookup: "fmlookup (m ++\<^sub>f n) x = (case fmlookup n x of None \<Rightarrow> fmlookup m x | Some v \<Rightarrow> Some v)"
  by (cases "fmlookup n x") (auto simp: fmlookup_dom_iff)

lemma prefixed_lookup: "fmlookup (prefixed p r) (p @ k) = fmlookup r k"
proof -
  have "map_of (map (\<lambda>k. (p @ k, map_get VNil r k)) ks) (p @ k) = (if k \<in> set ks then Some (map_get VNil r k) else None)" for ks
    by (induction ks) auto
  then show ?thesis by (auto simp: prefixed_def fmlookup_of_list map_get_def fmlookup_dom'_iff split: option.splits)
qed

lemma prefixed_other: "take (length p) q \<noteq> p \<Longrightarrow> fmlookup (prefixed p r) q = None"
proof -
  assume "take (length p) q \<noteq> p"
  then have "map_of (map (\<lambda>k. (p @ k, map_get VNil r k)) ks) q = None" for ks
    by (induction ks) auto
  then show ?thesis by (simp add: prefixed_def fmlookup_of_list)
qed

text \<open>C30. The interval join of two streams, when the key values are comparable and the times are within a 64-bit
  duration of each other: one record for every pair with equal keys and times at most the bound apart, by left record
  and then by right record; in it both sides' fields are kept apart under their prefixes.
\<close>

theorem stream_join_pairs:
  assumes "list_all (comparable_key key) right" "\<forall>l \<in> set left. \<forall>r \<in> set right. \<bar>tr_At l - tr_At r\<bar> < 2 ^ 63"
  shows "StreamJoinWithin left right key bound =
      Inr (concat (map (\<lambda>l. map (joined l) (filter (joins key bound l) right)) left)) \<and>
    fmlookup (joined l r) (''left.'' @ k) = fmlookup (tr_Record l) k \<and>
    fmlookup (joined l r) (''right.'' @ k) = fmlookup (tr_Record r) k"
proof -
  have "StreamJoinWithin left right key bound =
      Inr (concat (map (\<lambda>l. map (joined l) (filter (joins key bound l) right)) left))"
    using assms(2)
  proof (induction left)
    case (Cons l left)
    show ?case
    proof (cases "fmlookup (tr_Record l) key")
      case None
      then have "\<not> joins key bound l r" for r by (simp add: joins_def)
      with None Cons show ?thesis by simp
    next
      case (Some lv)
      have "list_all (\<lambda>r. \<bar>tr_At l - tr_At r\<bar> < 2 ^ 63) right" using Cons.prems by (simp add: list_all_iff)
      from join_right_eq [OF Some assms(1) this] Some Cons show ?thesis by simp
    qed
  qed simp
  moreover have "fmlookup (joined l r) (''left.'' @ k) = fmlookup (tr_Record l) k"
    using prefixed_lookup [of "''left.''" "tr_Record l" k] prefixed_other [of "''right.''" "''left.'' @ k" "tr_Record r"]
    by (simp add: joined_def fmadd_lookup del: fmlookup_add)
  moreover have "fmlookup (joined l r) (''right.'' @ k) = fmlookup (tr_Record r) k"
    using prefixed_lookup [of "''right.''" "tr_Record r" k] prefixed_other [of "''left.''" "''right.'' @ k" "tr_Record l"]
    by (simp add: joined_def fmadd_lookup del: fmlookup_add split: option.split)
  ultimately show ?thesis by blast
qed

theorem stream_join_pairs_witness:
  "StreamJoinWithin [\<lparr> tr_At = 3, tr_Loc = 0, tr_Record = sample_rec ''u'' (VInt 1) \<rparr>] [\<lparr> tr_At = 5, tr_Loc = 0, tr_Record = sample_rec ''u'' (VInt 2) \<rparr>] ''user'' 2 =
   Inr [joined \<lparr> tr_At = 3, tr_Loc = 0, tr_Record = sample_rec ''u'' (VInt 1) \<rparr> \<lparr> tr_At = 5, tr_Loc = 0, tr_Record = sample_rec ''u'' (VInt 2) \<rparr>]"
  using stream_join_pairs [of "''user''" "[\<lparr> tr_At = 5, tr_Loc = 0, tr_Record = sample_rec ''u'' (VInt 2) \<rparr>]"
      "[\<lparr> tr_At = 3, tr_Loc = 0, tr_Record = sample_rec ''u'' (VInt 1) \<rparr>]" 2]
  by (simp add: comparable_key_def joins_def sample_rec_def)

end
