(* ===== verification/Go_Regexp.thy ===== *)
theory Go_Regexp
  imports Go_Strings
begin

text \<open>
  Go's \<^verbatim>\<open>regexp\<close> on anchored expressions: the submatches are those of the first match a backtracking search finds,
  trying alternatives from left to right and repetitions longest first (or shortest first when lazy).  The
  matcher lists all matches in that order, with what each group captured and the text that is left.
\<close>

datatype rex =
    R_Eps
  | R_Class "char \<Rightarrow> bool"
  | R_Lit string
  | R_Seq rex rex
  | R_Alt rex rex
  | R_Star bool rex
  | R_Cap nat rex

type_synonym rstate = "(nat \<times> string) list \<times> string"

fun star_match :: "nat \<Rightarrow> bool \<Rightarrow> (rstate \<Rightarrow> rstate list) \<Rightarrow> rstate \<Rightarrow> rstate list" where
  "star_match 0 greedy f x = [x]"
| "star_match (Suc n) greedy f x =
     (let more = concat (map (star_match n greedy f) (filter (\<lambda>y. length (snd y) < length (snd x)) (f x)))
      in if greedy then more @ [x] else x # more)"

primrec rmatch :: "rex \<Rightarrow> rstate \<Rightarrow> rstate list" where
  "rmatch R_Eps = (\<lambda>x. [x])"
| "rmatch (R_Class p) = (\<lambda>x. case snd x of [] \<Rightarrow> [] | c # s \<Rightarrow> if p c then [(fst x, s)] else [])"
| "rmatch (R_Lit w) = (\<lambda>x. if HasPrefix (snd x) w then [(fst x, drop (length w) (snd x))] else [])"
| "rmatch (R_Seq r1 r2) = (\<lambda>x. concat (map (rmatch r2) (rmatch r1 x)))"
| "rmatch (R_Alt r1 r2) = (\<lambda>x. rmatch r1 x @ rmatch r2 x)"
| "rmatch (R_Star greedy r) = (\<lambda>x. star_match (length (snd x)) greedy (rmatch r) x)"
| "rmatch (R_Cap i r) =
     (\<lambda>x. map (\<lambda>y. ((i, take (length (snd x) - length (snd y)) (snd x)) # fst y, snd y)) (rmatch r x))"

definition R_Plus :: "bool \<Rightarrow> rex \<Rightarrow> rex" where
  "R_Plus greedy r = R_Seq r (R_Star greedy r)"

definition R_Opt :: "rex \<Rightarrow> rex" where
  "R_Opt r = R_Alt r R_Eps"

fun R_Seqs :: "rex list \<Rightarrow> rex" where
  "R_Seqs [] = R_Eps"
| "R_Seqs (r # rs) = R_Seq r (R_Seqs rs)"

text \<open>
  \<^verbatim>\<open>(?i)\<close>: a letter also matches its other case, \<^verbatim>\<open>s\<close> the long s and \<^verbatim>\<open>k\<close> the Kelvin sign as well.
\<close>

definition R_Fold :: "char \<Rightarrow> rex" where
  "R_Fold c =
     (if c = CHR ''s'' then R_Alt (R_Class (\<lambda>x. lower_char x = c)) (R_Lit [CHR 0xC5, CHR 0xBF])
      else if c = CHR ''k'' then R_Alt (R_Class (\<lambda>x. lower_char x = c)) (R_Lit [CHR 0xE2, CHR 0x84, CHR 0xAA])
      else R_Class (\<lambda>x. lower_char x = c))"

definition R_Word :: "string \<Rightarrow> rex" where
  "R_Word w = R_Seqs (map R_Fold w)"

definition R_Space :: rex where
  "R_Space = R_Class (\<lambda>c. c \<in> set [CHR 0x09, CHR 0x0A, CHR 0x0C, CHR 0x0D, CHR 0x20])"

text \<open>Any character but a newline; a rune is taken byte by byte, and no expression here stops inside one.\<close>

definition R_Any :: rex where
  "R_Any = R_Class (\<lambda>c. c \<noteq> CHR 0x0A)"

definition ascii_alnum :: "char \<Rightarrow> bool" where
  "ascii_alnum c \<longleftrightarrow> is_digit c \<or> (97 \<le> (of_char (lower_char c) :: nat) \<and> (of_char (lower_char c) :: nat) \<le> 122)"

definition R_Name :: "char list \<Rightarrow> rex" where
  "R_Name extra = R_Alt (R_Class (\<lambda>c. ascii_alnum c \<or> c \<in> set extra))
     (R_Alt (R_Lit [CHR 0xC5, CHR 0xBF]) (R_Lit [CHR 0xE2, CHR 0x84, CHR 0xAA]))"

definition FindSubmatch :: "rex \<Rightarrow> string \<Rightarrow> (nat \<Rightarrow> string) option" where
  "FindSubmatch r s =
     map_option (\<lambda>x i. case map_of (fst x) i of None \<Rightarrow> [] | Some t \<Rightarrow> t) (find (\<lambda>x. snd x = []) (rmatch r ([], s)))"

section \<open>What a match means\<close>

inductive in_lang :: "rex \<Rightarrow> string \<Rightarrow> bool" where
  eps: "in_lang R_Eps []"
| cls: "p c \<Longrightarrow> in_lang (R_Class p) [c]"
| lit: "in_lang (R_Lit w) w"
| seq: "in_lang r1 s \<Longrightarrow> in_lang r2 t \<Longrightarrow> in_lang (R_Seq r1 r2) (s @ t)"
| alt1: "in_lang r1 s \<Longrightarrow> in_lang (R_Alt r1 r2) s"
| alt2: "in_lang r2 s \<Longrightarrow> in_lang (R_Alt r1 r2) s"
| star0: "in_lang (R_Star g r) []"
| star1: "in_lang r s \<Longrightarrow> in_lang (R_Star g r) t \<Longrightarrow> in_lang (R_Star g r) (s @ t)"
| cap: "in_lang r s \<Longrightarrow> in_lang (R_Cap i r) s"

inductive_cases in_lang_elims:
  "in_lang (R_Class p) s" "in_lang (R_Lit w) s" "in_lang (R_Seq r1 r2) s" "in_lang (R_Alt r1 r2) s" "in_lang R_Eps s"

primrec groups :: "rex \<Rightarrow> (nat \<times> rex) set" where
  "groups R_Eps = {}"
| "groups (R_Class p) = {}"
| "groups (R_Lit w) = {}"
| "groups (R_Seq r1 r2) = groups r1 \<union> groups r2"
| "groups (R_Alt r1 r2) = groups r1 \<union> groups r2"
| "groups (R_Star g r) = groups r"
| "groups (R_Cap i r) = insert (i, r) (groups r)"

text \<open>A step of the matcher consumes a text of the language and captures texts of the languages of its groups.\<close>

definition good_step :: "rex \<Rightarrow> rstate \<Rightarrow> rstate \<Rightarrow> bool" where
  "good_step r x y \<longleftrightarrow> (\<exists>t. snd x = t @ snd y \<and> in_lang r t) \<and>
     (\<forall>(i, t) \<in> set (fst y). (i, t) \<in> set (fst x) \<or> (\<exists>r'. (i, r') \<in> groups r \<and> in_lang r' t))"

lemma star_good:
  assumes "\<And>x y. y \<in> set (f x) \<Longrightarrow> good_step r x y"
  shows "y \<in> set (star_match n g f x) \<Longrightarrow> good_step (R_Star g r) x y"
proof (induction n arbitrary: x)
  case 0
  then show ?case by (auto simp: good_step_def intro: in_lang.star0)
next
  case (Suc n)
  show ?case
  proof (cases "y = x")
    case True
    then show ?thesis by (auto simp: good_step_def intro: in_lang.star0)
  next
    case False
    then obtain z where z: "z \<in> set (f x)" "y \<in> set (star_match n g f z)"
      using Suc.prems by (auto simp: Let_def split: if_splits)
    from assms [OF z(1)] Suc.IH [OF z(2)] show ?thesis
      by (auto simp: good_step_def intro: in_lang.star1)
  qed
qed

lemma rmatch_good: "y \<in> set (rmatch r x) \<Longrightarrow> good_step r x y"
proof (induction r arbitrary: x y)
  case (R_Class p)
  then obtain c where "snd x = [c] @ snd y" "p c" "fst y = fst x" by (cases "snd x") (auto split: if_splits)
  then show ?case using in_lang.cls [of p c] by (auto simp: good_step_def)
next
  case (R_Lit w)
  then show ?case
    by (auto simp: good_step_def HasPrefix_def split: if_splits) (metis append_take_drop_id in_lang.lit)
next
  case (R_Seq r1 r2)
  from R_Seq.prems obtain z where "z \<in> set (rmatch r1 x)" "y \<in> set (rmatch r2 z)" by auto
  then have "good_step r1 x z" "good_step r2 z y" by (simp_all add: R_Seq.IH)
  then show ?case by (auto simp: good_step_def intro: in_lang.seq) blast
next
  case (R_Alt r1 r2)
  from R_Alt.prems have "good_step r1 x y \<or> good_step r2 x y" using R_Alt.IH [of y x] by auto
  then show ?case by (auto simp: good_step_def intro: in_lang.alt1 in_lang.alt2)
next
  case (R_Star g r)
  then show ?case using star_good [of "rmatch r" r] by auto
next
  case (R_Cap i r)
  then obtain z where z: "z \<in> set (rmatch r x)" "y = ((i, take (length (snd x) - length (snd z)) (snd x)) # fst z, snd z)" by auto
  from R_Cap.IH [OF z(1)] show ?case by (auto simp: good_step_def z(2) intro: in_lang.cap)
qed (auto simp: good_step_def intro: in_lang.eps)

lemma FindSubmatch_sound:
  assumes "FindSubmatch r s = Some m"
  shows "in_lang r s" "m i \<noteq> [] \<Longrightarrow> \<exists>r'. (i, r') \<in> groups r \<and> in_lang r' (m i)"
proof -
  obtain x where x: "find (\<lambda>x. snd x = []) (rmatch r ([], s)) = Some x"
      "m = (\<lambda>i. case map_of (fst x) i of None \<Rightarrow> [] | Some t \<Rightarrow> t)"
    using assms by (auto simp: FindSubmatch_def)
  then have "x \<in> set (rmatch r ([], s))" and e: "snd x = []" by (auto simp: find_Some_iff)
  from rmatch_good [OF this(1)] have g: "good_step r ([], s) x" .
  then show "in_lang r s" using e by (auto simp: good_step_def)
  assume "m i \<noteq> []"
  then have "(i, m i) \<in> set (fst x)" using x(2) by (auto split: option.splits dest: map_of_SomeD)
  then show "\<exists>r'. (i, r') \<in> groups r \<and> in_lang r' (m i)" using g by (auto simp: good_step_def)
qed

end
