(* ===== verification/Streamql.thy ===== *)
theory Streamql
  imports Go_Regexp Processor_Ops
begin

text \<open>
  The query language of \<^verbatim>\<open>streamql/\<close>: the parser (\<^verbatim>\<open>parser.go\<close>, \<^verbatim>\<open>ast.go\<close>), the planner (\<^verbatim>\<open>planner.go\<close>) and the
  translation of a plan to stream operators (\<^verbatim>\<open>executor.go\<close>); and the distribution of a plan over processor addresses
  (\<^verbatim>\<open>planner/planner.go\<close>).
\<close>

section \<open>Parsing\<close>

definition selectRe :: rex where
  "selectRe = R_Seqs
     [R_Star True R_Space, R_Word ''select'', R_Plus True R_Space, R_Cap 1 (R_Plus True R_Any),
      R_Plus True R_Space, R_Word ''from'', R_Plus True R_Space, R_Cap 2 (R_Plus True (R_Name ''_.'')),
      R_Opt (R_Seqs [R_Plus True R_Space, R_Word ''where'', R_Plus True R_Space, R_Cap 3 (R_Plus False R_Any)]),
      R_Opt (R_Seqs [R_Plus True R_Space, R_Word ''group'', R_Plus True R_Space, R_Word ''by'', R_Plus True R_Space,
        R_Cap 4 (R_Plus False R_Any)]),
      R_Opt (R_Seqs [R_Plus True R_Space, R_Word ''window'', R_Plus True R_Space, R_Cap 5 (R_Plus True (R_Class is_digit)),
        R_Opt (R_Cap 6 (R_Alt (R_Word ''ms'') (R_Word ''s'')))]),
      R_Star True R_Space]"

record Query =
  q_Select :: "string list"
  q_From :: string
  q_Where :: string
  q_GroupBy :: "string list"
  q_WindowMs :: int

definition list_items :: "string \<Rightarrow> string list" where
  "list_items s = map TrimSpace (split_char (CHR '','') s)"

definition window_ms :: "string \<Rightarrow> string \<Rightarrow> int" where
  "window_ms n unit =
     (case ParseInt n of None \<Rightarrow> 0 | Some v \<Rightarrow> if unit = ''s'' then wrap64 (v * 1000) else v)"

definition Parse :: "string \<Rightarrow> go_error + Query" where
  "Parse input =
     (case FindSubmatch selectRe (TrimSpace input) of
        None \<Rightarrow> Inl (Err ''invalid query'')
      | Some m \<Rightarrow>
          Inr \<lparr> q_Select = list_items (m 1), q_From = m 2,
                q_Where = TrimSpace (m 3),
                q_GroupBy = (if TrimSpace (m 4) \<noteq> [] then list_items (m 4) else []),
                q_WindowMs = (if TrimSpace (m 5) \<noteq> [] then window_ms (TrimSpace (m 5)) (TrimSpace (m 6)) else 0) \<rparr>)"

section \<open>Planning\<close>

record Plan =
  pl_Source :: string
  pl_Projections :: "string list"
  pl_Filter :: string
  pl_GroupBy :: "string list"
  pl_Aggregates :: "string list"
  pl_WindowMs :: int

definition is_aggregate :: "string \<Rightarrow> bool" where
  "is_aggregate s \<longleftrightarrow>
     (let ls = ToLower s in HasPrefix ls ''count('' \<or> HasPrefix ls ''sum('' \<or> HasPrefix ls ''avg('')"

definition Planify :: "Query \<Rightarrow> Plan" where
  "Planify q =
     \<lparr> pl_Source = q_From q, pl_Projections = q_Select q, pl_Filter = q_Where q, pl_GroupBy = q_GroupBy q,
       pl_Aggregates = filter is_aggregate (q_Select q), pl_WindowMs = q_WindowMs q \<rparr>"

section \<open>Executing\<close>



definition aggRe :: rex where
  "aggRe = R_Seqs
     [R_Star True R_Space, R_Cap 1 (R_Alt (R_Word ''sum'') (R_Alt (R_Word ''avg'') (R_Word ''count''))),
      R_Star True R_Space, R_Lit ''('', R_Star True R_Space, R_Cap 2 (R_Plus True (R_Name ''_*'')),
      R_Star True R_Space, R_Lit '')'', R_Star True R_Space,
      R_Opt (R_Seqs [R_Word ''as'', R_Plus True R_Space, R_Cap 3 (R_Plus True (R_Name ''_''))]), R_Star True R_Space]"

fun agg_specs :: "string list \<Rightarrow> AggSpec list" where
  "agg_specs [] = []"
| "agg_specs (a # as) =
     (case FindSubmatch aggRe a of
        None \<Rightarrow> agg_specs as
      | Some m \<Rightarrow> \<lparr> as_Func = ToLower (m 1), as_Field = m 2, as_Alias = m 3 \<rparr> # agg_specs as)"






section \<open>Distribution\<close>

record PlanFragment =
  fr_ID :: string
  fr_Address :: string
  fr_Projections :: "string list"

definition Distribute :: "string list \<Rightarrow> string list \<Rightarrow> PlanFragment list" where
  "Distribute addresses projections =
     map (\<lambda>(i, addr). \<lparr> fr_ID = fmt_d (int i), fr_Address = addr, fr_Projections = projections \<rparr>) (enumerate 0 addresses)"

section \<open>What the parser accepts\<close>

lemma sample_parse:
  "Parse ''SELECT a, b FROM t.x WHERE a = 1 GROUP BY g WINDOW 5s'' =
    Inr \<lparr> q_Select = [''a'', ''b''], q_From = ''t.x'', q_Where = ''a = 1'', q_GroupBy = [''g''], q_WindowMs = 5000 \<rparr>"
  by code_simp

lemma sample_parse_unit: "Parse ''SELECT a FROM t WINDOW 5S'' =
    Inr \<lparr> q_Select = [''a''], q_From = ''t'', q_Where = [], q_GroupBy = [], q_WindowMs = 5 \<rparr>"
  by code_simp

lemma sample_specs: "agg_specs [''COUNT(*)'', ''Sum( x ) as total''] =
    [\<lparr> as_Func = ''count'', as_Field = ''*'', as_Alias = [] \<rparr>, \<lparr> as_Func = ''sum'', as_Field = ''x'', as_Alias = ''total'' \<rparr>]"
  by code_simp

section \<open>Groups that every match captures\<close>

primrec must :: "nat \<Rightarrow> rex \<Rightarrow> bool" where
  "must i R_Eps \<longleftrightarrow> False"
| "must i (R_Class p) \<longleftrightarrow> False"
| "must i (R_Lit w) \<longleftrightarrow> False"
| "must i (R_Seq r1 r2) \<longleftrightarrow> must i r1 \<or> must i r2"
| "must i (R_Alt r1 r2) \<longleftrightarrow> must i r1 \<and> must i r2"
| "must i (R_Star g r) \<longleftrightarrow> False"
| "must i (R_Cap j r) \<longleftrightarrow> i = j \<or> must i r"

lemma star_keeps:
  assumes "\<And>x y. y \<in> set (f x) \<Longrightarrow> set (fst x) \<subseteq> set (fst y)"
  shows "y \<in> set (star_match n g f x) \<Longrightarrow> set (fst x) \<subseteq> set (fst y)"
proof (induction n arbitrary: x)
  case (Suc n)
  show ?case
  proof (cases "y = x")
    case False
    then obtain z where z: "z \<in> set (f x)" "y \<in> set (star_match n g f z)"
      using Suc.prems by (auto simp: Let_def split: if_splits)
    then show ?thesis using Suc.IH [OF z(2)] assms [OF z(1)] by blast
  qed simp
qed auto

lemma rmatch_keeps: "y \<in> set (rmatch r x) \<Longrightarrow> set (fst x) \<subseteq> set (fst y)"
proof (induction r arbitrary: x y)
  case (R_Seq r1 r2)
  from R_Seq.prems obtain z where "z \<in> set (rmatch r1 x)" "y \<in> set (rmatch r2 z)" by auto
  then show ?case using R_Seq.IH by (meson order_trans)
next
  case (R_Alt r1 r2)
  then show ?case by (metis Un_iff rmatch.simps(5) set_append)
next
  case (R_Star g r)
  then show ?case using star_keeps [of "rmatch r"] by simp
next
  case (R_Cap i r)
  from R_Cap.prems obtain z where "z \<in> set (rmatch r x)" "\<exists>t. fst y = (i, t) # fst z" by auto
  then show ?case using R_Cap.IH [of z x] by auto
qed (auto split: list.splits if_splits)

lemma rmatch_must: "y \<in> set (rmatch r x) \<Longrightarrow> must i r \<Longrightarrow> \<exists>t. (i, t) \<in> set (fst y)"
proof (induction r arbitrary: x y)
  case (R_Seq r1 r2)
  from R_Seq.prems obtain z where z: "z \<in> set (rmatch r1 x)" "y \<in> set (rmatch r2 z)" by auto
  then show ?case using R_Seq.IH(1) [OF z(1)] R_Seq.IH(2) [OF z(2)] R_Seq.prems(2) rmatch_keeps [OF z(2)] by auto
next
  case (R_Alt r1 r2)
  then show ?case by (metis Un_iff must.simps(5) rmatch.simps(5) set_append)
next
  case (R_Cap j r)
  from R_Cap.prems obtain z where "z \<in> set (rmatch r x)" "\<exists>t. fst y = (j, t) # fst z" by auto
  then show ?case using R_Cap.IH [of z x] R_Cap.prems(2) by auto
qed auto

lemma FindSubmatch_must:
  assumes "FindSubmatch r s = Some m" "must i r"
  shows "\<exists>r'. (i, r') \<in> groups r \<and> in_lang r' (m i)"
proof -
  obtain x where x: "find (\<lambda>x. snd x = []) (rmatch r ([], s)) = Some x"
      "m = (\<lambda>i. case map_of (fst x) i of None \<Rightarrow> [] | Some t \<Rightarrow> t)"
    using assms(1) by (auto simp: FindSubmatch_def)
  then have "x \<in> set (rmatch r ([], s))" by (auto simp: find_Some_iff)
  from rmatch_must [OF this assms(2)] obtain t where "map_of (fst x) i = Some t"
    by (meson weak_map_of_SomeI)
  then have t: "m i = t" "(i, t) \<in> set (fst x)" using x(2) by (auto dest: map_of_SomeD)
  with rmatch_good [OF \<open>x \<in> set (rmatch r ([], s))\<close>] show ?thesis by (auto simp: good_step_def)
qed

lemma in_star_chars: "in_lang (R_Star g r) s \<Longrightarrow> (\<And>t. in_lang r t \<Longrightarrow> list_all p t) \<Longrightarrow> list_all p s"
  by (induction "R_Star g r" s rule: in_lang.induct) auto

lemma in_plus_chars:
  assumes "in_lang (R_Plus g r) s" "\<And>t. in_lang r t \<Longrightarrow> t \<noteq> [] \<and> list_all p t"
  shows "s \<noteq> [] \<and> list_all p s"
proof -
  obtain a b where "s = a @ b" "in_lang r a" "in_lang (R_Star g r) b"
    using assms(1) unfolding R_Plus_def by (auto elim: in_lang_elims)
  then show ?thesis using assms(2) in_star_chars [of g r b p] by auto
qed

definition name_byte :: "char \<Rightarrow> bool" where
  "name_byte c \<longleftrightarrow> ascii_alnum c \<or> c = CHR ''_'' \<or> c = CHR ''.'' \<or> 128 \<le> (of_char c :: nat)"

lemma in_name: "in_lang (R_Name ''_.'') t \<Longrightarrow> t \<noteq> [] \<and> list_all name_byte t"
  unfolding R_Name_def by (auto elim!: in_lang_elims simp: name_byte_def)

lemma groups_Seqs: "groups (R_Seqs rs) = (\<Union>r \<in> set rs. groups r)" "must i (R_Seqs rs) = (\<exists>r \<in> set rs. must i r)"
  by (induction rs) auto

lemma groups_Word [simp]: "groups (R_Word w) = {}" "must i (R_Word w) = False"
  by (auto simp: R_Word_def groups_Seqs R_Fold_def)

lemma select_groups:
  "groups selectRe = {(1, R_Plus True R_Any), (2, R_Plus True (R_Name ''_.'')), (3, R_Plus False R_Any), (4, R_Plus False R_Any),
     (5, R_Plus True (R_Class is_digit)), (6, R_Alt (R_Word ''ms'') (R_Word ''s''))}"
  "must 1 selectRe" "must 2 selectRe"
  by (auto simp: selectRe_def groups_Seqs R_Plus_def R_Opt_def R_Space_def R_Any_def R_Name_def)

lemma ParseInt_range: "ParseInt s = Some v \<Longrightarrow> int64_range v"
  by (auto simp: ParseInt_def Let_def split: list.splits option.splits if_splits)

lemma window_ms_range: "int64_range (window_ms n u)"
  using ParseInt_range [of n] by (auto simp: window_ms_def split: option.split) (simp add: int64_range_def)

text \<open>
  What the parser returns is well formed: a source name without white space, at least one selected item, every
  item and the condition trimmed, a window that is a 64-bit number.
\<close>

theorem parse_wellformed:
  assumes "Parse input = Inr q"
  shows "q_From q \<noteq> [] \<and> list_all name_byte (q_From q) \<and> q_Select q \<noteq> [] \<and> int64_range (q_WindowMs q) \<and>
    TrimSpace (q_Where q) = q_Where q \<and> list_all (\<lambda>x. TrimSpace x = x) (q_Select q @ q_GroupBy q)"
proof -
  obtain m where m: "FindSubmatch selectRe (TrimSpace input) = Some m"
    using assms by (auto simp: Parse_def split: option.splits)
  have "in_lang (R_Plus True (R_Name ''_.'')) (m 2)"
    using FindSubmatch_must [OF m select_groups(3)] by (auto simp: select_groups(1))
  then have "m 2 \<noteq> [] \<and> list_all name_byte (m 2)" by (rule in_plus_chars) (rule in_name)
  then show ?thesis
    using assms m window_ms_range by (auto simp: Parse_def list_items_def list_all_iff int64_range_def)
qed

theorem parse_wellformed_witness:
  "list_all name_byte ''t.x''"
  using parse_wellformed [OF sample_parse] by simp

section \<open>Filtering and projecting\<close>











lemma operators_as_lists [simp]:
  "FilterOperator f rs = filter f rs" "MapOperator (\<lambda>r. Some (g r)) rs = map g rs"
  by (induction rs) auto







section \<open>Parsing a plain selection\<close>

lemma star_class:
  "length s \<le> n \<Longrightarrow> star_match n True (rmatch (R_Class p)) (c, s) =
    map (\<lambda>k. (c, drop k s)) (rev [0..<Suc (length (takeWhile p s))])"
proof (induction n arbitrary: s)
  case (Suc n)
  show ?case
  proof (cases s)
    case (Cons a s')
    have "rev [0..<Suc (Suc k)] = map Suc (rev [0..<Suc k]) @ [0]" for k
    proof -
      have "[0..<Suc (Suc k)] = 0 # map Suc [0..<Suc k]" by (simp add: upt_conv_Cons map_Suc_upt del: upt_Suc)
      then show ?thesis by (simp add: rev_map del: upt_Suc)
    qed
    moreover have "[0..<Suc 0] = [0]" by simp
    ultimately show ?thesis using Suc Cons by (simp add: comp_def del: upt_Suc)
  qed simp
qed simp

lemma rmatch_star_class:
  "rmatch (R_Star True (R_Class p)) (c, s) = map (\<lambda>k. (c, drop k s)) (rev [0..<Suc (length (takeWhile p s))])"
  by (simp add: star_class del: upt_Suc rmatch.simps(2))

lemma rmatch_plus_class:
  "p a \<Longrightarrow> rmatch (R_Plus True (R_Class p)) (c, a # s) =
    map (\<lambda>k. (c, drop k s)) (rev [0..<Suc (length (takeWhile p s))])"
  by (simp add: R_Plus_def rmatch_star_class del: rmatch.simps(6) upt_Suc)

text \<open>White space that is one character long is matched in one way.\<close>

definition is_space :: "char \<Rightarrow> bool" where
  "is_space c \<longleftrightarrow> c \<in> set [CHR 0x09, CHR 0x0A, CHR 0x0C, CHR 0x0D, CHR 0x20]"

lemma R_Space_class: "R_Space = R_Class is_space"
  by (simp add: R_Space_def is_space_def [abs_def])

lemma visible_not_space: "visible c \<Longrightarrow> \<not> is_space c"
  by (auto simp: visible_def is_space_def)

lemma space_once: "visible c \<Longrightarrow> rmatch (R_Plus True R_Space) (cs, CHR '' '' # c # s) = [(cs, c # s)]"
  using rmatch_plus_class [of is_space "CHR '' ''" cs "c # s"] visible_not_space [of c]
  by (simp add: R_Space_class is_space_def [of "CHR '' ''"])

lemma space_none: "visible c \<Longrightarrow> rmatch (R_Star True R_Space) (cs, c # s) = [(cs, c # s)]"
  using rmatch_star_class [of is_space cs "c # s"] visible_not_space [of c] by (simp add: R_Space_class)

lemma word_once:
  "rmatch (R_Word ''select'') (cs, ''select'' @ s) = [(cs, s)]" "rmatch (R_Word ''from'') (cs, ''from'' @ s) = [(cs, s)]"
  by (simp_all add: R_Word_def R_Fold_def lower_char_def HasPrefix_def)

lemma in_space: "in_lang (R_Plus True R_Space) s \<Longrightarrow> s \<noteq> [] \<and> list_all is_space s"
  by (rule in_plus_chars) (auto simp: R_Space_class elim!: in_lang_elims)

text \<open>What follows the select list, and that it needs two stretches of white space.\<close>

definition tail_opts :: "rex list" where
  "tail_opts =
     [R_Opt (R_Seqs [R_Plus True R_Space, R_Word ''where'', R_Plus True R_Space, R_Cap 3 (R_Plus False R_Any)]),
      R_Opt (R_Seqs [R_Plus True R_Space, R_Word ''group'', R_Plus True R_Space, R_Word ''by'', R_Plus True R_Space,
        R_Cap 4 (R_Plus False R_Any)]),
      R_Opt (R_Seqs [R_Plus True R_Space, R_Word ''window'', R_Plus True R_Space, R_Cap 5 (R_Plus True (R_Class is_digit)),
        R_Opt (R_Cap 6 (R_Alt (R_Word ''ms'') (R_Word ''s'')))]),
      R_Star True R_Space]"

definition select_tail :: rex where
  "select_tail = R_Seqs ([R_Plus True R_Space, R_Word ''from'', R_Plus True R_Space, R_Cap 2 (R_Plus True (R_Name ''_.''))] @ tail_opts)"

lemma concat_map_concat: "concat (map f (concat xs)) = concat (map (\<lambda>ys. concat (map f ys)) xs)"
  by (induction xs) auto

lemma rmatch_Seqs_append:
  "rmatch (R_Seqs (rs @ ts)) x = concat (map (rmatch (R_Seqs ts)) (rmatch (R_Seqs rs) x))"
proof (induction rs arbitrary: x)
  case (Cons r rs)
  have "rmatch (R_Seqs (rs @ ts)) = (\<lambda>y. concat (map (rmatch (R_Seqs ts)) (rmatch (R_Seqs rs) y)))" using Cons by auto
  then show ?case by (simp add: concat_map_concat comp_def)
qed simp

lemma rmatch_Seqs_single: "rmatch (R_Seqs [r]) x = rmatch r x"
  by simp

lemma selectRe_tail:
  "rmatch selectRe x = concat (map (rmatch select_tail)
     (rmatch (R_Seqs [R_Star True R_Space, R_Word ''select'', R_Plus True R_Space, R_Cap 1 (R_Plus True R_Any)]) x))"
  unfolding select_tail_def rmatch_Seqs_append [symmetric] by (simp add: selectRe_def tail_opts_def)

definition spaces :: "string \<Rightarrow> nat" where
  "spaces s = length (filter is_space s)"

lemma tail_spaces: "in_lang select_tail s \<Longrightarrow> 2 \<le> spaces s"
proof -
  assume "in_lang select_tail s"
  then obtain a b c d where s: "s = a @ b @ c @ d" "in_lang (R_Plus True R_Space) a" "in_lang (R_Plus True R_Space) c"
    by (auto simp: select_tail_def elim!: in_lang_elims(3))
  then have "filter is_space a \<noteq> []" "filter is_space c \<noteq> []"
    using in_space by (auto simp: filter_empty_conv list_all_iff)
  then show ?thesis by (cases "filter is_space a"; cases "filter is_space c") (auto simp: s(1) spaces_def)
qed

lemma tail_no_match:
  assumes "spaces s \<le> 1"
  shows "find (\<lambda>x. snd x = []) (rmatch select_tail (cs, s)) = None"
proof (rule ccontr)
  assume "find (\<lambda>x. snd x = []) (rmatch select_tail (cs, s)) \<noteq> None"
  then obtain x where "x \<in> set (rmatch select_tail (cs, s))" "snd x = []" by (auto simp: find_None_iff)
  then have "in_lang select_tail s" using rmatch_good by (fastforce simp: good_step_def)
  with tail_spaces assms show False by fastforce
qed

lemma opts_empty: "rmatch (R_Seqs tail_opts) (cs, []) = [(cs, [])]"
  by (simp add: tail_opts_def R_Opt_def R_Plus_def R_Space_def)

text \<open>The source name is taken whole.\<close>

definition name_char :: "char \<Rightarrow> bool" where
  "name_char c \<longleftrightarrow> ascii_alnum c \<or> c \<in> set ''_.''"

lemma name_char_visible: "name_char c \<Longrightarrow> visible c"
  by (auto simp: name_char_def ascii_alnum_def is_digit_def lower_char_def visible_def split: if_splits)

lemma name_once: "name_char c \<Longrightarrow> rmatch (R_Name ''_.'') (cs, c # s) = [(cs, s)]"
  by (auto simp: R_Name_def name_char_def HasPrefix_def ascii_alnum_def is_digit_def lower_char_def split: if_splits)

lemma name_star:
  "list_all name_char t \<Longrightarrow> length t \<le> n \<Longrightarrow> \<exists>rest. star_match n True (rmatch (R_Name ''_.'')) (cs, t) = (cs, []) # rest"
proof (induction n arbitrary: t)
  case (Suc n)
  show ?case
  proof (cases t)
    case Nil
    then show ?thesis by (simp add: R_Name_def HasPrefix_def)
  next
    case (Cons c s)
    then obtain rest where "star_match n True (rmatch (R_Name ''_.'')) (cs, s) = (cs, []) # rest" using Suc by auto
    then show ?thesis using Cons Suc.prems(1) by (simp add: name_once)
  qed
qed simp

lemma tail_match:
  assumes "list_all name_char t" "t \<noteq> []"
  shows "find (\<lambda>x. snd x = []) (rmatch select_tail (cs, '' from '' @ t)) = Some ((2, t) # cs, [])"
proof -
  obtain c s where t: "t = c # s" "name_char c" "list_all name_char s" using assms by (cases t) auto
  obtain rest where star: "star_match (length s) True (rmatch (R_Name ''_.'')) (cs, s) = (cs, []) # rest"
    using name_star [OF t(3)] by blast
  define q where "q = '' from '' @ t"
  have f: "visible (CHR ''f'')" by (simp add: visible_def)
  have A: "rmatch (R_Cap 2 (R_Plus True (R_Name ''_.''))) (cs, t) = ((2, t) # cs, []) # map (\<lambda>y. ((2, take (length t - length (snd y)) t) # fst y, snd y)) rest"
    by (simp add: R_Plus_def t(1) name_once [OF t(2)] star)
  have B: "rmatch (R_Seqs [R_Plus True R_Space, R_Word ''from'', R_Plus True R_Space]) (cs, q) = [(cs, t)]"
    using space_once [OF f, of cs "''rom '' @ t"] word_once(2) [of cs "CHR '' '' # t"] space_once [OF name_char_visible [OF t(2)], of cs s]
    by (simp add: t(1) q_def)
  have "rmatch (R_Seqs [R_Plus True R_Space, R_Word ''from'', R_Plus True R_Space, R_Cap 2 (R_Plus True (R_Name ''_.''))])
      (cs, q) = ((2, t) # cs, []) # map (\<lambda>y. ((2, take (length t - length (snd y)) t) # fst y, snd y)) rest"
    using rmatch_Seqs_append [of "[R_Plus True R_Space, R_Word ''from'', R_Plus True R_Space]" "[R_Cap 2 (R_Plus True (R_Name ''_.''))]"]
    by (simp only: B list.map concat.simps rmatch_Seqs_single A append_Nil2 append.simps)
  then show ?thesis unfolding q_def [symmetric] select_tail_def rmatch_Seqs_append
    by (simp only: opts_empty list.map concat.simps append.simps find.simps snd_conv simp_thms if_True)
qed

text \<open>The select list takes the longest stretch that leaves a matching tail.\<close>

lemma find_concat:
  "(\<And>x. x \<in> set xs \<Longrightarrow> find P (g x) = None) \<Longrightarrow> find P (g y) = Some z \<Longrightarrow> find P (concat (map g (xs @ y # ys))) = Some z"
proof (induction xs)
  case Nil
  then show ?case by (induction "g y") (auto simp: find_Some_iff nth_append)
next
  case (Cons x xs)
  have "find P (us @ vs) = (case find P us of None \<Rightarrow> find P vs | Some u \<Rightarrow> Some u)" for us vs by (induction us) auto
  then show ?case using Cons by simp
qed

lemma spaces_drop: "spaces (drop n s) \<le> spaces s"
proof -
  have "spaces s = spaces (take n s) + spaces (drop n s)" unfolding spaces_def length_append [symmetric] filter_append [symmetric] by simp
  then show ?thesis by simp
qed

lemma select_split:
  assumes "list_all visible (a # f)" "list_all name_char t" "t \<noteq> []"
  shows "find (\<lambda>x. snd x = []) (rmatch selectRe ([], ''select '' @ (a # f) @ '' from '' @ t)) = Some ([(2, t), (1, a # f)], [])"
proof -
  define r where "r = f @ '' from '' @ t"
  define h where "h = (\<lambda>k. ([(1::nat, take (Suc (length r) - length (drop k r)) (a # r))], drop k r))"
  have "list_all visible t" using assms(2) name_char_visible by (auto simp: list_all_iff)
  then have "list_all (\<lambda>c. c \<noteq> CHR 0x0A) (a # r)" using assms(1) by (auto simp: r_def list_all_iff visible_def)
  then have "rmatch (R_Cap 1 (R_Plus True R_Any)) ([], a # r) = map h (rev [0..<Suc (length r)])"
    using rmatch_plus_class [of "\<lambda>c. c \<noteq> CHR 0x0A" a "[]" r]
    by (simp add: R_Any_def h_def comp_def takeWhile_eq_all_conv [THEN iffD2] list_all_iff del: upt_Suc)
  then have cap: "rmatch (R_Seqs [R_Cap 1 (R_Plus True R_Any)]) ([], a # r) = map h (rev [0..<Suc (length r)])"
    by (simp only: rmatch_Seqs_single)
  have pre: "rmatch (R_Seqs [R_Star True R_Space, R_Word ''select'', R_Plus True R_Space]) ([], ''select '' @ a # r) = [([], a # r)]"
    using space_none [of "CHR ''s''" "[]" "''elect '' @ a # r"] word_once(1) [of "[]" "CHR '' '' # a # r"] space_once [of a "[]" r] assms(1)
    by (simp add: visible_def del: rmatch.simps(6))
  define q where "q = ''select '' @ a # r"
  have hd4: "rmatch (R_Seqs [R_Star True R_Space, R_Word ''select'', R_Plus True R_Space, R_Cap 1 (R_Plus True R_Any)]) ([], q)
      = map h (rev [0..<Suc (length r)])"
    using rmatch_Seqs_append [of "[R_Star True R_Space, R_Word ''select'', R_Plus True R_Space]" "[R_Cap 1 (R_Plus True R_Any)]" "([], q)"]
    by (simp only: pre [folded q_def] list.map concat.simps cap append_Nil2 append.simps)
  have split: "rev [0..<Suc (length r)] = rev [Suc (length f)..<Suc (length r)] @ length f # rev [0..<length f]"
  proof -
    have "length f \<le> length r" by (simp add: r_def)
    then have "[0..<Suc (length r)] = [0..<length f] @ [length f..<Suc (length r)]" "length f < Suc (length r)"
      using upt_add_eq_append [of 0 "length f" "Suc (length r) - length f"] by (simp_all del: upt_Suc)
    then show ?thesis using upt_conv_Cons [of "length f" "Suc (length r)"] by (simp del: upt_Suc)
  qed
  have "find (\<lambda>x. snd x = []) (rmatch select_tail (h k)) = None" if "k \<in> set (rev [Suc (length f)..<Suc (length r)])" for k
  proof -
    have k: "length f < k" using that by auto
    have "spaces t = 0" using \<open>list_all visible t\<close> visible_not_space by (auto simp: spaces_def list_all_iff filter_empty_conv)
    then have "spaces (''from '' @ t) = 1" by (simp add: spaces_def is_space_def)
    moreover have "drop k r = drop (k - Suc (length f)) (''from '' @ t)" using k by (simp add: r_def drop_Cons' del: drop_append) (simp add: drop_Cons')
    ultimately have "spaces (drop k r) \<le> 1" using spaces_drop [of "k - Suc (length f)" "''from '' @ t"] by simp
    then show ?thesis unfolding h_def by (rule tail_no_match)
  qed
  moreover have "find (\<lambda>x. snd x = []) (rmatch select_tail (h (length f))) = Some ([(2, t), (1, a # f)], [])"
    using tail_match [OF assms(2, 3), of "[(1, a # f)]"] by (simp add: h_def r_def)
  ultimately have "find (\<lambda>x. snd x = []) (concat (map (\<lambda>k. rmatch select_tail (h k)) (rev [0..<Suc (length r)])))
      = Some ([(2, t), (1, a # f)], [])"
    unfolding split by (rule find_concat)
  then show ?thesis using hd4 by (simp add: selectRe_tail q_def r_def comp_def del: upt_Suc)
qed

lemma join_visible: "list_all word xs \<Longrightarrow> list_all visible (join_char (CHR '','') xs)"
  by (induction "CHR '',''" xs rule: join_char.induct) (auto simp: word_def visible_def)

lemma join_nonempty: "xs \<noteq> [] \<Longrightarrow> list_all word xs \<Longrightarrow> join_char (CHR '','') xs \<noteq> []"
  by (cases xs rule: list.exhaust; cases "tl xs") (auto simp: word_def)

text \<open>C39. A plain selection is parsed as it is written: the names between the commas, in order, and the source name; no
  condition, no grouping, no window.
\<close>

theorem parse_select_from:
  assumes "xs \<noteq> []" "list_all word xs" "\<forall>x \<in> set xs. CHR '','' \<notin> set x" "t \<noteq> []" "list_all name_char t"
  shows "Parse (''select '' @ join_char (CHR '','') xs @ '' from '' @ t) =
    Inr \<lparr> q_Select = xs, q_From = t, q_Where = [], q_GroupBy = [], q_WindowMs = 0 \<rparr>"
proof -
  obtain a f where f: "join_char (CHR '','') xs = a # f" using join_nonempty [OF assms(1,2)] by (cases "join_char (CHR '','') xs") auto
  have "trimmed (''select '' @ (a # f) @ '' from '' @ t)"
    using assms(4,5) name_char_visible by (auto simp: trimmed_def visible_def list_all_iff)
  moreover have "list_all visible (a # f)" using join_visible [OF assms(2)] f by simp
  moreover have "list_items (a # f) = xs"
    using split_join_char [OF assms(1,3)] f assms(2) TrimSpace_trimmed(1) [OF word_trimmed]
    by (auto simp: list_items_def list_all_iff map_idI)
  moreover have "TrimSpace [] = []" by code_simp
  ultimately show ?thesis
    using select_split [of a f t] TrimSpace_trimmed(1) assms(4,5) f by (simp add: Parse_def FindSubmatch_def)
qed

theorem parse_select_from_witness:
  "Parse ''select id,v from ev.t_1'' = Inr \<lparr> q_Select = [''id'', ''v''], q_From = ''ev.t_1'', q_Where = [], q_GroupBy = [], q_WindowMs = 0 \<rparr>"
proof -
  have "list_all word [''id'', ''v'']" "list_all name_char ''ev.t_1''" by code_simp+
  then show ?thesis using parse_select_from [of "[''id'', ''v'']" "''ev.t_1''"] by simp
qed

end
