(* ===== verification/Processor_Net.thy ===== *)
theory Processor_Net
  imports Streamql Go_Http "HOL-Library.Multiset"
begin

text \<open>
  The line protocol between processors (\<^verbatim>\<open>processor/transport_grpc.go\<close>) and the distributed run over it
  (\<^verbatim>\<open>planner/runner.go\<close>): JSON records, one per line, over a byte stream in each direction.  A connection is the bytes
  that arrived and the bytes that were written; which write fails, and after how many bytes, is an argument.
\<close>

section \<open>Records as JSON\<close>

text \<open>
  \<^verbatim>\<open>encoding/json\<close> writes a \<^verbatim>\<open>float64\<close> with the fewest digits that read back, in the exponent form from 1e21 on and
  below 1e-6, and has no text for infinities and NaN.
\<close>

definition json_float :: "float64 \<Rightarrow> string option" where
  "json_float x =
     (case x of
        F_Fin s m e \<Rightarrow>
          Some ((if s then ''-'' else []) @
            (if m = 0 then ''0''
             else
               (let (n, d) = shift_frac m 1 e; x10 = dec_exp n d 0 700;
                    (c, sc) = shortest_digits (F_Fin False m e) n d x10 1 17;
                    ds = strip_dec_zeros (nat_dec c); dp = int (length (nat_dec c)) + sc; ex = dp - 1
                in if ex < - 6 \<or> ex \<ge> 21 then
                     take 1 ds @ (if length ds > 1 then ''.'' @ drop 1 ds else []) @
                       (if ex < 0 then ''e-'' else ''e+'') @ nat_dec (nat \<bar>ex\<bar>)
                   else if dp \<le> 0 then ''0.'' @ replicate (nat (- dp)) (CHR ''0'') @ ds
                   else if int (length ds) \<le> dp then ds @ replicate (nat dp - length ds) (CHR ''0'')
                   else take (nat dp) ds @ ''.'' @ drop (nat dp) ds)))
      | _ \<Rightarrow> None)"

definition json_agg :: "agg_val \<Rightarrow> json option" where
  "json_agg v = (case v of Agg_Int i \<Rightarrow> Some (json_int i) | Agg_Float f \<Rightarrow> map_option JNum (json_float f))"

definition json_member :: "(string \<times> json option) \<Rightarrow> (string \<times> json) option" where
  "json_member kv = map_option (Pair (json_escape (fst kv))) (snd kv)"

definition json_object :: "(string \<times> json option) list \<Rightarrow> json option" where
  "json_object kvs = map_option JObj (those (map json_member kvs))"

fun json_val :: "gval \<Rightarrow> json option" where
  "json_val VNil = Some JNull"
| "json_val (VBool b) = Some (JBool b)"
| "json_val (VInt i) = Some (json_int i)"
| "json_val (VFloat f) = map_option JNum (json_float f)"
| "json_val (VStr s) = Some (json_str s)"
| "json_val (VList vs) = map_option JArr (those (map json_val vs))"
| "json_val (VMap kvs) = json_object (sort_key fst (map (\<lambda>kv. (fst kv, json_val (snd kv))) kvs))"
| "json_val (VCounts m) = json_object (map (\<lambda>k. (k, Some (json_int (map_get 0 m k)))) (sorted_keys m))"
| "json_val (VGroups m) =
     json_object (map (\<lambda>g. (g, json_object (map (\<lambda>k. (k, json_agg (map_get (Agg_Int 0) (map_get fmempty m g) k)))
       (sorted_keys (map_get fmempty m g))))) (sorted_keys m))"

text \<open>A record is a Go map, which may be nil.\<close>

definition json_Marshal_Rec :: "Rec option \<Rightarrow> bytes option" where
  "json_Marshal_Rec r =
     map_option json_text
       (case r of None \<Rightarrow> Some JNull
        | Some m \<Rightarrow> json_object (map (\<lambda>k. (k, json_val (map_get VNil m k))) (sorted_keys m)))"

text \<open>Decoding into an empty interface: numbers become \<^verbatim>\<open>float64\<close>, of equal keys the last one counts.\<close>

definition put_entry :: "(string \<times> gval) \<Rightarrow> (string \<times> gval) list \<Rightarrow> (string \<times> gval) list" where
  "put_entry kv kvs = filter (\<lambda>e. fst e \<noteq> fst kv) kvs @ [kv]"

definition dec_member :: "string \<Rightarrow> gval option \<Rightarrow> (string \<times> gval) option" where
  "dec_member k v = (case (json_unquote k, v) of (Some key, Some x) \<Rightarrow> Some (key, x) | _ \<Rightarrow> None)"

fun dec_gval :: "json \<Rightarrow> gval option" where
  "dec_gval JNull = Some VNil"
| "dec_gval (JBool b) = Some (VBool b)"
| "dec_gval (JNum s) = map_option VFloat (ParseFloat s)"
| "dec_gval (JStr raw) = map_option VStr (json_unquote raw)"
| "dec_gval (JArr vs) = map_option VList (those (map dec_gval vs))"
| "dec_gval (JObj ms) =
     map_option (\<lambda>kvs. VMap (fold put_entry kvs [])) (those (map (\<lambda>m. dec_member (fst m) (dec_gval (snd m))) ms))"

definition json_Unmarshal_Rec :: "bytes \<Rightarrow> Rec option option" where
  "json_Unmarshal_Rec s =
     (case json_parse s of
        Some JNull \<Rightarrow> Some None
      | Some (JObj ms) \<Rightarrow>
          map_option (\<lambda>kvs. Some (fold (\<lambda>(k, v). fmupd k v) kvs fmempty))
            (those (map (\<lambda>m. dec_member (fst m) (dec_gval (snd m))) ms))
      | _ \<Rightarrow> None)"

section \<open>The server\<close>

text \<open>\<^verbatim>\<open>bufio.Reader.ReadBytes('\n')\<close>: the next line with its end, or an error when the input ends before.\<close>

definition newline :: char where
  "newline = CHR 0x0A"

definition ReadBytes :: "bytes \<Rightarrow> (bytes \<times> bytes) option" where
  "ReadBytes s =
     (if newline \<in> set s then Some (takeWhile (\<lambda>c. c \<noteq> newline) s @ [newline], tl (dropWhile (\<lambda>c. c \<noteq> newline) s))
      else None)"

lemma ReadBytes_shorter: "ReadBytes s = Some (line, rest) \<Longrightarrow> length rest < length s"
proof -
  assume "ReadBytes s = Some (line, rest)"
  then have "newline \<in> set s" "rest = tl (dropWhile (\<lambda>c. c \<noteq> newline) s)" by (auto simp: ReadBytes_def split: if_splits)
  moreover have "length (dropWhile (\<lambda>c. c \<noteq> newline) s) \<le> length s" by (rule length_dropWhile_le)
  moreover from \<open>newline \<in> set s\<close> have "s \<noteq> []" by auto
  ultimately show "length rest < length s" by (cases s) auto
qed

text \<open>
  One connection: lines that are not a record are skipped, the others are answered.  The answer is flushed at once
  and the error of the flush is dropped; the buffered writer keeps it, so the next write ends the loop.
\<close>

function handle :: "(nat \<Rightarrow> nat option) \<Rightarrow> nat \<Rightarrow> bool \<Rightarrow> bytes \<Rightarrow> bytes" where
  "handle wr k failed s =
     (case ReadBytes s of
        None \<Rightarrow> []
      | Some (line, rest) \<Rightarrow>
          (case json_Unmarshal_Rec line of
             None \<Rightarrow> handle wr k failed rest
           | Some rec \<Rightarrow>
               if failed then []
               else
                 (let b = (case json_Marshal_Rec rec of None \<Rightarrow> [] | Some t \<Rightarrow> t) @ [newline]
                  in case wr k of
                       None \<Rightarrow> b @ handle wr (Suc k) False rest
                     | Some n \<Rightarrow> take n b @ handle wr (Suc k) True rest)))"
  by pat_completeness auto
termination by (relation "measure (\<lambda>(wr, k, failed, s). length s)") (auto dest: ReadBytes_shorter)

declare handle.simps [simp del]

text \<open>The accept loop: every connection gets its own handler; it ends when the listener is closed.\<close>

fun serve :: "(string + 'c) list \<Rightarrow> 'c list" where
  "serve [] = []"
| "serve (Inl err # evs) = (if Contains err ''use of closed network connection'' then [] else serve evs)"
| "serve (Inr conn # evs) = conn # serve evs"

definition StartProcessorServer :: "(go_error + (string + 'c) list) \<Rightarrow> go_error + 'c list" where
  "StartProcessorServer listen = (case listen of Inl err \<Rightarrow> Inl err | Inr evs \<Rightarrow> Inr (serve evs))"

section \<open>The client\<close>

record ClientStream =
  cs_addr :: string
  cs_in :: bytes
  cs_out :: bytes
  cs_failed :: bool

definition NewClientStream :: "(string \<Rightarrow> go_error option) \<Rightarrow> string \<Rightarrow> go_error + ClientStream" where
  "NewClientStream dial addr =
     (case dial addr of
        Some err \<Rightarrow> Inl err
      | None \<Rightarrow> Inr \<lparr> cs_addr = addr, cs_in = [], cs_out = [], cs_failed = False \<rparr>)"

definition cs_Send :: "nat option \<Rightarrow> Rec option \<Rightarrow> ClientStream \<Rightarrow> go_error option \<times> ClientStream" where
  "cs_Send w rec c =
     (case json_Marshal_Rec rec of
        None \<Rightarrow> (Some ErrJson, c)
      | Some t \<Rightarrow>
          if cs_failed c then (Some (Err ''write''), c)
          else case w of
            None \<Rightarrow> (None, c\<lparr>cs_out := cs_out c @ t @ [newline]\<rparr>)
          | Some n \<Rightarrow> (Some (Err ''write''), c\<lparr>cs_out := cs_out c @ take n (t @ [newline]), cs_failed := True\<rparr>))"

definition cs_Recv :: "ClientStream \<Rightarrow> (go_error + Rec option) \<times> ClientStream" where
  "cs_Recv c =
     (case ReadBytes (cs_in c) of
        None \<Rightarrow> (Inl (Err ''EOF''), c\<lparr>cs_in := []\<rparr>)
      | Some (line, rest) \<Rightarrow>
          (case json_Unmarshal_Rec line of None \<Rightarrow> Inl ErrJson | Some rec \<Rightarrow> Inr rec, c\<lparr>cs_in := rest\<rparr>))"

section \<open>A distributed run\<close>

fun dial_all :: "(string \<Rightarrow> go_error option) \<Rightarrow> PlanFragment list \<Rightarrow> go_error + ClientStream list" where
  "dial_all dial [] = Inr []"
| "dial_all dial (f # fs) =
     (case NewClientStream dial (fr_Address f) of
        Inl err \<Rightarrow> Inl err
      | Inr cs \<Rightarrow> (case dial_all dial fs of Inl err \<Rightarrow> Inl err | Inr clients \<Rightarrow> Inr (cs # clients)))"

text \<open>The source is spread over the clients in turn; without clients the index computation divides by zero.\<close>

definition reread :: "Rec \<Rightarrow> Rec option" where
  "reread r = (case json_Marshal_Rec (Some r) of None \<Rightarrow> None
     | Some b \<Rightarrow> (case json_Unmarshal_Rec b of None \<Rightarrow> None | Some rr \<Rightarrow> rr))"

fun send_all :: "(nat \<Rightarrow> nat option) \<Rightarrow> ClientStream list \<Rightarrow> nat \<Rightarrow> Rec list \<Rightarrow> go_error + ClientStream list" where
  "send_all ws clients i [] = Inr clients"
| "send_all ws clients i (r # rs) =
     (if clients = [] then Inl (ErrPanic ''integer divide by zero'')
      else
        (let j = i mod length clients
         in send_all ws (clients[j := snd (cs_Send (ws i) (reread r) (clients ! j))]) (Suc i) rs))"

text \<open>
  One receiver per client appends to the common output until an error; the schedule says whose turn it is, and ends
  when the timeout does.  Receivers start before the sending and run beside it, but they only read from their own
  connection and a read waits for the bytes, so what a schedule can produce is the same as after the sending: a turn
  that would wait contributes nothing.
\<close>

fun collect :: "ClientStream list \<Rightarrow> nat list \<Rightarrow> nat list \<Rightarrow> Rec option list" where
  "collect clients ended [] = []"
| "collect clients ended (j # js) =
     (if j \<ge> length clients \<or> j \<in> set ended then collect clients ended js
      else case cs_Recv (clients ! j) of
        (Inl _, c) \<Rightarrow> collect (clients[j := c]) (j # ended) js
      | (Inr rec, c) \<Rightarrow> rec # collect (clients[j := c]) ended js)"

definition RunDistributed ::
  "(string \<Rightarrow> go_error option) \<Rightarrow> (string \<Rightarrow> bytes \<Rightarrow> bytes) \<Rightarrow> (nat \<Rightarrow> nat option) \<Rightarrow> string list \<Rightarrow> Rec list \<Rightarrow> nat list \<Rightarrow>
     go_error + Rec option list" where
  "RunDistributed dial peer ws addrs src sched =
     (case dial_all dial (Distribute addrs []) of
        Inl err \<Rightarrow> Inl err
      | Inr clients \<Rightarrow>
          (case send_all ws clients 0 src of
             Inl err \<Rightarrow> Inl err
           | Inr sent \<Rightarrow> Inr (collect (map (\<lambda>c. c\<lparr>cs_in := peer (cs_addr c) (cs_out c)\<rparr>) sent) [] sched)))"

section \<open>Documents have no line ends\<close>

lemma scan_string_printable: "scan_string s = Some (a, b) \<Longrightarrow> newline \<notin> set a"
proof (induction s arbitrary: a b rule: scan_string.induct)
  case (2 c cs)
  show ?case
  proof (cases "c = CHR 0x5C")
    case True
    then obtain e es where cs: "cs = e # es"
      using "2.prems" by (auto simp: scan_string.simps split: list.splits)
    then obtain raw where "scan_string es = Some (raw, b)" "a = c # e # raw"
        "\<not> (e = CHR ''u'' \<and> hex4 es = None)" "e = CHR ''u'' \<or> e \<in> set (CHR 0x22 # CHR 0x5C # ''/bfnrt'')"
      using "2.prems" True by (auto simp: scan_string.simps split: if_splits)
    then show ?thesis using "2.IH"(1) [OF _ True cs] True by (auto simp: newline_def)
  next
    case False
    then show ?thesis
      using "2.prems" "2.IH"(2) by (auto simp: scan_string.simps newline_def split: if_splits)
  qed
qed simp

lemma raw_ok_printable: "raw_ok raw \<Longrightarrow> newline \<notin> set raw"
  by (auto simp: raw_ok_def dest: scan_string_printable)

lemma newline_plain [simp]: "\<not> is_digit newline" "newline \<noteq> CHR ''-''" "newline \<noteq> CHR ''+''" "newline \<noteq> CHR ''0''"
  "newline \<noteq> CHR ''.''" "newline \<noteq> CHR ''e''" "newline \<noteq> CHR ''E''"
  by (simp_all add: newline_def is_digit_def)

lemma takeWhile_digit_printable [simp]: "newline \<notin> set (takeWhile is_digit s)"
  by (auto dest: set_takeWhileD)

lemma scan_parts_printable:
  "scan_int s = Some (a, b) \<Longrightarrow> newline \<notin> set a" "scan_frac s = Some (a, b) \<Longrightarrow> newline \<notin> set a"
  "scan_exp s = Some (a, b) \<Longrightarrow> newline \<notin> set a"
proof -
  show "scan_int s = Some (a, b) \<Longrightarrow> newline \<notin> set a"
    using takeWhile_digit_printable [of s] by (cases s) (auto simp: scan_int_def simp del: takeWhile_digit_printable takeWhile.simps split: if_splits)
  show "scan_frac s = Some (a, b) \<Longrightarrow> newline \<notin> set a"
    by (cases s) (auto simp: scan_frac_def split: if_splits)
  have "newline \<notin> set (takeWhile (\<lambda>x. x = CHR ''+'' \<or> x = CHR ''-'') (take 1 t))" for t by (auto dest: set_takeWhileD)
  then show "scan_exp s = Some (a, b) \<Longrightarrow> newline \<notin> set a"
    by (cases s) (auto simp: scan_exp_def Let_def split: if_splits)
qed

lemma num_ok_printable: "num_ok s \<Longrightarrow> newline \<notin> set s"
proof -
  define sg where "sg = takeWhile (\<lambda>x. x = CHR ''-'') (take 1 s)"
  have "newline \<notin> set sg" unfolding sg_def by (auto dest: set_takeWhileD)
  moreover assume "num_ok s"
  then obtain i s1 f s2 e where p: "scan_int (drop (length sg) s) = Some (i, s1)" "scan_frac s1 = Some (f, s2)" "scan_exp s2 = Some (e, [])"
      "sg @ i @ f @ e = s"
    by (auto simp: num_ok_def scan_number_def Let_def sg_def split: option.splits)
  ultimately show ?thesis using scan_parts_printable(1) [OF p(1)] scan_parts_printable(2) [OF p(2)] scan_parts_printable(3) [OF p(3)]
    unfolding p(4) [symmetric] by simp
qed

lemma newline_sep_concat: "newline \<in> set (sep_concat xs) \<Longrightarrow> \<exists>x \<in> set xs. newline \<in> set x"
  by (induction xs rule: sep_concat.induct) (auto simp: newline_def)

lemma text_printable: "wf_json v \<Longrightarrow> newline \<notin> set (json_text v)"
proof (induction v)
  case (JArr vs)
  have "newline \<notin> set (sep_concat (map json_text vs))" using newline_sep_concat [of "map json_text vs"] JArr by auto
  then show ?case by (simp add: newline_def)
next
  case (JObj ms)
  have "newline \<notin> set (quoted k @ '':'' @ json_text v)" if m: "(k, v) \<in> set ms" for k v
  proof -
    have "newline \<notin> set (json_text v)" "newline \<notin> set k" using JObj.IH [OF m] JObj.prems raw_ok_printable m by auto
    then show ?thesis by (simp add: quoted_def newline_def)
  qed
  then have "newline \<notin> set (sep_concat (map (\<lambda>m. quoted (fst m) @ '':'' @ json_text (snd m)) ms))"
    using newline_sep_concat [of "map (\<lambda>m. quoted (fst m) @ '':'' @ json_text (snd m)) ms"] by fastforce
  then show ?case by (simp add: newline_def)
next
  case (JNum s)
  then show ?case using num_ok_printable by simp
next
  case (JStr raw)
  then show ?case using raw_ok_printable [of raw] by (simp add: quoted_def newline_def)
qed (simp_all add: newline_def)

section \<open>What a record becomes on the wire\<close>

text \<open>A number that is read back as it was written, and the values the wire carries faithfully.\<close>

definition float_ok :: "float64 \<Rightarrow> bool" where
  "float_ok x \<longleftrightarrow> (case json_float x of None \<Rightarrow> False | Some s \<Rightarrow> num_ok s \<and> ParseFloat s = Some x)"

fun wire_ok :: "nat \<Rightarrow> gval \<Rightarrow> bool" where
  "wire_ok n VNil \<longleftrightarrow> True"
| "wire_ok n (VBool b) \<longleftrightarrow> True"
| "wire_ok n (VInt i) \<longleftrightarrow> float_ok (f_of_int i)"
| "wire_ok n (VFloat f) \<longleftrightarrow> float_ok f"
| "wire_ok n (VStr s) \<longleftrightarrow> valid_utf8 s"
| "wire_ok n (VList vs) \<longleftrightarrow> 0 < n \<and> (\<forall>v \<in> set vs. wire_ok (n - 1) v)"
| "wire_ok n (VMap kvs) \<longleftrightarrow> 0 < n \<and> distinct (map fst kvs) \<and> (\<forall>kv \<in> set kvs. valid_utf8 (fst kv) \<and> wire_ok (n - 1) (snd kv))"
| "wire_ok n _ \<longleftrightarrow> False"

text \<open>Reading it back: integers have become floating-point numbers and the keys of a map are in order.\<close>

fun wired :: "gval \<Rightarrow> gval" where
  "wired (VInt i) = VFloat (f_of_int i)"
| "wired (VList vs) = VList (map wired vs)"
| "wired (VMap kvs) = VMap (map (\<lambda>kv. (fst kv, wired (snd kv))) (sort_key fst kvs))"
| "wired v = v"

lemma sort_key_map: "sort_key f (map g xs) = map g (sort_key (\<lambda>x. f (g x)) xs)"
proof (induction xs)
  case (Cons x xs)
  have "insort_key f (g x) (map g ys) = map g (insort_key (\<lambda>x. f (g x)) x ys)" for ys by (induction ys) simp_all
  then show ?case using Cons by simp
qed simp

lemma those_map: "(\<And>x. x \<in> set xs \<Longrightarrow> f x = Some (g x)) \<Longrightarrow> those (map f xs) = Some (map g xs)"
  by (induction xs) simp_all

lemma ParseFloat_fmt_d: "ParseFloat (fmt_d i) = (case f_of_int i of F_Fin s m e \<Rightarrow> Some (F_Fin s m e) | _ \<Rightarrow> None)"
proof -
  have d: "takeWhile is_digit (nat_dec n) = nat_dec n" "dropWhile is_digit (nat_dec n) = []" for n
    using all_digits_nat_dec [of n] by (auto simp: list_all_iff takeWhile_eq_all_conv)
  have "take (Suc 0) (nat_dec n) \<noteq> ''-''" for n
    using hd_nat_dec [of n] digit_not_sign by (cases "nat_dec n") auto
  then show ?thesis
    by (simp add: ParseFloat_def fmt_d_def f_of_int_def Let_def d exponent_val_def ten_frac_def)
qed

lemma float_ok_finite: "float_ok x \<Longrightarrow> \<exists>s m e. x = F_Fin s m e"
  by (cases x) (auto simp: float_ok_def json_float_def)

lemma fold_put_entry: "distinct (map fst kvs) \<Longrightarrow> \<forall>e \<in> set acc. fst e \<notin> set (map fst kvs) \<Longrightarrow> fold put_entry kvs acc = acc @ kvs"
proof (induction kvs arbitrary: acc)
  case (Cons kv kvs)
  have "put_entry kv acc = acc @ [kv]" using Cons.prems(2) by (auto simp: put_entry_def filter_id_conv)
  then show ?case using Cons by simp
qed simp

lemma fold_depth_le: "fold (\<lambda>v. max (f v)) xs a \<le> (k :: nat) \<longleftrightarrow> a \<le> k \<and> (\<forall>x \<in> set xs. f x \<le> k)"
  by (induction xs arbitrary: a) auto

lemma json_depth_le:
  "json_depth (JArr vs) \<le> n \<longleftrightarrow> 0 < n \<and> (\<forall>v \<in> set vs. json_depth v \<le> n - 1)"
  "json_depth (JObj ms) \<le> n \<longleftrightarrow> 0 < n \<and> (\<forall>m \<in> set ms. json_depth (snd m) \<le> n - 1)"
  by (cases n; simp add: fold_depth_le [where f = "\<lambda>m. json_depth (snd m)"] fold_depth_le)+

definition wire_doc :: "nat \<Rightarrow> gval \<Rightarrow> json option \<Rightarrow> bool" where
  "wire_doc n v d \<longleftrightarrow> (\<exists>j. d = Some j \<and> wf_json j \<and> json_depth j \<le> n \<and> dec_gval j = Some (wired v))"

lemma members_doc:
  assumes "distinct (map fst kvs)" "\<And>k v. (k, v) \<in> set kvs \<Longrightarrow> valid_utf8 k \<and> wire_doc (n - 1) v (f v)" "0 < n"
  shows "\<exists>ms. json_object (map (\<lambda>kv. (fst kv, f (snd kv))) kvs) = Some (JObj ms) \<and> wf_json (JObj ms) \<and> json_depth (JObj ms) \<le> n \<and>
    those (map (\<lambda>m. dec_member (fst m) (dec_gval (snd m))) ms) = Some (map (\<lambda>kv. (fst kv, wired (snd kv))) kvs)"
proof -
  define g where "g = (\<lambda>kv :: string \<times> gval. (json_escape (fst kv), the (f (snd kv))))"
  have "json_member (fst kv, f (snd kv)) = Some (g kv)" "wf_json (snd (g kv)) \<and> json_depth (snd (g kv)) \<le> n - 1"
    "dec_member (fst (g kv)) (dec_gval (snd (g kv))) = Some (fst kv, wired (snd kv))" if "kv \<in> set kvs" for kv
    using assms(2) [of "fst kv" "snd kv"] that by (auto simp: json_member_def g_def wire_doc_def dec_member_def unquote_escape)
  then have "json_object (map (\<lambda>kv. (fst kv, f (snd kv))) kvs) = Some (JObj (map g kvs))"
    "\<forall>kv \<in> set kvs. wf_json (snd (g kv)) \<and> json_depth (snd (g kv)) \<le> n - 1"
    "those (map (\<lambda>m. dec_member (fst m) (dec_gval (snd m))) (map g kvs)) = Some (map (\<lambda>kv. (fst kv, wired (snd kv))) kvs)"
    by (auto simp: json_object_def comp_def intro!: those_map)
  moreover have "raw_ok (fst (g kv))" for kv by (simp add: g_def)
  ultimately show ?thesis using assms(3) by (intro exI [of _ "map g kvs"]) (auto simp: json_depth_le simp del: json_depth.simps)
qed

lemma wire_doc_val: "wire_ok n v \<Longrightarrow> wire_doc n v (json_val v)"
proof (induction v arbitrary: n)
  case (VInt i)
  then show ?case using float_ok_finite [of "f_of_int i"] by (auto simp: wire_doc_def json_int_def ParseFloat_fmt_d)
next
  case (VFloat f)
  then show ?case by (auto simp: wire_doc_def float_ok_def split: option.splits)
next
  case (VStr s)
  then show ?case by (simp add: wire_doc_def json_str_def unquote_escape)
next
  case (VList vs)
  define g where "g = (\<lambda>v. the (json_val v))"
  have v: "json_val v = Some (g v) \<and> wf_json (g v) \<and> json_depth (g v) \<le> n - 1 \<and> dec_gval (g v) = Some (wired v)" if "v \<in> set vs" for v
    using VList.IH [OF that, of "n - 1"] VList.prems that by (auto simp: wire_doc_def g_def)
  then have "json_val (VList vs) = Some (JArr (map g vs))" "dec_gval (JArr (map g vs)) = Some (VList (map wired vs))"
    by (auto simp: comp_def intro!: those_map)
  moreover have "json_depth (JArr (map g vs)) \<le> n" using VList.prems v by (auto simp: json_depth_le simp del: json_depth.simps)
  ultimately show ?case using v by (auto simp: wire_doc_def simp del: json_depth.simps dec_gval.simps json_val.simps)
next
  case (VMap kvs)
  let ?s = "sort_key fst kvs"
  have d: "distinct (map fst ?s)" using VMap.prems by (simp add: distinct_map)
  have "valid_utf8 k \<and> wire_doc (n - 1) v (json_val v)" if "(k, v) \<in> set ?s" for k v
    using VMap.IH [of "(k, v)" v "n - 1"] VMap.prems that by auto
  from members_doc [OF d this] VMap.prems obtain ms where ms:
    "json_object (map (\<lambda>kv. (fst kv, json_val (snd kv))) ?s) = Some (JObj ms)" "wf_json (JObj ms)" "json_depth (JObj ms) \<le> n"
    "those (map (\<lambda>m. dec_member (fst m) (dec_gval (snd m))) ms) = Some (map (\<lambda>kv. (fst kv, wired (snd kv))) ?s)" by auto
  have "fold put_entry (map (\<lambda>kv. (fst kv, wired (snd kv))) ?s) [] = map (\<lambda>kv. (fst kv, wired (snd kv))) ?s"
    using fold_put_entry [of "map (\<lambda>kv. (fst kv, wired (snd kv))) ?s" "[]"] d by (simp add: comp_def)
  then show ?case using ms by (simp add: wire_doc_def sort_key_map del: json_depth.simps)
qed (simp_all add: wire_doc_def)

lemma wire_ok_wired: "wire_ok n v \<Longrightarrow> wire_ok n (wired v)"
proof (induction v arbitrary: n)
  case (VMap kvs)
  then show ?case by (fastforce simp: distinct_map comp_def)
qed auto

lemma wired_wired: "wired (wired v) = wired v"
proof (induction v)
  case (VMap kvs)
  have "wired (wired (snd kv)) = wired (snd kv)" if "kv \<in> set kvs" for kv
    using VMap [of kv "snd kv"] that by (cases kv) auto
  then show ?case by (simp add: sort_key_map comp_def sort_key_id_if_sorted)
qed auto

section \<open>Lines\<close>

definition rec_ok :: "Rec \<Rightarrow> bool" where
  "rec_ok r \<longleftrightarrow> (\<forall>k v. fmlookup r k = Some v \<longrightarrow> valid_utf8 k \<and> wire_ok 9999 v)"

definition wired_rec :: "Rec \<Rightarrow> Rec" where
  "wired_rec r = fmmap wired r"

lemma wired_rec_ok: "rec_ok r \<Longrightarrow> rec_ok (wired_rec r)" "wired_rec (wired_rec r) = wired_rec r"
  by (auto simp: rec_ok_def wired_rec_def wire_ok_wired wired_wired fmap.map_comp comp_def intro!: fmap_ext)

definition line_of :: "Rec \<Rightarrow> bytes" where
  "line_of r = the (json_Marshal_Rec (Some r)) @ [newline]"

lemma fold_fmupd_distinct:
  "distinct (map fst kvs) \<Longrightarrow> fmlookup (fold (\<lambda>(k, v). fmupd k v) kvs m) x = (case map_of kvs x of None \<Rightarrow> fmlookup m x | Some v \<Rightarrow> Some v)"
proof (induction kvs arbitrary: m)
  case (Cons kv kvs)
  then have "fst kv \<notin> fst ` set kvs" by simp
  then have "map_of kvs (fst kv) = None" by (simp add: map_of_eq_None_iff)
  then show ?case using Cons by (cases kv) (auto split: option.splits)
qed simp

lemma json_parse_line: "wf_json v \<Longrightarrow> json_depth v \<le> 10000 \<Longrightarrow> json_parse (json_text v @ [newline]) = Some v"
proof -
  have "delim [newline]" "skip_ws [newline] = []" by (simp_all add: delim_def newline_def skip_ws_def is_digit_def)
  then show "wf_json v \<Longrightarrow> json_depth v \<le> 10000 \<Longrightarrow> json_parse (json_text v @ [newline]) = Some v"
    using parse_value_text [of v "[newline]" "2 * length (json_text v @ [newline]) + 2"]
    by (simp add: json_parse_def json_decode_def)
qed

lemma record_line:
  assumes "rec_ok r"
  obtains t where "json_Marshal_Rec (Some r) = Some t" "newline \<notin> set t"
    "json_Unmarshal_Rec t = Some (Some (wired_rec r))" "json_Unmarshal_Rec (t @ [newline]) = Some (Some (wired_rec r))"
proof -
  define kvs where "kvs = map (\<lambda>k. (k, map_get VNil r k)) (sorted_keys r)"
  have d: "distinct (map fst kvs)" by (simp add: kvs_def comp_def)
  have kv: "(k, v) \<in> set kvs \<longleftrightarrow> fmlookup r k = Some v" for k v
    by (auto simp: kvs_def map_get_def fmlookup_dom'_iff split: option.splits)
  have "valid_utf8 k \<and> wire_doc (10000 - 1) v (json_val v)" if "(k, v) \<in> set kvs" for k v
    using assms that wire_doc_val [of 9999 v] by (auto simp: kv rec_ok_def)
  from members_doc [where n = 10000, OF d this] obtain ms where ms:
    "json_object (map (\<lambda>kv. (fst kv, json_val (snd kv))) kvs) = Some (JObj ms)" "wf_json (JObj ms)" "json_depth (JObj ms) \<le> 10000"
    "those (map (\<lambda>m. dec_member (fst m) (dec_gval (snd m))) ms) = Some (map (\<lambda>kv. (fst kv, wired (snd kv))) kvs)" by auto
  have "map_of (map (\<lambda>kv. (fst kv, wired (snd kv))) kvs) x = map_option wired (fmlookup r x)" for x
  proof -
    have "map_of kvs x = fmlookup r x" using d kv by (cases "fmlookup r x") (auto simp: map_of_eq_None_iff)
    moreover have "map_of (map (\<lambda>kv. (fst kv, wired (snd kv))) l) x = map_option wired (map_of l x)" for l
      by (induction l) auto
    ultimately show ?thesis by simp
  qed
  then have "fold (\<lambda>(k, v). fmupd k v) (map (\<lambda>kv. (fst kv, wired (snd kv))) kvs) fmempty = wired_rec r"
    using d by (intro fmap_ext) (simp add: fold_fmupd_distinct wired_rec_def comp_def split: option.split)
  then have u: "json_Unmarshal_Rec s = Some (Some (wired_rec r))" if "json_parse s = Some (JObj ms)" for s
    using that ms(4) by (simp add: json_Unmarshal_Rec_def)
  have "json_Marshal_Rec (Some r) = Some (json_text (JObj ms))"
    using ms(1) by (simp add: json_Marshal_Rec_def kvs_def comp_def)
  moreover have "newline \<notin> set (json_text (JObj ms))" by (rule text_printable [OF ms(2)])
  ultimately show ?thesis
    using that u [OF json_parse_text [OF ms(2,3)]] u [OF json_parse_line [OF ms(2,3)]] by blast
qed

lemma ReadBytes_line: "newline \<notin> set t \<Longrightarrow> ReadBytes (t @ newline # s) = Some (t @ [newline], s)"
proof -
  assume "newline \<notin> set t"
  then have "takeWhile (\<lambda>c. c \<noteq> newline) (t @ newline # s) = t" "dropWhile (\<lambda>c. c \<noteq> newline) (t @ newline # s) = newline # s"
    by (induction t) auto
  then show ?thesis by (simp add: ReadBytes_def)
qed

lemma ReadBytes_record:
  assumes "rec_ok r"
  shows "\<exists>l. ReadBytes (line_of r @ s) = Some (l, s) \<and> json_Unmarshal_Rec l = Some (Some (wired_rec r))"
proof -
  obtain t where "json_Marshal_Rec (Some r) = Some t" "newline \<notin> set t" "json_Unmarshal_Rec t = Some (Some (wired_rec r))"
      "json_Unmarshal_Rec (t @ [newline]) = Some (Some (wired_rec r))"
    by (rule record_line [OF assms])
  then show ?thesis using ReadBytes_line [of t s] by (simp add: line_of_def)
qed

lemma line_of_text: "rec_ok r \<Longrightarrow> (case json_Marshal_Rec (Some r) of None \<Rightarrow> [] | Some t \<Rightarrow> t) @ [newline] = line_of r"
  by (erule record_line) (simp add: line_of_def)

lemma reread_record: "rec_ok r \<Longrightarrow> reread r = Some (wired_rec r)"
  by (erule record_line) (simp add: reread_def)

lemma ReadBytes_Nil: "ReadBytes [] = None"
  by (simp add: ReadBytes_def)

text \<open>Without write failures the server answers each record with what it read, line by line.\<close>

lemma handle_records:
  "list_all rec_ok rs \<Longrightarrow> handle (\<lambda>_. None) k False (concat (map line_of rs)) = concat (map (line_of \<circ> wired_rec) rs)"
proof (induction rs arbitrary: k)
  case Nil
  then show ?case using handle.simps [of "\<lambda>_. None" k False "[]"] by (simp add: ReadBytes_Nil)
next
  case (Cons r rs)
  obtain l where l: "ReadBytes (line_of r @ concat (map line_of rs)) = Some (l, concat (map line_of rs))"
      "json_Unmarshal_Rec l = Some (Some (wired_rec r))"
    using ReadBytes_record [of r] Cons.prems by auto
  have "(case json_Marshal_Rec (Some (wired_rec r)) of None \<Rightarrow> [] | Some t \<Rightarrow> t) @ [newline] = line_of (wired_rec r)"
    using Cons.prems by (intro line_of_text wired_rec_ok) simp
  then show ?case
    using l Cons handle.simps [of "\<lambda>_. None" k False "line_of r @ concat (map line_of rs)"] by (simp add: Let_def)
qed

text \<open>A line that is no record is skipped, wherever it stands.\<close>

lemma handle_skips:
  assumes "newline \<notin> set g" "json_Unmarshal_Rec (g @ [newline]) = None"
  shows "handle wr k failed (g @ newline # s) = handle wr k failed s"
  using ReadBytes_line [OF assms(1), of s] assms(2) handle.simps [of wr k failed "g @ newline # s"] by simp

fun send_each :: "Rec list \<Rightarrow> ClientStream \<Rightarrow> ClientStream" where
  "send_each [] c = c"
| "send_each (r # rs) c = send_each rs (snd (cs_Send None (Some r) c))"

fun recv_each :: "nat \<Rightarrow> ClientStream \<Rightarrow> (go_error + Rec option) list" where
  "recv_each 0 c = []"
| "recv_each (Suc n) c = (case cs_Recv c of (r, c1) \<Rightarrow> r # recv_each n c1)"

lemma send_each_out:
  "list_all rec_ok rs \<Longrightarrow> \<not> cs_failed c \<Longrightarrow> send_each rs c = c\<lparr>cs_out := cs_out c @ concat (map line_of rs)\<rparr>"
proof (induction rs arbitrary: c)
  case (Cons r rs)
  then have "rec_ok r" by simp
  then have "snd (cs_Send None (Some r) c) = c\<lparr>cs_out := cs_out c @ line_of r\<rparr>"
    by (rule record_line) (simp add: cs_Send_def line_of_def Cons.prems(2))
  then show ?case using Cons by simp
qed simp

lemma recv_each_records:
  "list_all rec_ok rs \<Longrightarrow> cs_in c = concat (map line_of rs) \<Longrightarrow> recv_each (length rs) c = map (Inr \<circ> Some \<circ> wired_rec) rs"
proof (induction rs arbitrary: c)
  case (Cons r rs)
  then obtain l where "ReadBytes (cs_in c) = Some (l, concat (map line_of rs))" "json_Unmarshal_Rec l = Some (Some (wired_rec r))"
    using ReadBytes_record [of r "concat (map line_of rs)"] by auto
  then show ?case using Cons by (simp add: cs_Recv_def)
qed simp

text \<open>
  The echo over the line protocol: a client that sends records to the server over a connection that does not fail
  receives each of them, in order and exactly once, with its integers turned into floating-point numbers; lines of
  other peers that are not records, mixed in before, change nothing.
\<close>

theorem processor_echo:
  assumes "NewClientStream dial addr = Inr c" "list_all rec_ok rs" "newline \<notin> set g" "json_Unmarshal_Rec (g @ [newline]) = None"
  shows "recv_each (length rs) (c\<lparr>cs_in := handle (\<lambda>_. None) 0 False (g @ newline # cs_out (send_each rs c))\<rparr>) =
    map (Inr \<circ> Some \<circ> wired_rec) rs"
proof -
  have c: "cs_out c = []" "\<not> cs_failed c" using assms(1) by (auto simp: NewClientStream_def split: option.splits)
  have "handle (\<lambda>_. None) 0 False (g @ newline # cs_out (send_each rs c)) = concat (map line_of (map wired_rec rs))"
    using handle_skips [OF assms(3,4)] handle_records [OF assms(2)] send_each_out [OF assms(2) c(2)] c(1) by (simp add: comp_def)
  moreover have "list_all rec_ok (map wired_rec rs)" using assms(2) by (auto simp: list_all_iff wired_rec_ok)
  ultimately show ?thesis
    using recv_each_records [of "map wired_rec rs"] by (simp add: comp_def wired_rec_ok)
qed

definition sample_wire :: Rec where
  "sample_wire = fmap_of_list [(''x'', VInt 0), (''g'', VList [VStr ''a'', VBool True, VNil])]"

lemma sample_rec_ok: "rec_ok sample_wire"
proof -
  have "fmt_d 0 = ''0''" "num_ok ''0''" "valid_utf8 ''x''" "valid_utf8 ''g''" "valid_utf8 ''a''" by code_simp+
  then have "ParseFloat ''0'' = Some (f_of_int 0)" using ParseFloat_fmt_d [of 0] by (simp add: f_of_int_zero f_zero_def)
  then have "float_ok (f_of_int 0)" using \<open>num_ok ''0''\<close> by (simp add: float_ok_def json_float_def f_of_int_zero f_zero_def)
  with \<open>valid_utf8 ''x''\<close> \<open>valid_utf8 ''g''\<close> \<open>valid_utf8 ''a''\<close> show ?thesis by (auto simp: rec_ok_def sample_wire_def split: if_splits)
qed

theorem processor_echo_witness:
  "\<exists>c. NewClientStream (\<lambda>_. None) ''h:1'' = Inr c \<and>
     recv_each 2 (c\<lparr>cs_in := handle (\<lambda>_. None) 0 False (''junk'' @ newline # cs_out (send_each [sample_wire, sample_wire] c))\<rparr>) =
       [Inr (Some (wired_rec sample_wire)), Inr (Some (wired_rec sample_wire))]"
proof -
  obtain c where c: "NewClientStream (\<lambda>_. None) ''h:1'' = Inr c" by (simp add: NewClientStream_def)
  have "newline \<notin> set ''junk''" "json_Unmarshal_Rec (''junk'' @ [newline]) = None" by code_simp+
  with processor_echo [OF c, of "[sample_wire, sample_wire]" "''junk''"] c sample_rec_ok show ?thesis by (simp add: numeral_2_eq_2)
qed

section \<open>Every record once\<close>

fun collect_q :: "'a list list \<Rightarrow> nat list \<Rightarrow> 'a list" where
  "collect_q qs [] = []"
| "collect_q qs (j # js) =
     (if j < length qs \<and> qs ! j \<noteq> [] then hd (qs ! j) # collect_q (qs[j := tl (qs ! j)]) js else collect_q qs js)"

fun deal :: "nat \<Rightarrow> 'a list list \<Rightarrow> 'a list \<Rightarrow> 'a list list" where
  "deal i qs [] = qs"
| "deal i qs (r # rs) = deal (Suc i) (qs[i mod length qs := qs ! (i mod length qs) @ [r]]) rs"

lemma mset_take_out: "j < length qs \<Longrightarrow> qs ! j = x # xs \<Longrightarrow> mset (concat qs) = add_mset x (mset (concat (qs[j := xs])))"
proof (induction qs arbitrary: j)
  case (Cons q qs)
  then show ?case by (cases j) auto
qed simp

lemma mset_put_in: "j < length qs \<Longrightarrow> mset (concat (qs[j := qs ! j @ [x]])) = add_mset x (mset (concat qs))"
proof (induction qs arbitrary: j)
  case (Cons q qs)
  then show ?case by (cases j) auto
qed simp

lemma collect_q_some: "mset (collect_q qs js) \<subseteq># mset (concat qs)"
proof (induction qs js rule: collect_q.induct)
  case (2 qs j js)
  then show ?case using mset_take_out [of j qs "hd (qs ! j)" "tl (qs ! j)"] by simp
qed simp

lemma collect_q_all: "\<forall>j < length qs. length (qs ! j) \<le> count_list js j \<Longrightarrow> mset (collect_q qs js) = mset (concat qs)"
proof (induction qs js rule: collect_q.induct)
  case (1 qs)
  then have "\<forall>q \<in> set qs. q = []" by (auto simp: in_set_conv_nth)
  then show ?case by simp
next
  case (2 qs j js)
  show ?case
  proof (cases "j < length qs \<and> qs ! j \<noteq> []")
    case True
    have "\<forall>k < length (qs[j := tl (qs ! j)]). length (qs[j := tl (qs ! j)] ! k) \<le> count_list js k"
    proof (intro allI impI)
      fix k assume "k < length (qs[j := tl (qs ! j)])"
      then show "length (qs[j := tl (qs ! j)] ! k) \<le> count_list js k"
        using "2.prems" [rule_format, of k] by (cases "k = j") auto
    qed
    then show ?thesis using "2.IH"(1) [OF True] True mset_take_out [of j qs "hd (qs ! j)" "tl (qs ! j)"] by simp
  next
    case False
    have "\<forall>k < length qs. length (qs ! k) \<le> count_list js k"
    proof (intro allI impI)
      fix k assume "k < length qs"
      then show "length (qs ! k) \<le> count_list js k" using "2.prems" [rule_format, of k] False by (cases "k = j") auto
    qed
    moreover have "collect_q qs (j # js) = collect_q qs js" using False by auto
    ultimately show ?thesis using "2.IH"(2) [OF False] by simp
  qed
qed

lemma deal_mset: "qs \<noteq> [] \<Longrightarrow> mset (concat (deal i qs rs)) = mset (concat qs) + mset rs"
  by (induction i qs rs rule: deal.induct) (simp_all add: mset_put_in)

lemma deal_length: "length (deal i qs rs) = length qs"
  by (induction i qs rs rule: deal.induct) simp_all

lemma deal_all:
  "list_all (list_all P) qs \<Longrightarrow> list_all P rs \<Longrightarrow> list_all (list_all P) (deal i qs rs)"
proof (induction i qs rs rule: deal.induct)
  case (2 i qs r rs)
  have "list_all (list_all P) (qs[i mod length qs := qs ! (i mod length qs) @ [r]])"
  proof (cases "qs = []")
    case False
    then have "list_all P (qs ! (i mod length qs))" using 2(2) by (simp add: list_all_length [of "list_all P"])
    then have "list_all P (qs ! (i mod length qs) @ [r])" using 2(3) by simp
    then show ?thesis using 2(2) set_update_subset_insert [of qs] by (fastforce simp: list_all_iff)
  qed simp
  then show ?case using 2 by simp
qed simp

text \<open>The clients after sending, and what they then receive, in terms of the records dealt to each.\<close>

definition holds :: "ClientStream list \<Rightarrow> Rec list list \<Rightarrow> bool" where
  "holds clients qs \<longleftrightarrow> length clients = length qs \<and>
     (\<forall>j < length qs. cs_out (clients ! j) = concat (map line_of (qs ! j)) \<and> \<not> cs_failed (clients ! j))"

lemma send_all_deals:
  "holds clients qs \<Longrightarrow> qs \<noteq> [] \<Longrightarrow> list_all rec_ok rs \<Longrightarrow>
    \<exists>clients'. send_all (\<lambda>_. None) clients i rs = Inr clients' \<and> holds clients' (deal i qs (map wired_rec rs))"
proof (induction rs arbitrary: clients qs i)
  case (Cons r rs)
  define j where "j = i mod length qs"
  have j: "j < length qs" "i mod length clients = j" "clients \<noteq> []" using Cons.prems(1,2) by (auto simp: j_def holds_def)
  have "rec_ok (wired_rec r)" using Cons.prems(3) wired_rec_ok by simp
  then have s: "snd (cs_Send None (reread r) (clients ! j)) = (clients ! j)\<lparr>cs_out := cs_out (clients ! j) @ line_of (wired_rec r)\<rparr>"
    by (rule record_line) (use Cons.prems(1,3) j in \<open>simp add: reread_record cs_Send_def line_of_def holds_def\<close>)
  have "holds (clients[j := snd (cs_Send None (reread r) (clients ! j))]) (qs[j := qs ! j @ [wired_rec r]])"
    using Cons.prems(1) j(1) unfolding s by (auto simp: holds_def nth_list_update)
  from Cons.IH [OF this] show ?case using Cons.prems j by (auto simp: j_def [symmetric])
qed simp

lemma collect_dealt:
  assumes "list_all (list_all rec_ok) qs" "length clients = length qs"
    and "\<forall>j < length qs. cs_in (clients ! j) = concat (map line_of (qs ! j))" "\<forall>j \<in> set ended. j < length qs \<longrightarrow> qs ! j = []"
  shows "collect clients ended js = map (Some \<circ> wired_rec) (collect_q qs js)"
  using assms
proof (induction js arbitrary: clients ended qs)
  case (Cons j js)
  show ?case
  proof (cases "j < length qs \<and> qs ! j \<noteq> []")
    case True
    then obtain r q where q: "qs ! j = r # q" by (cases "qs ! j") auto
    have "list_all rec_ok (qs ! j)" using Cons.prems(1) True by (simp add: list_all_length [of "list_all rec_ok"])
    then have "rec_ok r" "list_all rec_ok q" using q by simp_all
    then obtain l where "ReadBytes (cs_in (clients ! j)) = Some (l, concat (map line_of q))" "json_Unmarshal_Rec l = Some (Some (wired_rec r))"
      using ReadBytes_record [of r] Cons.prems(3) True q by fastforce
    then have recv: "cs_Recv (clients ! j) = (Inr (Some (wired_rec r)), (clients ! j)\<lparr>cs_in := concat (map line_of q)\<rparr>)"
      by (simp add: cs_Recv_def)
    have "collect (clients[j := (clients ! j)\<lparr>cs_in := concat (map line_of q)\<rparr>]) ended js = map (Some \<circ> wired_rec) (collect_q (qs[j := q]) js)"
    proof (rule Cons.IH)
      show "list_all (list_all rec_ok) (qs[j := q])" using Cons.prems(1) \<open>list_all rec_ok q\<close> set_update_subset_insert [of qs j q] by (auto simp: list_all_iff)
    qed (use Cons.prems True q in \<open>auto simp: nth_list_update\<close>)
    moreover have "j \<notin> set ended" using Cons.prems(4) True by auto
    ultimately show ?thesis using True Cons.prems(2) recv q by simp
  next
    case False
    then have q: "collect_q qs (j # js) = collect_q qs js" by auto
    show ?thesis
    proof (cases "j \<ge> length clients \<or> j \<in> set ended")
      case True
      then show ?thesis using Cons q by simp
    next
      case False
      then have "qs ! j = []" "j < length qs" using \<open>\<not> (j < length qs \<and> qs ! j \<noteq> [])\<close> Cons.prems(2) by auto
      then have "cs_Recv (clients ! j) = (Inl (Err ''EOF''), (clients ! j)\<lparr>cs_in := []\<rparr>)"
        using Cons.prems(3) by (simp add: cs_Recv_def ReadBytes_Nil)
      moreover have "collect (clients[j := (clients ! j)\<lparr>cs_in := []\<rparr>]) (j # ended) js = map (Some \<circ> wired_rec) (collect_q qs js)"
        by (rule Cons.IH) (use Cons.prems \<open>qs ! j = []\<close> \<open>j < length qs\<close> in \<open>auto simp: nth_list_update\<close>)
      ultimately show ?thesis using False q by simp
    qed
  qed
qed simp

lemma dial_all_ok:
  "list_all (\<lambda>f. dial (fr_Address f) = None) fs \<Longrightarrow>
    dial_all dial fs = Inr (map (\<lambda>f. \<lparr> cs_addr = fr_Address f, cs_in = [], cs_out = [], cs_failed = False \<rparr>) fs)"
  by (induction fs) (simp_all add: NewClientStream_def)

lemma concat_length_nth: "j < length qs \<Longrightarrow> length (qs ! j) \<le> length (concat qs)"
proof (induction qs arbitrary: j)
  case (Cons q qs)
  then show ?case by (cases j) (auto intro: trans_le_add2)
qed simp

text \<open>
  A distributed run over servers that echo loses and invents nothing: whatever the order in which the clients receive
  and however early the timeout, the output consists of records of the source, each at most as often as there, and
  when every client could receive as often as there are records it is the whole source, up to order.
\<close>

theorem distributed_exactly_once:
  assumes "addrs \<noteq> []" "list_all (\<lambda>a. dial a = None) addrs" "list_all rec_ok src"
  shows "\<exists>out. RunDistributed dial (\<lambda>_. handle (\<lambda>_. None) 0 False) (\<lambda>_. None) addrs src sched = Inr (map Some out) \<and>
    mset out \<subseteq># mset (map wired_rec src) \<and>
    ((\<forall>j < length addrs. length src \<le> count_list sched j) \<longrightarrow> mset out = mset (map wired_rec src))"
proof -
  define n where "n = length addrs"
  define qs where "qs = deal 0 (replicate n []) (map wired_rec src)"
  let ?new = "\<lambda>f. \<lparr> cs_addr = fr_Address f, cs_in = [], cs_out = [], cs_failed = False \<rparr>"
  have "list_all (\<lambda>f. dial (fr_Address f) = None) (Distribute addrs [])"
    using assms(2) by (auto simp: Distribute_def list_all_iff in_set_enumerate_eq)
  note dial = dial_all_ok [OF this]
  have n: "n \<noteq> 0" "length (Distribute addrs []) = n" using assms(1) by (simp_all add: n_def Distribute_def)
  then have "holds (map ?new (Distribute addrs [])) (replicate n [])" by (simp add: holds_def)
  from send_all_deals [OF this _ assms(3), of 0] obtain sent where
    sent: "send_all (\<lambda>_. None) (map ?new (Distribute addrs [])) 0 src = Inr sent" "holds sent qs"
    using n by (auto simp: qs_def)
  have ok: "list_all (list_all rec_ok) qs" unfolding qs_def
    by (rule deal_all) (use assms(3) wired_rec_ok in \<open>auto simp: list_all_iff\<close>)
  define arrived where "arrived = map (\<lambda>c. c\<lparr>cs_in := handle (\<lambda>_. None) 0 False (cs_out c)\<rparr>) sent"
  have "collect arrived [] sched = map (Some \<circ> wired_rec) (collect_q (map (map wired_rec) qs) sched)"
  proof (rule collect_dealt)
    show "list_all (list_all rec_ok) (map (map wired_rec) qs)" using ok wired_rec_ok by (auto simp: list_all_iff)
    show "\<forall>j < length (map (map wired_rec) qs). cs_in (arrived ! j) = concat (map line_of (map (map wired_rec) qs ! j))"
      using sent(2) ok handle_records by (auto simp: arrived_def holds_def list_all_length [of "list_all rec_ok"])
  qed (use sent(2) in \<open>simp_all add: arrived_def holds_def\<close>)
  then have run: "RunDistributed dial (\<lambda>_. handle (\<lambda>_. None) 0 False) (\<lambda>_. None) addrs src sched =
      Inr (map Some (map wired_rec (collect_q (map (map wired_rec) qs) sched)))"
    using dial sent(1) by (simp add: RunDistributed_def arrived_def comp_def)
  define out where "out = collect_q (map (map wired_rec) qs) sched"
  have qs: "mset (concat qs) = mset (map wired_rec src)"
    using n deal_mset [of "replicate n []" 0 "map wired_rec src"] by (simp add: qs_def)
  have "mset (concat (map (map wired_rec) qs)) = image_mset wired_rec (mset (concat qs))"
    by (simp add: map_concat [symmetric] del: mset_concat)
  also have "\<dots> = mset (map wired_rec src)" unfolding qs by (simp add: wired_rec_ok multiset.map_comp comp_def)
  finally have src: "mset (concat (map (map wired_rec) qs)) = mset (map wired_rec src)" .
  have idem: "image_mset wired_rec (mset (map wired_rec src)) = mset (map wired_rec src)"
    by (simp add: wired_rec_ok multiset.map_comp comp_def)
  have "mset out \<subseteq># mset (map wired_rec src)" using collect_q_some [of "map (map wired_rec) qs" sched] src by (simp add: out_def)
  from image_mset_subseteq_mono [OF this, of wired_rec] have some: "mset (map wired_rec out) \<subseteq># mset (map wired_rec src)"
    unfolding idem by simp
  have all: "mset (map wired_rec out) = mset (map wired_rec src)" if "\<forall>j < length addrs. length src \<le> count_list sched j"
  proof -
    have "length (concat qs) = length src" using arg_cong [OF qs, of size] by simp
    then have "length (qs ! j) \<le> length src" if "j < length qs" for j
      using that by (metis concat_length_nth)
    moreover have "length qs = length addrs" by (simp add: qs_def deal_length n_def)
    ultimately have "mset out = mset (concat (map (map wired_rec) qs))"
      unfolding out_def using that by (intro collect_q_all) (auto intro: le_trans)
    then show ?thesis using src idem by simp
  qed
  show ?thesis using run some all unfolding out_def [symmetric] by blast
qed

theorem distributed_exactly_once_witness:
  "\<exists>out. RunDistributed (\<lambda>_. None) (\<lambda>_. handle (\<lambda>_. None) 0 False) (\<lambda>_. None) [''h:1'', ''h:2''] [sample_wire, fmempty, sample_wire]
      [1, 0, 1, 0, 0, 1] = Inr (map Some out) \<and>
    mset out = mset [wired_rec sample_wire, wired_rec fmempty, wired_rec sample_wire]"
proof -
  have "list_all rec_ok [sample_wire, fmempty, sample_wire]" using sample_rec_ok by (simp add: rec_ok_def)
  moreover have "\<forall>j < length [''h:1'', ''h:2'']. length [sample_wire, fmempty, sample_wire] \<le> count_list [1, 0, 1, 0, 0, 1 :: nat] j"
    by (auto simp: less_Suc_eq numeral_2_eq_2)
  ultimately show ?thesis
    using distributed_exactly_once [of "[''h:1'', ''h:2'']" "\<lambda>_. None" "[sample_wire, fmempty, sample_wire]" "[1, 0, 1, 0, 0, 1]"] by auto
qed

text \<open>Without addresses the run stops at the first record, dividing by the number of clients.\<close>

lemma RunDistributed_no_address:
  "RunDistributed dial peer ws [] (r # rs) sched = Inl (ErrPanic ''integer divide by zero'')"
  by (simp add: RunDistributed_def Distribute_def)

end
