(* ===== verification/Schema_Registry.thy ===== *)
theory Schema_Registry
  imports Go_Strings Processor_Ops
begin

text \<open>
  The schema registries of \<^verbatim>\<open>schema/registry.go\<close> and \<^verbatim>\<open>schema/advanced_registry.go\<close> and the connectors that validate
  against them (\<^verbatim>\<open>connectors/simple.go\<close>, \<^verbatim>\<open>connectors/kafka.go\<close>).  Every method holds the registry's lock for its whole
  body, so a history is a sequence of calls.
\<close>

section \<open>The simple registry\<close>

record Registry =
  schemas :: "(string, string) fmap"

definition NewRegistry :: Registry where
  "NewRegistry = \<lparr> schemas = fmempty \<rparr>"

definition reg_Register :: "string \<Rightarrow> string \<Rightarrow> Registry \<Rightarrow> Registry" where
  "reg_Register name s r = r\<lparr>schemas := fmupd name s (schemas r)\<rparr>"

definition reg_Get :: "string \<Rightarrow> Registry \<Rightarrow> string option" where
  "reg_Get name r = fmlookup (schemas r) name"

definition trimBraces :: "string \<Rightarrow> string" where
  "trimBraces s = (if length s \<ge> 2 \<and> hd s = CHR ''{'' \<and> last s = CHR ''}'' then butlast (tl s) else s)"

definition splitAndTrim :: "string \<Rightarrow> char \<Rightarrow> string list" where
  "splitAndTrim s sep = filter (\<lambda>t. t \<noteq> []) (map TrimSpace (split_char sep s))"

definition add_part :: "string \<Rightarrow> (string, string) fmap \<Rightarrow> (string, string) fmap" where
  "add_part p out = (case splitAndTrim p (CHR '':'') of [k, t] \<Rightarrow> fmupd k t out | _ \<Rightarrow> out)"

definition splitSchema :: "string \<Rightarrow> (string, string) fmap" where
  "splitSchema s =
     (let s' = trimBraces s in if s' = [] then fmempty else fold add_part (splitAndTrim s' (CHR '','')) fmempty)"

definition has_type :: "string \<Rightarrow> gval \<Rightarrow> bool" where
  "has_type typ v =
     (if typ = ''int'' then (case v of VInt _ \<Rightarrow> True | _ \<Rightarrow> False)
      else if typ = ''string'' then (case v of VStr _ \<Rightarrow> True | _ \<Rightarrow> False)
      else True)"

definition Validate :: "string \<Rightarrow> Rec \<Rightarrow> Registry \<Rightarrow> bool" where
  "Validate name rec r =
     (case reg_Get name r of
        None \<Rightarrow> False
      | Some s \<Rightarrow>
          if s = [] then True
          else let parts = splitSchema s
               in list_all (\<lambda>k. case fmlookup rec k of None \<Rightarrow> False | Some v \<Rightarrow> has_type (map_get [] parts k) v) (sorted_keys parts))"

section \<open>The versioned registry\<close>

definition FormatJSONSchema :: string where "FormatJSONSchema = ''jsonschema''"
definition FormatAvro :: string where "FormatAvro = ''avro''"
definition FormatProtobuf :: string where "FormatProtobuf = ''protobuf''"

record SchemaVersion =
  sv_ID :: int
  sv_Name :: string
  sv_Format :: string
  sv_Content :: string

record AdvancedRegistry =
  nextID :: int
  versions :: "(string, SchemaVersion list) fmap"

definition NewAdvancedRegistry :: AdvancedRegistry where
  "NewAdvancedRegistry = \<lparr> nextID = 1, versions = fmempty \<rparr>"

definition isBackwardCompatible :: "string \<Rightarrow> string \<Rightarrow> bool" where
  "isBackwardCompatible oldSchema newSchema = (if oldSchema = [] then True else length newSchema \<ge> length oldSchema)"

definition adv_Register :: "string \<Rightarrow> string \<Rightarrow> string \<Rightarrow> AdvancedRegistry \<Rightarrow> (go_error + SchemaVersion) \<times> AdvancedRegistry" where
  "adv_Register name format cont r =
     (if name = [] \<or> cont = [] then (Inl (Err ''name and content are required''), r)
      else if format \<noteq> FormatJSONSchema \<and> format \<noteq> FormatAvro \<and> format \<noteq> FormatProtobuf
      then (Inl (Err ''unsupported schema format''), r)
      else
        let vs = map_get [] (versions r) name
        in if vs \<noteq> [] \<and> \<not> isBackwardCompatible (sv_Content (last vs)) cont
           then (Inl (Err ''schema is not backward compatible''), r)
           else let sv = \<lparr> sv_ID = nextID r, sv_Name = name, sv_Format = format, sv_Content = cont \<rparr>
                in (Inr sv, r\<lparr>nextID := wrap64 (nextID r + 1), versions := fmupd name (vs @ [sv]) (versions r)\<rparr>))"

definition Latest :: "string \<Rightarrow> AdvancedRegistry \<Rightarrow> SchemaVersion option" where
  "Latest name r = (let vs = map_get [] (versions r) name in if vs = [] then None else Some (last vs))"

section \<open>Connectors\<close>

record InMemorySource =
  src_Records :: "Rec list"
  src_Registry :: "Registry option"
  src_SchemaName :: string

definition source_Run :: "InMemorySource \<Rightarrow> Rec list" where
  "source_Run s =
     filter (\<lambda>r. case src_Registry s of
       None \<Rightarrow> True
     | Some reg \<Rightarrow> if src_SchemaName s \<noteq> [] then Validate (src_SchemaName s) r reg else True) (src_Records s)"

record InMemorySink =
  Collected :: "Rec list"

definition sink_Consume :: "Rec list \<Rightarrow> InMemorySink \<Rightarrow> InMemorySink" where
  "sink_Consume inp s = s\<lparr>Collected := Collected s @ inp\<rparr>"

definition bridge_Run :: "InMemorySource option \<Rightarrow> InMemorySink option \<Rightarrow> InMemorySink option" where
  "bridge_Run src snk =
     (case (src, snk) of (Some s, Some k) \<Rightarrow> Some (sink_Consume (source_Run s) k) | _ \<Rightarrow> snk)"

definition ToRecord :: "string \<Rightarrow> string \<Rightarrow> Rec" where
  "ToRecord k v = fmap_of_list [(''key'', VStr k), (''value'', VStr v)]"

section \<open>Reading back a schema\<close>

text \<open>A schema as its users write it, \<^verbatim>\<open>{name: type, ...}\<close>, of words without separators.\<close>

definition word_char :: "char \<Rightarrow> bool" where
  "word_char c \<longleftrightarrow> visible c \<and> c \<notin> set '',:{}''"

definition plain_word :: "string \<Rightarrow> bool" where
  "plain_word w \<longleftrightarrow> w \<noteq> [] \<and> list_all word_char w"

definition show_part :: "string \<times> string \<Rightarrow> string" where
  "show_part p = fst p @ '': '' @ snd p"

fun show_parts :: "(string \<times> string) list \<Rightarrow> string" where
  "show_parts [] = []"
| "show_parts [p] = show_part p"
| "show_parts (p # ps) = show_part p @ '', '' @ show_parts ps"

definition show_schema :: "(string \<times> string) list \<Rightarrow> string" where
  "show_schema ps = ''{'' @ show_parts ps @ ''}''"

lemma word_char_visible: "word_char c \<Longrightarrow> visible c"
  by (simp add: word_char_def)

lemma plain_word_trimmed: "plain_word w \<Longrightarrow> trimmed w"
  by (auto simp: plain_word_def trimmed_def list_all_iff intro: word_char_visible)

definition plain_part :: "string \<times> string \<Rightarrow> bool" where
  "plain_part p \<longleftrightarrow> plain_word (fst p) \<and> plain_word (snd p)"

lemma part_facts:
  assumes "plain_part p"
  shows "trimmed (show_part p)" "CHR '','' \<notin> set (show_part p)" "add_part (show_part p) out = fmupd (fst p) (snd p) out"
proof -
  have w: "plain_word (fst p)" "plain_word (snd p)" using assms by (simp_all add: plain_part_def)
  then show "trimmed (show_part p)" by (auto simp: trimmed_def show_part_def plain_word_def list_all_iff intro: word_char_visible)
  have no: "CHR '','' \<notin> set x" "CHR '':'' \<notin> set x" if "plain_word x" for x
    using that by (auto simp: plain_word_def list_all_iff word_char_def)
  then show "CHR '','' \<notin> set (show_part p)" using w by (auto simp: show_part_def)
  have "split_char (CHR '':'') (show_part p) = [fst p, CHR '' '' # snd p]"
    using split_char_append [of "CHR '':''" "fst p" "CHR '' '' # snd p"] no(2) w by (simp add: show_part_def split_char_plain)
  then show "add_part (show_part p) out = fmupd (fst p) (snd p) out"
    using w by (simp add: add_part_def splitAndTrim_def TrimSpace_trimmed plain_word_trimmed) (simp add: plain_word_def)
qed

lemma split_parts:
  "ps \<noteq> [] \<Longrightarrow> list_all plain_part ps \<Longrightarrow>
    split_char (CHR '','') (show_parts ps) = show_part (hd ps) # map (\<lambda>p. CHR '' '' # show_part p) (tl ps)"
proof (induction ps rule: show_parts.induct)
  case (2 p)
  then show ?case using part_facts(2) by (simp add: split_char_plain)
next
  case (3 p q ps)
  have "split_char (CHR '','') (CHR '' '' # show_parts (q # ps)) =
      (CHR '' '' # show_part q) # map (\<lambda>p. CHR '' '' # show_part p) ps"
    using 3 by simp
  then show ?case
    using 3(3) part_facts(2) [of p] split_char_append [of "CHR '',''" "show_part p" "CHR '' '' # show_parts (q # ps)"]
    by (simp add: split_char_plain)
qed simp

lemma trim_parts:
  assumes "list_all plain_part ps" "ps \<noteq> []"
  shows "splitAndTrim (show_parts ps) (CHR '','') = map show_part ps"
proof -
  have t: "TrimSpace (show_part p) = show_part p" "TrimSpace (CHR '' '' # show_part p) = show_part p" "show_part p \<noteq> []"
    if "p \<in> set ps" for p
    using assms(1) that TrimSpace_trimmed part_facts(1) by (auto simp: list_all_iff show_part_def)
  obtain p qs where ps: "ps = p # qs" using assms(2) by (cases ps) auto
  have "map TrimSpace (split_char (CHR '','') (show_parts ps)) = map show_part ps"
    using split_parts [OF assms(2,1)] t by (simp add: ps)
  then show ?thesis using t(3) by (simp add: splitAndTrim_def filter_id_conv)
qed

lemma splitSchema_show:
  assumes "list_all plain_part ps"
  shows "splitSchema (show_schema ps) = fold (\<lambda>p. fmupd (fst p) (snd p)) ps fmempty"
proof (cases "ps = []")
  case False
  have "trimBraces (show_schema ps) = show_parts ps" by (simp add: trimBraces_def show_schema_def)
  moreover have "show_parts ps \<noteq> []" using False by (cases ps rule: show_parts.cases) (auto simp: show_part_def)
  moreover have "fold add_part (map show_part qs) out = fold (\<lambda>p. fmupd (fst p) (snd p)) qs out"
    if "list_all plain_part qs" for qs out
    using that part_facts(3) by (induction qs arbitrary: out) auto
  ultimately show ?thesis using trim_parts [OF assms False] assms by (simp add: splitSchema_def Let_def)
qed (simp add: splitSchema_def trimBraces_def show_schema_def)

lemma fold_parts_lookup:
  "distinct (map fst ps) \<Longrightarrow> fmlookup (fold (\<lambda>p. fmupd (fst p) (snd p)) ps m) k =
    (case map_of ps k of None \<Rightarrow> fmlookup m k | Some t \<Rightarrow> Some t)"
proof (induction ps arbitrary: m)
  case (Cons p ps)
  have "fst p \<notin> fst ` set ps" using Cons.prems by simp
  then have "map_of ps (fst p) = None" by (simp add: map_of_eq_None_iff)
  moreover have "fmlookup (fmupd (fst p) (snd p) m) k = (if k = fst p then Some (snd p) else fmlookup m k)" by simp
  ultimately show ?case using Cons by (cases "k = fst p") (simp_all cong: option.case_cong)
qed simp

lemma Validate_iff:
  assumes "list_all plain_part ps" "distinct (map fst ps)"
  shows "Validate name rec (reg_Register name (show_schema ps) r) \<longleftrightarrow>
    (\<forall>(k, t) \<in> set ps. \<exists>v. fmlookup rec k = Some v \<and> has_type t v)"
proof -
  let ?m = "fold (\<lambda>p. fmupd (fst p) (snd p)) ps fmempty"
  have look: "fmlookup ?m k = map_of ps k" for k by (simp add: fold_parts_lookup [OF assms(2)] split: option.split)
  have "Validate name rec (reg_Register name (show_schema ps) r) \<longleftrightarrow>
      (\<forall>k \<in> fmdom' ?m. case fmlookup rec k of None \<Rightarrow> False | Some v \<Rightarrow> has_type (map_get [] ?m k) v)"
    by (simp add: Validate_def reg_Register_def reg_Get_def splitSchema_show [OF assms(1)] list_all_iff Let_def)
      (simp add: show_schema_def)
  also have "\<dots> \<longleftrightarrow> (\<forall>(k, t) \<in> set ps. \<exists>v. fmlookup rec k = Some v \<and> has_type t v)"
  proof (intro iffI ballI)
    fix p
    assume all: "\<forall>k \<in> fmdom' ?m. case fmlookup rec k of None \<Rightarrow> False | Some v \<Rightarrow> has_type (map_get [] ?m k) v" and p: "p \<in> set ps"
    then have m: "fmlookup ?m (fst p) = Some (snd p)" using look map_of_eq_Some_iff [OF assms(2)] by simp
    then show "case p of (k, t) \<Rightarrow> \<exists>v. fmlookup rec k = Some v \<and> has_type t v"
      using bspec [OF all fmdom'I [OF m]] by (auto simp: map_get_Some [OF m] split: option.splits prod.splits)
  next
    fix k
    assume all: "\<forall>(k, t) \<in> set ps. \<exists>v. fmlookup rec k = Some v \<and> has_type t v" and "k \<in> fmdom' ?m"
    then obtain t where m: "fmlookup ?m k = Some t" by (auto simp: fmlookup_dom'_iff)
    then have "(k, t) \<in> set ps" using look map_of_eq_Some_iff [OF assms(2)] by simp
    then show "case fmlookup rec k of None \<Rightarrow> False | Some v \<Rightarrow> has_type (map_get [] ?m k) v"
      using all by (auto simp: map_get_Some [OF m])
  qed
  finally show ?thesis .
qed

lemma has_type_iff:
  "has_type t v \<longleftrightarrow> (t = ''int'' \<longrightarrow> (\<exists>n. v = VInt n)) \<and> (t = ''string'' \<longrightarrow> (\<exists>s. v = VStr s))"
  by (cases v) (simp_all add: has_type_def)

text \<open>C37. A schema registered in the form \<^verbatim>\<open>{name: type, ...}\<close> with distinct plain names validates exactly the records that
  have every named field, where a field declared \<^verbatim>\<open>int\<close> holds an integer and a field declared \<^verbatim>\<open>string\<close> holds a text. A field
  of any other declared type has to be present and may hold anything, and fields the schema does not name are free.
\<close>

theorem schema_validates_exactly:
  assumes "list_all plain_part ps" "distinct (map fst ps)"
  shows "Validate name rec (reg_Register name (show_schema ps) r) \<longleftrightarrow>
    (\<forall>(k, t) \<in> set ps. \<exists>v. fmlookup rec k = Some v \<and>
       (t = ''int'' \<longrightarrow> (\<exists>n. v = VInt n)) \<and> (t = ''string'' \<longrightarrow> (\<exists>s. v = VStr s)))"
  by (simp add: Validate_iff [OF assms] has_type_iff)

definition sample_schema :: "(string \<times> string) list" where
  "sample_schema = [(''id'', ''int''), (''name'', ''string'')]"

theorem schema_validates_exactly_witness:
  "\<not> Validate ''s'' (fmap_of_list [(''id'', VStr ''1''), (''name'', VStr ''x'')]) (reg_Register ''s'' (show_schema sample_schema) NewRegistry)"
proof -
  have "list_all plain_part sample_schema" by code_simp
  then show ?thesis
    using schema_validates_exactly [of sample_schema "''s''" "fmap_of_list [(''id'', VStr ''1''), (''name'', VStr ''x'')]" NewRegistry]
    by (simp add: sample_schema_def fmlookup_of_list)
qed

section \<open>Histories of the versioned registry\<close>

fun adv_run :: "(string \<times> string \<times> string) list \<Rightarrow> AdvancedRegistry \<Rightarrow> AdvancedRegistry" where
  "adv_run [] r = r"
| "adv_run ((n, f, c) # ops) r = adv_run ops (snd (adv_Register n f c r))"

definition version_ok :: "AdvancedRegistry \<Rightarrow> string \<Rightarrow> SchemaVersion \<Rightarrow> bool" where
  "version_ok r name sv \<longleftrightarrow> sv_Name sv = name \<and> sv_Format sv \<in> {FormatJSONSchema, FormatAvro, FormatProtobuf} \<and>
     sv_Content sv \<noteq> [] \<and> 1 \<le> sv_ID sv \<and> sv_ID sv < nextID r"

definition adv_wf :: "AdvancedRegistry \<Rightarrow> bool" where
  "adv_wf r \<longleftrightarrow>
     (\<forall>name. let vs = map_get [] (versions r) name in
        list_all (version_ok r name) vs \<and> sorted_wrt (<) (map sv_ID vs) \<and> sorted (map (length \<circ> sv_Content) vs)) \<and>
     (\<forall>n n' sv sv'. sv \<in> set (map_get [] (versions r) n) \<longrightarrow> sv' \<in> set (map_get [] (versions r) n') \<longrightarrow>
        sv_ID sv = sv_ID sv' \<longrightarrow> sv = sv')"

lemma adv_Register_cases:
  obtains err where "adv_Register name f c r = (Inl err, r)"
    | sv where "adv_Register name f c r =
        (Inr sv, r\<lparr>nextID := wrap64 (nextID r + 1), versions := fmupd name (map_get [] (versions r) name @ [sv]) (versions r)\<rparr>)"
      "sv_ID sv = nextID r" "sv_Name sv = name" "sv_Format sv \<in> {FormatJSONSchema, FormatAvro, FormatProtobuf}" "sv_Content sv \<noteq> []"
      "map_get [] (versions r) name \<noteq> [] \<Longrightarrow> length (sv_Content (last (map_get [] (versions r) name))) \<le> length (sv_Content sv)"
proof (cases "fst (adv_Register name f c r)")
  case (Inl err)
  then have "adv_Register name f c r = (Inl err, r)" by (auto simp: adv_Register_def Let_def split: if_splits)
  then show ?thesis by (rule that(1))
next
  case (Inr sv)
  then show ?thesis
    by (intro that(2) [of sv]) (auto simp: adv_Register_def isBackwardCompatible_def Let_def split: if_splits)
qed

lemma sorted_snoc_last: "sorted xs \<Longrightarrow> (xs \<noteq> [] \<Longrightarrow> last xs \<le> x) \<Longrightarrow> sorted (xs @ [x])"
  by (auto simp: sorted_append) (metis order_trans sorted_le_last empty_iff list.set(1))

lemma adv_Register_wf:
  assumes wf: "adv_wf r" and id: "1 \<le> nextID r" "nextID r < 2 ^ 63 - 1"
  shows "adv_wf (snd (adv_Register name f c r)) \<and> nextID (snd (adv_Register name f c r)) \<in> {nextID r, nextID r + 1}"
proof (rule adv_Register_cases [of name f c r])
  fix sv
  let ?vs = "map_get [] (versions r) name"
  let ?r = "r\<lparr>nextID := wrap64 (nextID r + 1), versions := fmupd name (?vs @ [sv]) (versions r)\<rparr>"
  assume reg: "adv_Register name f c r = (Inr sv, ?r)"
    and sv: "sv_ID sv = nextID r" "sv_Name sv = name" "sv_Format sv \<in> {FormatJSONSchema, FormatAvro, FormatProtobuf}" "sv_Content sv \<noteq> []"
    and len: "?vs \<noteq> [] \<Longrightarrow> length (sv_Content (last ?vs)) \<le> length (sv_Content sv)"
  have nxt: "nextID ?r = nextID r + 1" using id by (simp add: int64_range_def)
  have old: "list_all (version_ok r n) (map_get [] (versions r) n)" "sorted_wrt (<) (map sv_ID (map_get [] (versions r) n))"
      "sorted (map (length \<circ> sv_Content) (map_get [] (versions r) n))" for n
    using wf by (simp_all add: adv_wf_def Let_def)
  have below: "sv_ID x < nextID r" if "x \<in> set (map_get [] (versions r) n)" for x n
    using old(1) [of n] that by (auto simp: list_all_iff version_ok_def)
  have keep: "version_ok ?r n x" if "version_ok r n x" for n x using that nxt by (simp add: version_ok_def)
  have new: "version_ok ?r name sv" using sv id nxt by (simp add: version_ok_def)
  have "sorted (map (length \<circ> sv_Content) ?vs @ [length (sv_Content sv)])"
    by (rule sorted_snoc_last [OF old(3)]) (use len in \<open>auto simp: last_map\<close>)
  moreover have "sorted_wrt (<) (map sv_ID ?vs @ [sv_ID sv])"
    using old(2) [of name] below [of _ name] sv(1) by (auto simp: sorted_wrt_append)
  moreover have "list_all (version_ok ?r n) (map_get [] (versions r) n)" for n
    using old(1) [of n] keep by (auto simp: list_all_iff)
  moreover have "x = x'" if "x \<in> set (map_get [] (versions ?r) n)" "x' \<in> set (map_get [] (versions ?r) n')" "sv_ID x = sv_ID x'" for x x' n n'
    using that wf below sv(1) by (fastforce simp: adv_wf_def split: if_splits)
  ultimately have "adv_wf ?r" using old new by (auto simp: adv_wf_def Let_def)
  then show ?thesis using nxt by (simp add: reg)
qed (use wf in simp)

lemma adv_run_wf:
  "adv_wf r \<Longrightarrow> 1 \<le> nextID r \<Longrightarrow> nextID r + int (length ops) < 2 ^ 63 \<Longrightarrow> adv_wf (adv_run ops r)"
proof (induction ops r rule: adv_run.induct)
  case (2 n f c ops r)
  have "adv_wf (snd (adv_Register n f c r)) \<and> nextID (snd (adv_Register n f c r)) \<in> {nextID r, nextID r + 1}"
    by (rule adv_Register_wf) (use 2 in auto)
  then show ?case using 2 by auto
qed simp

text \<open>C38. The versioned registry keeps its versions well formed under every history of registrations: each has the name
  it is stored under, a known format and a non-empty content, identifiers are unique over all names and grow
  within a name, and contents never get shorter, which is all the compatibility check asks.
\<close>

theorem registry_versions_wf:
  assumes "int (length ops) < 2 ^ 63 - 1"
  shows "adv_wf (adv_run ops NewAdvancedRegistry)"
  by (rule adv_run_wf) (use assms in \<open>auto simp: adv_wf_def NewAdvancedRegistry_def\<close>)

theorem registry_versions_wf_witness:
  "adv_wf (adv_run [(''s'', ''avro'', ''ab''), (''s'', ''avro'', ''a'')] NewAdvancedRegistry)"
  by (rule registry_versions_wf) simp

text \<open>A registration that succeeds is the latest version of its name and leaves the other names alone.\<close>

lemma Latest_Register:
  assumes "adv_Register name f c r = (Inr sv, r')"
  shows "Latest name r' = Some sv" "n \<noteq> name \<Longrightarrow> Latest n r' = Latest n r"
  using assms by (cases rule: adv_Register_cases [of name f c r]; auto simp: Latest_def Let_def)+

section \<open>Connectors deliver what validates\<close>

lemma bridge_delivers:
  "bridge_Run (Some \<lparr> src_Records = rs, src_Registry = Some reg, src_SchemaName = n \<rparr>) (Some k) =
    Some (k\<lparr>Collected := Collected k @ (if n = [] then rs else filter (\<lambda>r. Validate n r reg) rs)\<rparr>)"
  by (simp add: bridge_Run_def sink_Consume_def source_Run_def)

end
