(* ===== verification/Broker_Sparse.thy ===== *)
theory Broker_Sparse
  imports Broker_Segment
begin

text \<open>
  The memory-mapped sparse index (\<^verbatim>\<open>broker/sparse_index_mmap.go\<close>): entries of an offset and a position, 16 bytes each, in a
  file of fixed size that is mapped shared, so a write to the mapping is a write to the file.  The system call that maps
  the file is a third-party wrapper and an argument, \<open>mmap path size\<close> being its error.
\<close>

record SparseMMapIndex =
  sm_path :: string
  sm_len :: nat
  sm_entries :: nat

text \<open>\<^verbatim>\<open>binary.BigEndian\<close> on 64 bits, read as a signed number.\<close>

definition put_u64 :: "int \<Rightarrow> bytes" where
  "put_u64 v = PutUint64 (word_of_int v)"

definition get_u64 :: "bytes \<Rightarrow> int" where
  "get_u64 b = sint (Uint64 b)"

definition os_Truncate :: "env \<Rightarrow> string \<Rightarrow> int \<Rightarrow> fs \<Rightarrow> go_error option \<times> fs" where
  "os_Truncate e p sz fs =
     (if \<not> os_ok e (Os_Truncate p sz) then (Some (ErrOs (IOFault (Os_Truncate p sz))), fs)
      else if sz < 0 then (Some (Err ''invalid argument''), fs)
      else
        let d = map_get [] fs p
        in (None, fmupd p (take (nat sz) d @ replicate (nat sz - length d) (CHR 0x00)) fs))"

text \<open>The loop that counts the entries of an existing file: it stops at the first entry of two zeros.\<close>

fun count_entries :: "bytes \<Rightarrow> nat \<Rightarrow> nat \<Rightarrow> go_error + nat" where
  "count_entries d 0 i = Inr i"
| "count_entries d (Suc n) i =
     (if length d < 16 * i + 16 then Inl (ErrPanic ''slice bounds out of range'')
      else if get_u64 (drop (16 * i) d) = 0 \<and> get_u64 (drop (16 * i + 8) d) = 0 then Inr i
      else count_entries d n (Suc i))"

definition OpenSparseMMapIndex ::
  "env \<Rightarrow> (string \<Rightarrow> int \<Rightarrow> go_error option) \<Rightarrow> string \<Rightarrow> int \<Rightarrow> fs \<Rightarrow> (go_error + SparseMMapIndex) \<times> fs" where
  "OpenSparseMMapIndex e mmap path maxEntries fs =
     (let maxEntries = (if maxEntries \<le> 0 then 1024 else maxEntries); sz = wrap64 (maxEntries * 16)
      in case os_OpenCreate e path fs of
           (Some err, fs1) \<Rightarrow> (Inl (ErrOs err), fs1)
         | (None, fs1) \<Rightarrow>
             (case os_Truncate e path sz fs1 of
                (Some err, fs2) \<Rightarrow> (Inl err, fs2)
              | (None, fs2) \<Rightarrow>
                  (case mmap path sz of
                     Some err \<Rightarrow> (Inl err, fs2)
                   | None \<Rightarrow>
                       (case count_entries (map_get [] fs2 path) (nat maxEntries) 0 of
                          Inl err \<Rightarrow> (Inl err, fs2)
                        | Inr k \<Rightarrow> (Inr \<lparr> sm_path = path, sm_len = nat sz, sm_entries = k \<rparr>, fs2)))))"

definition sm_data :: "SparseMMapIndex \<Rightarrow> fs \<Rightarrow> bytes" where
  "sm_data s fs = take (sm_len s) (map_get [] fs (sm_path s))"

definition sm_Append :: "int \<Rightarrow> int \<Rightarrow> SparseMMapIndex \<Rightarrow> fs \<Rightarrow> go_error option \<times> SparseMMapIndex \<times> fs" where
  "sm_Append off pos s fs =
     (let base = 16 * sm_entries s; d = map_get [] fs (sm_path s)
      in if base + 16 > sm_len s then (Some (Err ''sparse mmap index full''), s, fs)
         else (None, s\<lparr>sm_entries := sm_entries s + 1\<rparr>,
               fmupd (sm_path s) (take base d @ put_u64 off @ put_u64 pos @ drop (base + 16) d) fs))"

fun find_entry :: "bytes \<Rightarrow> int \<Rightarrow> nat \<Rightarrow> nat \<Rightarrow> go_error + int option" where
  "find_entry d off 0 i = Inr None"
| "find_entry d off (Suc n) i =
     (if length d < 16 * i + 8 then Inl (ErrPanic ''slice bounds out of range'')
      else if get_u64 (drop (16 * i) d) = off then
        (if length d < 16 * i + 16 then Inl (ErrPanic ''slice bounds out of range'')
         else Inr (Some (get_u64 (drop (16 * i + 8) d))))
      else find_entry d off n (Suc i))"

definition sm_Find :: "int \<Rightarrow> SparseMMapIndex \<Rightarrow> fs \<Rightarrow> go_error + int option" where
  "sm_Find off s fs = find_entry (sm_data s fs) off (sm_entries s) 0"

text \<open>Closing unmaps the file, once, and closes it; \<open>munmap\<close> and \<open>fclose\<close> are the errors of the two calls.\<close>

definition sm_Close :: "go_error option \<Rightarrow> go_error option \<Rightarrow> SparseMMapIndex \<Rightarrow> go_error option \<times> SparseMMapIndex" where
  "sm_Close munmap fclose s =
     (if 0 < sm_len s \<and> munmap \<noteq> None then (munmap, s) else (fclose, s\<lparr>sm_len := 0\<rparr>))"

fun append_entries :: "(int \<times> int) list \<Rightarrow> SparseMMapIndex \<Rightarrow> fs \<Rightarrow> go_error option list \<times> SparseMMapIndex \<times> fs" where
  "append_entries [] s fs = ([], s, fs)"
| "append_entries ((off, pos) # es) s fs =
     (case sm_Append off pos s fs of (err, s1, fs1) \<Rightarrow>
        (case append_entries es s1 fs1 of (errs, s2, fs2) \<Rightarrow> (err # errs, s2, fs2)))"

section \<open>The layout of the file\<close>

definition entry_bytes :: "int \<times> int \<Rightarrow> bytes" where
  "entry_bytes x = put_u64 (fst x) @ put_u64 (snd x)"

definition laid_out :: "nat \<Rightarrow> (int \<times> int) list \<Rightarrow> bytes" where
  "laid_out n es = concat (map entry_bytes es) @ replicate (16 * (n - length es)) (CHR 0x00)"

definition entry_ok :: "int \<times> int \<Rightarrow> bool" where
  "entry_ok x \<longleftrightarrow> int64_range (fst x) \<and> int64_range (snd x)"

lemma put_get: "int64_range v \<Longrightarrow> get_u64 (put_u64 v @ b) = v"
  using bytesToInt64_int64ToBytes [of v] by (simp add: get_u64_def put_u64_def Uint64_def PutUint64_def bytesToInt64_be flip: int64ToBytes_be)

lemma length_put [simp]: "length (put_u64 v) = 8"
  by (simp add: put_u64_def PutUint64_def)

lemma length_entries [simp]: "length (concat (map entry_bytes es)) = 16 * length es"
  by (induction es) (simp_all add: entry_bytes_def)

lemma length_laid_out [simp]: "length es \<le> n \<Longrightarrow> length (laid_out n es) = 16 * n"
  by (simp add: laid_out_def)

lemma drop_entries:
  "i \<le> length es \<Longrightarrow> drop (16 * i) (concat (map entry_bytes es) @ r) = concat (map entry_bytes (drop i es)) @ r"
proof (induction es arbitrary: i)
  case (Cons x es)
  then show ?case by (cases i) (simp_all add: entry_bytes_def)
qed simp

lemma get_zeros: "get_u64 (replicate k (CHR 0x00)) = 0"
proof -
  have z: "be_word (replicate m (CHR 0x00)) = (0 :: 64 word)" for m
    by (induction m) (simp_all add: be_word_def word_of_byte_def)
  show ?thesis by (simp add: get_u64_def Uint64_def z take_replicate min_def)
qed

lemma get_entry:
  assumes "i < length es" "list_all entry_ok es"
  shows "get_u64 (drop (16 * i) (laid_out n es)) = fst (es ! i)" "get_u64 (drop (16 * i + 8) (laid_out n es)) = snd (es ! i)"
proof -
  have x: "drop i es = es ! i # drop (Suc i) es" using assms(1) by (simp add: Cons_nth_drop_Suc)
  have ok: "entry_ok (es ! i)" using assms by (simp add: list_all_length)
  have d: "drop (16 * i) (laid_out n es) = put_u64 (fst (es ! i)) @ put_u64 (snd (es ! i)) @
      concat (map entry_bytes (drop (Suc i) es)) @ replicate (16 * (n - length es)) (CHR 0x00)"
    unfolding laid_out_def using drop_entries [of i es] assms(1) by (simp add: x entry_bytes_def)
  then show "get_u64 (drop (16 * i) (laid_out n es)) = fst (es ! i)" using ok by (simp add: put_get entry_ok_def)
  have "drop (16 * i + 8) (laid_out n es) = drop 8 (drop (16 * i) (laid_out n es))" by (simp add: add.commute)
  then show "get_u64 (drop (16 * i + 8) (laid_out n es)) = snd (es ! i)" using ok unfolding d by (simp add: put_get entry_ok_def)
qed

lemma count_laid_out:
  assumes "list_all entry_ok es" "length es \<le> n" "i \<le> length es" "k + i = n"
  shows "count_entries (laid_out n es) k i = Inr (i + length (takeWhile (\<lambda>x. x \<noteq> (0, 0)) (drop i es)))"
  using assms(3,4)
proof (induction k arbitrary: i)
  case (Suc k)
  then have len: "\<not> length (laid_out n es) < 16 * i + 16" using assms(2) by simp
  show ?case
  proof (cases "i < length es")
    case True
    then have "drop i es = es ! i # drop (Suc i) es" by (simp add: Cons_nth_drop_Suc)
    then show ?thesis
      using Suc.IH [of "Suc i"] Suc.prems True len get_entry [OF True assms(1), of n] by (auto simp: prod_eq_iff)
  next
    case False
    then have i: "i = length es" using Suc.prems by simp
    have "drop (16 * i + m) (laid_out n es) = replicate (16 * (n - i) - m) (CHR 0x00)" for m
      by (simp add: laid_out_def i)
    from this [of 0] this [of 8] show ?thesis using len by (simp add: get_zeros i)
  qed
qed (use assms(2) in simp)

lemma find_laid_out:
  assumes "list_all entry_ok es" "length es \<le> n" "k + i \<le> length es"
  shows "find_entry (laid_out n es) off k i = Inr (map_of (take k (drop i es)) off)"
  using assms(3)
proof (induction k arbitrary: i)
  case (Suc k)
  then have i: "i < length es" and len: "\<not> length (laid_out n es) < 16 * i + 16" "\<not> length (laid_out n es) < 16 * i + 8" using assms(2) by simp_all
  have "drop i es = es ! i # drop (Suc i) es" using i by (simp add: Cons_nth_drop_Suc)
  then show ?case using Suc len get_entry [OF i assms(1), of n] by (cases "es ! i") simp
qed simp

section \<open>Appending and reopening\<close>

definition holds_entries :: "nat \<Rightarrow> (int \<times> int) list \<Rightarrow> SparseMMapIndex \<Rightarrow> fs \<Rightarrow> bool" where
  "holds_entries n es s fs \<longleftrightarrow> length es \<le> n \<and> sm_len s = 16 * n \<and> sm_entries s = length es \<and>
     fmlookup fs (sm_path s) = Some (laid_out n es)"

lemma Append_laid_out:
  assumes "holds_entries n es s fs" "length es < n"
  shows "\<exists>s' fs'. sm_Append off pos s fs = (None, s', fs') \<and> holds_entries n (es @ [(off, pos)]) s' fs' \<and> sm_path s' = sm_path s"
proof -
  have m: "n - length es = Suc (n - Suc (length es))" using assms(2) by simp
  have "take (16 * length es) (laid_out n es) @ put_u64 off @ put_u64 pos @ drop (16 * length es + 16) (laid_out n es) =
      laid_out n (es @ [(off, pos)])"
    by (simp add: laid_out_def entry_bytes_def m)
  then show ?thesis using assms by (simp add: sm_Append_def holds_entries_def map_get_Some Let_def)
qed

lemma append_all_laid_out:
  "holds_entries n es0 s fs \<Longrightarrow> length es0 + length es \<le> n \<Longrightarrow>
    \<exists>s' fs'. append_entries es s fs = (replicate (length es) None, s', fs') \<and> holds_entries n (es0 @ es) s' fs' \<and> sm_path s' = sm_path s"
proof (induction es arbitrary: es0 s fs)
  case (Cons x es)
  obtain off pos where x: "x = (off, pos)" by force
  from Append_laid_out [OF Cons.prems(1), of off pos] Cons.prems(2) obtain s1 fs1 where
    1: "sm_Append off pos s fs = (None, s1, fs1)" "holds_entries n (es0 @ [x]) s1 fs1" "sm_path s1 = sm_path s" by (auto simp: x)
  from Cons.IH [OF 1(2)] Cons.prems(2) obtain s' fs' where
    "append_entries es s1 fs1 = (replicate (length es) None, s', fs')" "holds_entries n (es0 @ x # es) s' fs'" "sm_path s' = sm_path s1" by auto
  with 1 show ?case by (simp add: x)
qed simp

lemma Open_laid_out:
  assumes "quiet e" "mmap path (16 * int n) = None" "0 < n" "int n < 2 ^ 59" "list_all entry_ok es" "length es \<le> n"
    and "fmlookup fs path = Some (laid_out n es) \<or> es = [] \<and> fmlookup fs path = None"
  shows "\<exists>s fs'. OpenSparseMMapIndex e mmap path (int n) fs = (Inr s, fs') \<and> sm_path s = path \<and> sm_len s = 16 * n \<and>
    sm_entries s = length (takeWhile (\<lambda>x. x \<noteq> (0, 0)) es) \<and> fmlookup fs' path = Some (laid_out n es)"
proof -
  have w: "wrap64 (int n * 16) = 16 * int n" using assms(4) by (simp add: int64_range_def mult.commute)
  have open_fs: "map_get [] (if fmlookup fs path = None then fmupd path [] fs else fs) path = (if fmlookup fs path = None then [] else laid_out n es)"
    using assms(7) by (auto simp: map_get_def)
  have "os_Truncate e path (16 * int n) (if fmlookup fs path = None then fmupd path [] fs else fs) =
      (None, fmupd path (laid_out n es) (if fmlookup fs path = None then fmupd path [] fs else fs))"
    using assms(1,6,7) by (auto simp: os_Truncate_def open_fs Let_def nat_mult_distrib laid_out_def [of n "[]"])
  then show ?thesis
    using assms(1-4) count_laid_out [OF assms(5,6), of 0 n]
    by (simp add: OpenSparseMMapIndex_def os_OpenCreate_def w mult.commute map_get_def Let_def nat_mult_distrib)
qed

text \<open>
  The sparse index: appended entries that fit are all accepted, a lookup finds the first position appended for its offset,
  and after reopening with the same size it still finds exactly those appended before the first entry of offset 0 at
  position 0, which the file cannot tell from free space.
\<close>

theorem sparse_index_reopen:
  assumes "quiet e" "mmap path (16 * int n) = None" "0 < n" "int n < 2 ^ 59" "fmlookup fs path = None"
    and "list_all entry_ok es" "length es \<le> n"
  shows "\<exists>s fs1 s1 fs2 s2 fs3. OpenSparseMMapIndex e mmap path (int n) fs = (Inr s, fs1) \<and>
    append_entries es s fs1 = (replicate (length es) None, s1, fs2) \<and> sm_Find off s1 fs2 = Inr (map_of es off) \<and>
    OpenSparseMMapIndex e mmap path (int n) fs2 = (Inr s2, fs3) \<and>
    sm_Find off s2 fs3 = Inr (map_of (takeWhile (\<lambda>x. x \<noteq> (0, 0)) es) off)"
proof -
  have fd: "sm_Find off t gs = Inr (map_of (take (sm_entries t) es) off)"
    if "sm_len t = 16 * n" "fmlookup gs (sm_path t) = Some (laid_out n es)" "sm_entries t \<le> length es" for t gs
    using find_laid_out [OF assms(6,7), of "sm_entries t" 0 off] that assms(7) by (simp add: sm_Find_def sm_data_def map_get_Some)
  from Open_laid_out [of e mmap path n "[]" fs] assms(1-5) obtain s fs1 where
    1: "OpenSparseMMapIndex e mmap path (int n) fs = (Inr s, fs1)" "sm_path s = path" "holds_entries n [] s fs1"
    by (auto simp: holds_entries_def)
  from append_all_laid_out [OF 1(3), of es] assms(7) 1(2) obtain s1 fs2 where
    2: "append_entries es s fs1 = (replicate (length es) None, s1, fs2)" "holds_entries n es s1 fs2" "sm_path s1 = path" by auto
  from Open_laid_out [of e mmap path n es fs2] assms(1-4,6,7) 2(2,3) obtain s2 fs3 where
    3: "OpenSparseMMapIndex e mmap path (int n) fs2 = (Inr s2, fs3)" "sm_path s2 = path" "sm_len s2 = 16 * n"
      "sm_entries s2 = length (takeWhile (\<lambda>x. x \<noteq> (0, 0)) es)" "fmlookup fs3 path = Some (laid_out n es)"
    by (auto simp: holds_entries_def)
  have "sm_Find off s1 fs2 = Inr (map_of es off)" using fd [of s1 fs2] 2(2) by (simp add: holds_entries_def)
  moreover have "sm_Find off s2 fs3 = Inr (map_of (takeWhile (\<lambda>x. x \<noteq> (0, 0)) es) off)"
    using fd [of s2 fs3] 3 by (simp add: length_takeWhile_le flip: takeWhile_eq_take)
  ultimately show ?thesis using 1(1) 2(1) 3(1) by blast
qed

theorem sparse_index_reopen_witness:
  "\<exists>s fs1 s1 fs2 s2 fs3. OpenSparseMMapIndex calm_env (\<lambda>_ _. None) ''i'' 4 fmempty = (Inr s, fs1) \<and>
    append_entries [(0, 0), (10, 96)] s fs1 = ([None, None], s1, fs2) \<and> sm_Find 10 s1 fs2 = Inr (Some 96) \<and>
    OpenSparseMMapIndex calm_env (\<lambda>_ _. None) ''i'' 4 fs2 = (Inr s2, fs3) \<and> sm_Find 10 s2 fs3 = Inr None"
  using sparse_index_reopen [of calm_env "\<lambda>_ _. None" "''i''" 4 fmempty "[(0, 0), (10, 96)]" 10]
  by (simp add: entry_ok_def int64_range_def numeral_2_eq_2)

end
