(* ===== verification/Spec2Isabelle.thy ===== *)
theory Spec2Isabelle
  imports Broker_Main Sdk_Client Raft_Grpc Processor_Windows Processor_Net Schema_Registry Broker_Sparse
begin

text \<open>
  StreamFlow: a verification development for the Go streaming platform under \<^verbatim>\<open>src/\<close>.

  \<^bold>\<open>The program.\<close>  A broker keeps topics as append-only logs on disk and offers producing, consuming, committed
  offsets, transactions and idempotent producing (\<^verbatim>\<open>broker/\<close>).  A management server puts these operations behind HTTP
  with an API key (\<^verbatim>\<open>management/api\<close>), a small binary serves a subset of them with raw file transfer (\<^verbatim>\<open>cmd/broker\<close>), and a
  client library calls either (\<^verbatim>\<open>sdk/\<close>).  Replication rests on Raft nodes with a write-ahead log, snapshots in an object
  store and two transports (\<^verbatim>\<open>broker/internal/raft\<close>, \<^verbatim>\<open>broker/storage\<close>).  Stream processors read channels of records through
  operators, windows, joins and a query language (\<^verbatim>\<open>processor/\<close>, \<^verbatim>\<open>streamql/\<close>, \<^verbatim>\<open>planner/\<close>), and schema registries and
  connectors stand at the edges (\<^verbatim>\<open>schema/\<close>, \<^verbatim>\<open>connectors/\<close>).

  \<^bold>\<open>Conventions.\<close>  A Go struct is a record, an operation a function from the state to a result and the new state, an
  error or a panic a value of \<^typ>\<open>go_error\<close> in a sum.  A byte is a \<^typ>\<open>char\<close>, a string or byte slice a list of them, nil
  slices are told apart by an option where the code can tell.  An \<^verbatim>\<open>int\<close> or \<^verbatim>\<open>int64\<close> is an \<^typ>\<open>int\<close> with \<open>wrap64\<close> where it can
  overflow; sizes in frames are 32-bit words.  A map is a finite map, so its iteration order is fixed where the code's
  result does not depend on it.  Every system call takes an environment whose \<open>env_fault\<close> decides whether it works, fails,
  or fails after a part of the bytes; \<open>quiet\<close> environments never fail.  The clock is part of the environment.  Third-party
  code (the consensus library, protobuf, gRPC, the metric exporter, the tracing wrapper, memory mapping) is an argument,
  and what is needed of it a named hypothesis.

  \<^bold>\<open>The language and its library.\<close>
  \<^item> \<open>Go_Prelude\<close>: bytes, machine integers, big-endian codecs, finite maps, decimal texts.
  \<^item> \<open>Go_Time\<close>: instants, the calendar, RFC 3339 texts and their parser.
  \<^item> \<open>Go_Json\<close>: UTF-8, base64, the JSON scanner, parser and printer with their round trip.
  \<^item> \<open>Go_Float\<close>, \<open>Go_Strings\<close>, \<open>Go_Regexp\<close>: double precision, the strings package, matching in the order of the regexp package.
  \<^item> \<open>Go_Os\<close>, \<open>Go_Http\<close>: files under failures, requests, answers and the router.

  \<^bold>\<open>The components.\<close>
  \<^item> \<open>Broker_Record\<close>, \<open>Broker_Segment\<close> (\<^verbatim>\<open>broker/types.go\<close>): the record and its JSON form; the segment with its log and two index
    files, \<open>seg_Append\<close>, \<open>seg_ReadRange\<close>, \<open>newSegment\<close>.  The invariant \<open>seg_inv\<close> ties the index to the frames of the file;
    appending is all or nothing, and reopening after any failure yields a prefix (C1, C2, C19).  The locale \<open>entry_codec\<close>
    is the contract of the two index files.
  \<^item> \<open>Broker_Core\<close> (\<^verbatim>\<open>broker.go\<close>, \<^verbatim>\<open>multitenant.go\<close>): \<open>Produce\<close>, \<open>Consume\<close>, \<open>Fetch\<close>, \<open>FetchRaw\<close>, offsets, draining, refined to
    one abstract log per topic, \<open>topic_log\<close> (C3, C5, C6, C18, C20).  \<open>Fetch\<close> takes the broker at each of its iterations,
    since it gives up the lock between them.
  \<^item> \<open>Broker_Tx\<close> (\<^verbatim>\<open>transactions.go\<close>, \<^verbatim>\<open>idempotent.go\<close>): both work in critical sections with calls of the broker between them.
    The sections are the definitions (\<open>commit_begin\<close>, \<open>commit_finish\<close>, \<open>idem_lookup\<close>, \<open>idem_store\<close>), the operations compose
    them, and \<open>conc_step\<close> interleaves the sections of concurrent calls (C4, C11, C16, C17).  The locale \<open>topic_store\<close> is
    what publishing needs of the broker.
  \<^item> \<open>Broker_Sparse\<close> (\<^verbatim>\<open>sparse_index_mmap.go\<close>): the memory-mapped index, and what reopening it keeps.
  \<^item> \<open>Consumer_Group\<close> (\<^verbatim>\<open>consumer_group.go\<close>): membership and round-robin assignment (C21).
  \<^item> \<open>Management_Api\<close> (\<^verbatim>\<open>management/api/server.go\<close>): every handler, the router, and the wrappers for metrics, keys, audit and
    tracing; the state is the files and the broker (C7, C8, C31, C32).
  \<^item> \<open>Broker_Main\<close> (\<^verbatim>\<open>cmd/broker/main.go\<close>, \<^verbatim>\<open>sendfile*.go\<close>): the binary's handlers in both build variants (C33, C34).
  \<^item> \<open>Sdk_Client\<close> (\<^verbatim>\<open>sdk/\<close>): the embedded library, and the HTTP client run against the server model (C35, C36).
  \<^item> \<open>Raft_Wal\<close>, \<open>Raft_Node\<close> (\<^verbatim>\<open>wal.go\<close>, \<^verbatim>\<open>offload.go\<close>, \<^verbatim>\<open>node.go\<close>, the storages): framed log files, rotation, compaction, snapshots
    and their recovery, the node's handling of a ready batch and its restart (C9, C10, C13, C14, C15, C22, C23).  The
    locales \<open>object_store\<close> and \<open>log_store\<close> are the two interfaces of the code.
  \<^item> \<open>Raft_Cluster\<close>, \<open>Raft_Grpc\<close> (\<^verbatim>\<open>isr.go\<close>, \<^verbatim>\<open>transport_inproc.go\<close>, \<^verbatim>\<open>checkpoint_scheduler.go\<close>, \<^verbatim>\<open>transport_grpc.go\<close>): the write gate;
    channels with waiting receivers, where a send is a lookup and a later put (C12); the network transport with its
    credentials, connection and stream caches and the retry.
  \<^item> \<open>Processor_Ops\<close>, \<open>Processor_Windows\<close> (\<^verbatim>\<open>processor/op.go\<close>, \<^verbatim>\<open>advanced_streaming.go\<close>): operators on the list of a channel's
    records, with ticks as events among them, and event-time windows, watermarks, pattern detection and the interval
    join (C24 to C30).  The locale \<open>state_store\<close> is the contract of the two stores.
  \<^item> \<open>Streamql\<close>, \<open>Processor_Net\<close> (\<^verbatim>\<open>streamql/\<close>, \<^verbatim>\<open>planner/\<close>, \<^verbatim>\<open>processor/transport_grpc.go\<close>): parsing, planning and running a query
    (C39, C40), and the line protocol with the distributed run, in which nothing is lost or invented.
  \<^item> \<open>Schema_Registry\<close> (\<^verbatim>\<open>schema/\<close>, \<^verbatim>\<open>connectors/\<close>): registration, validation, versions, connectors (C37, C38).

  \<^bold>\<open>Bounds and fuel.\<close>  The JSON parser carries fuel \<open>2 * length s + 2\<close>, proved enough for every input.  Printing a
  floating-point number tries at most 17 digits, which determine every double, and scales by at most 700 powers of ten,
  beyond the 324 that occur.  The kernel copy loop and the sliding-window loop may not end and are partial functions;
  the latter is proved to return for a positive slide.  All other loops are structural or have a termination proof.
  An index \<open>n\<close> of the broker invariant counts how many further produces keep every offset and position in 64 bits.

  \<^bold>\<open>Not modelled.\<close>  The consensus algorithm, which is a library; the S3 store, whose methods are calls of a client
  package; generation of certificates; process start-up, benchmarks and jobs around the modelled functions; the region
  gateway and the incremental snapshot, which are placeholders.  The goroutines of a Raft node are reduced to the
  sequence of ready batches it handles.
\<close>

end
